(* ===== verification/Cq_Prelude.thy ===== *)
theory Cq_Prelude
  imports Main "HOL-Library.Word"
begin

text \<open>
  Shared ground of the development: the machine types of the C++ code, the result type of
  an operation, \<^verbatim>\<open>std::vector\<close> as a list, the move assignment of the element type as a
  parameter, and the arithmetic of ring positions (a window of \<open>n\<close> slots that starts at
  slot \<open>h\<close> and wraps at the end of the buffer).
\<close>

unbundle bit_operations_syntax

named_theorems ring_simps \<open>facts about ring windows and wrapped positions\<close>
named_theorems word_facts \<open>facts that move index arithmetic from words to naturals\<close>

section \<open>Machine types and results\<close>

type_synonym usize = "64 word"

text \<open>
  \<open>Done r s\<close>: the call returned \<open>r\<close> and left the state \<open>s\<close>. \<open>Raised e s\<close>: it
  threw. \<open>Crash\<close>: undefined behaviour (an index outside a vector) or
  \<^verbatim>\<open>std::terminate\<close>. \<open>Waiting s\<close>: the schedule it was given ran out while the call was
  still in its loop.
\<close>

datatype exn = Invalid_argument | Length_error | Move_assignment_failed

datatype ('s, 'r) outcome =
    Done 'r 's
  | Raised exn 's
  | Crash
  | Waiting 's

section \<open>Vectors\<close>

text \<open>
  \<open>vector_max_size sz\<close> is \<^verbatim>\<open>std::vector<T>::max_size()\<close> for an element of \<open>sz\<close> bytes:
  iterator differences are \<^verbatim>\<open>std::ptrdiff_t\<close>, so a vector never spans more than
  \<^verbatim>\<open>PTRDIFF_MAX\<close> bytes. The sized constructor throws \<^verbatim>\<open>std::length_error\<close> above it.
\<close>

definition vector_max_size :: "nat \<Rightarrow> nat" where
  "vector_max_size sz = (2 ^ 63 - 1) div sz"

definition vector_new :: "nat \<Rightarrow> 'a \<Rightarrow> usize \<Rightarrow> exn + 'a list" where
  "vector_new sz dflt n =
     (if vector_max_size sz < unat n then Inl Length_error
      else Inr (replicate (unat n) dflt))"

definition vector_size :: "'a list \<Rightarrow> usize" where
  "vector_size xs = of_nat (length xs)"

lemma vector_new_Inr:
  assumes "vector_new sz dflt n = Inr xs"
  shows "xs = replicate (unat n) dflt" and "unat n \<le> vector_max_size sz"
  using assms by (auto simp: vector_new_def split: if_splits)

lemma vector_max_size_less:
  assumes "0 < sz" and "n \<le> vector_max_size sz"
  shows "n * sz < 2 ^ 63"
proof -
  have "n * sz \<le> vector_max_size sz * sz"
    using assms(2) by simp
  also have "\<dots> \<le> 2 ^ 63 - 1"
    by (simp add: vector_max_size_def)
  finally show ?thesis by simp
qed

section \<open>Move assignment of the element type\<close>

text \<open>
  \<open>mv d s\<close> is \<^verbatim>\<open>d = std::move(s)\<close> for the element type: the values left in the
  destination and in the source, and whether the assignment threw on the way.
\<close>

datatype 'a move_result = Moved 'a 'a | Move_threw 'a 'a

type_synonym 'a move = "'a \<Rightarrow> 'a \<Rightarrow> 'a move_result"

text \<open>
  The two requirements the headers place on \<open>T\<close>: \<^verbatim>\<open>MoveAssignable\<close> (a completed
  assignment leaves in the destination the value the source had) and a \<^verbatim>\<open>noexcept\<close> move
  assignment.
\<close>

locale move_assignable =
  fixes mv :: "'a move"
  assumes transfers: "mv d s = Moved d' s' \<Longrightarrow> d' = s"

locale nothrow_move_assignable = move_assignable +
  assumes noexcept: "mv d s \<noteq> Move_threw d' s'"
begin

lemma moved: "\<exists>s'. mv d s = Moved s s'"
proof (cases "mv d s")
  case (Moved d' s')
  then show ?thesis using transfers by auto
next
  case (Move_threw d' s')
  then show ?thesis using noexcept by auto
qed

end

text \<open>Scalars (\<^verbatim>\<open>int\<close>, \<^verbatim>\<open>std::uint64_t\<close>) are copied by a move.\<close>

definition scalar_move :: "'a move" where
  "scalar_move d s = Moved s s"

text \<open>An owning pointer is emptied by a move, as \<^verbatim>\<open>std::unique_ptr\<close> is.\<close>

definition owner_move :: "'a option move" where
  "owner_move d s = Moved s None"

interpretation scalar: nothrow_move_assignable scalar_move
  by unfold_locales (simp_all add: scalar_move_def)

interpretation owner: nothrow_move_assignable owner_move
  by unfold_locales (simp_all add: owner_move_def)

section \<open>Index words\<close>

lemma unat_of_nat_usize [word_facts]: "n < 2 ^ 64 \<Longrightarrow> unat (of_nat n :: usize) = n"
  by (simp add: unat_of_nat take_bit_nat_eq_self)

lemma unat_vector_size [word_facts]: "length xs < 2 ^ 64 \<Longrightarrow> unat (vector_size xs) = length xs"
  by (simp add: vector_size_def unat_of_nat_usize)

lemma unat_succ [word_facts]: "unat (i :: usize) + 1 < 2 ^ 64 \<Longrightarrow> unat (i + 1) = unat i + 1"
  by (simp add: unat_word_ariths)

lemma unat_ring_next [word_facts]:
  fixes i :: usize
  assumes "unat i < n" and "n < 2 ^ 64"
  shows "unat (if i + 1 = of_nat n then 0 else i + 1) = (unat i + 1) mod n"
proof -
  have s: "unat (i + 1) = unat i + 1"
    using assms by (intro unat_succ) simp
  have eq: "i + 1 = of_nat n \<longleftrightarrow> unat i + 1 = n"
    using s assms unat_of_nat_usize [of n] by (metis word_unat_eq_iff)
  show ?thesis
    using assms s eq by auto
qed

lemma unat_ring_diff [word_facts]:
  fixes a b :: usize
  assumes "unat a < n" and "unat b < n" and "n < 2 ^ 63"
  shows "unat ((b + of_nat n - a) mod of_nat n) = (unat b + n - unat a) mod n"
proof -
  have n: "unat (of_nat n :: usize) = n"
    using assms by (intro unat_of_nat_usize) simp
  have add: "unat (b + of_nat n) = unat b + n"
    using assms n by (subst unat_word_ariths) simp
  have sub: "unat (b + of_nat n - a) = unat b + n - unat a"
  proof -
    have "a \<le> b + of_nat n"
      using add assms by (simp add: word_le_nat_alt)
    then show ?thesis by (simp add: unat_sub add)
  qed
  show ?thesis
    by (simp add: unat_mod_distrib sub n)
qed

lemma sint_neg_of_nat [word_facts]:
  assumes "m \<le> 2 ^ 63"
  shows "sint (- of_nat m :: usize) = - int m"
proof -
  have "(- of_nat m :: usize) = word_of_int (- int m)"
    by simp
  moreover have "signed_take_bit 63 (- int m) = - int m"
    using assms by (intro signed_take_bit_int_eq_self) auto
  ultimately show ?thesis
    by (simp only: sint_sbintrunc') simp
qed

lemma sint_of_nat [word_facts]:
  assumes "m < 2 ^ 63"
  shows "sint (of_nat m :: usize) = int m"
proof -
  have "(of_nat m :: usize) = word_of_int (int m)"
    by simp
  moreover have "signed_take_bit 63 (int m) = int m"
    using assms by (intro signed_take_bit_int_eq_self) auto
  ultimately show ?thesis
    by (simp only: sint_sbintrunc') simp
qed

section \<open>Windows of a ring\<close>

text \<open>
  \<open>ring_items buf h n\<close> reads \<open>n\<close> slots from slot \<open>h\<close> on, wrapping at the end;
  \<open>ring_dist n a b\<close> is the number of steps from \<open>a\<close> to \<open>b\<close> in a ring of \<open>n\<close> slots.
\<close>

definition ring_items :: "'a list \<Rightarrow> nat \<Rightarrow> nat \<Rightarrow> 'a list" where
  "ring_items buf h n = map (\<lambda>i. buf ! ((h + i) mod length buf)) [0..<n]"

definition ring_dist :: "nat \<Rightarrow> nat \<Rightarrow> nat \<Rightarrow> nat" where
  "ring_dist n a b = (b + n - a) mod n"

lemma length_ring_items [simp]: "length (ring_items buf h n) = n"
  by (simp add: ring_items_def)

lemma ring_items_0 [simp]: "ring_items buf h 0 = []"
  by (simp add: ring_items_def)

lemma ring_items_eq_Nil [simp]: "ring_items buf h n = [] \<longleftrightarrow> n = 0"
  by (simp add: ring_items_def)

lemma ring_items_Suc [ring_simps]:
  assumes "0 < length buf" and "h < length buf"
  shows "ring_items buf h (Suc n) = buf ! h # ring_items buf ((h + 1) mod length buf) n"
proof -
  have "[0..<Suc n] = 0 # map Suc [0..<n]"
    by (simp add: map_Suc_upt upt_conv_Cons)
  then show ?thesis
    using assms by (simp add: ring_items_def mod_simps del: upt_Suc)
qed

lemma ring_positions_differ [ring_simps]:
  assumes "i < N" and "j < N" and "i \<noteq> j"
  shows "((h::nat) + i) mod N \<noteq> (h + j) mod N"
proof
  assume eq: "(h + i) mod N = (h + j) mod N"
  have "N dvd (j - i)" if "i \<le> j"
    using mod_eq_dvd_iff_nat [of "h + i" "h + j" N] eq that by simp
  moreover have "N dvd (i - j)" if "j \<le> i"
    using mod_eq_dvd_iff_nat [of "h + j" "h + i" N] eq that by simp
  ultimately show False
    using assms by (metis dvd_imp_le diff_is_0_eq less_imp_diff_less linorder_not_le nat_le_linear
        zero_less_diff order_antisym)
qed

lemma ring_items_update_outside [ring_simps]:
  assumes "n \<le> k" and "k < length buf"
  shows "ring_items (buf[(h + k) mod length buf := x]) h n = ring_items buf h n"
  unfolding ring_items_def
proof (rule map_cong)
  fix i assume "i \<in> set [0..<n]"
  then have "(h + k) mod length buf \<noteq> (h + i) mod length buf"
    using assms by (intro ring_positions_differ) auto
  then show "buf[(h + k) mod length buf := x] ! ((h + i) mod length (buf[(h + k) mod length buf := x])) =
      buf ! ((h + i) mod length buf)" by simp
qed simp

lemma ring_items_snoc [ring_simps]:
  assumes "n < length buf"
  shows "ring_items (buf[(h + n) mod length buf := x]) h (Suc n) = ring_items buf h n @ [x]"
proof -
  have "ring_items (buf[(h + n) mod length buf := x]) h (Suc n) =
      ring_items (buf[(h + n) mod length buf := x]) h n @ [buf[(h + n) mod length buf := x] ! ((h + n) mod length buf)]"
    by (simp add: ring_items_def)
  moreover have "(h + n) mod length buf < length buf"
    using assms by (intro mod_less_divisor) linarith
  ultimately show ?thesis
    using assms by (simp add: ring_items_update_outside)
qed

text \<open>Overwriting the slot just popped leaves the rest of the window alone.\<close>

lemma ring_items_after_pop [ring_simps]:
  assumes "h < length buf" and "n < length buf"
  shows "ring_items (buf[h := x]) ((h + 1) mod length buf) n = ring_items buf ((h + 1) mod length buf) n"
proof -
  have "((h + 1) mod length buf + (length buf - 1)) mod length buf = (h + 1 + (length buf - 1)) mod length buf"
    by (rule mod_add_left_eq)
  also have "h + 1 + (length buf - 1) = h + length buf"
    using assms by simp
  finally have "((h + 1) mod length buf + (length buf - 1)) mod length buf = h"
    using assms by simp
  then show ?thesis
    using assms ring_items_update_outside [of n "length buf - 1" buf "(h + 1) mod length buf" x] by simp
qed

lemma ring_items_mod: "ring_items buf (h mod length buf) n = ring_items buf h n"
  by (simp add: ring_items_def mod_simps)

lemma ring_items_Suc_any [ring_simps]:
  assumes "0 < length buf"
  shows "ring_items buf h (Suc n) = buf ! (h mod length buf) # ring_items buf (h + 1) n"
proof -
  have "ring_items buf h (Suc n) = ring_items buf (h mod length buf) (Suc n)"
    by (simp only: ring_items_mod)
  also have "\<dots> = buf ! (h mod length buf) # ring_items buf ((h mod length buf + 1) mod length buf) n"
    using assms by (intro ring_items_Suc) simp_all
  also have "ring_items buf ((h mod length buf + 1) mod length buf) n = ring_items buf (h + 1) n"
    by (metis ring_items_mod mod_add_left_eq)
  finally show ?thesis .
qed

lemma mod_neq_within:
  assumes "a < b" and "b < a + (n::nat)"
  shows "a mod n \<noteq> b mod n"
  using ring_positions_differ [of 0 n "b - a" a] assms by simp

text \<open>Small buffers, written out.\<close>

lemma replicate_small: "replicate 2 x = [x, x]" "replicate 3 x = [x, x, x]"
  by (simp_all add: numeral_2_eq_2 numeral_3_eq_3)

lemma upt_small: "[0..<2] = [0, 1]"
  by (simp add: numeral_2_eq_2)

section \<open>Distances in a ring\<close>

lemma ring_dist_if [ring_simps]:
  "a < n \<Longrightarrow> b < n \<Longrightarrow> ring_dist n a b = (if a \<le> b then b - a else b + n - a)"
  by (auto simp: ring_dist_def mod_if)

lemma ring_next_if: "i < n \<Longrightarrow> Suc i mod n = (if Suc i = n then 0 else Suc i)"
  by (auto simp: mod_if)

lemma ring_dist_less: "0 < n \<Longrightarrow> ring_dist n a b < n"
  by (simp add: ring_dist_def)

lemma ring_dist_eq_0: "a < n \<Longrightarrow> b < n \<Longrightarrow> ring_dist n a b = 0 \<longleftrightarrow> a = b"
  by (auto simp: ring_dist_if)

lemma ring_dist_add:
  "a < n \<Longrightarrow> b < n \<Longrightarrow> c < n \<Longrightarrow> ring_dist n a b + ring_dist n b c < n \<Longrightarrow>
    ring_dist n a c = ring_dist n a b + ring_dist n b c"
  by (auto simp: ring_dist_if split: if_splits)

lemma ring_full_iff:
  "a < n \<Longrightarrow> b < n \<Longrightarrow> (b + 1) mod n = a \<longleftrightarrow> ring_dist n a b = n - 1"
  by (auto simp: ring_dist_if ring_next_if split: if_splits)

lemma ring_dist_next_right:
  "a < n \<Longrightarrow> b < n \<Longrightarrow> ring_dist n a b + 1 < n \<Longrightarrow> ring_dist n a ((b + 1) mod n) = ring_dist n a b + 1"
  by (auto simp: ring_dist_if ring_next_if split: if_splits)

lemma ring_dist_next_left:
  "a < n \<Longrightarrow> b < n \<Longrightarrow> a \<noteq> b \<Longrightarrow> ring_dist n ((a + 1) mod n) b = ring_dist n a b - 1"
  by (auto simp: ring_dist_if ring_next_if split: if_splits)

lemma ring_dist_reach: "a < n \<Longrightarrow> b < n \<Longrightarrow> (a + ring_dist n a b) mod n = b"
  by (auto simp: ring_dist_if)

lemma ring_dist_offset: "a < n \<Longrightarrow> k < n \<Longrightarrow> ring_dist n a ((a + k) mod n) = k"
  by (auto simp: ring_dist_if mod_if)

text \<open>Ring indices of unbounded counters less than a turn apart.\<close>

lemma ring_dist_counts:
  assumes "a \<le> b" and "b < a + n"
  shows "ring_dist n (a mod n) (b mod n) = b - a"
proof -
  have "(a mod n + (b - a)) mod n = b mod n"
    using assms(1) by (metis mod_add_left_eq le_add_diff_inverse)
  then show ?thesis
    using ring_dist_offset [of "a mod n" n "b - a"] assms by simp
qed

lemma mod_eq_counts: "a \<le> b \<Longrightarrow> b < a + n \<Longrightarrow> a mod n = b mod n \<longleftrightarrow> a = (b::nat)"
  using mod_neq_within [of a b n] by (cases "a = b") auto

end
