(* ===== verification/Cache_Layout.thy ===== *)
theory Cache_Layout
  imports Cq_Prelude
begin

text \<open>
  The layout of the two lock-free classes in memory and \<^verbatim>\<open>kCacheLineSize\<close>
  (include/cq/cache_line.hpp): the members that different threads write are on different cache
  lines, for every hardware line size that the constant is a multiple of.
\<close>

section \<open>How the members of a class are placed\<close>

text \<open>
  Members are placed in the order of their declarations, each at the first address after the
  one before it that its alignment allows; \<^verbatim>\<open>alignas\<close> raises the alignment. The size of a class is
  padded to its alignment, the greatest of its members'. Both are as the language and the common
  ABIs have them.
\<close>

record member =
  mem_name :: string
  mem_size :: nat
  mem_align :: nat

definition align_up :: "nat \<Rightarrow> nat \<Rightarrow> nat" where
  "align_up a n = (n + a - 1) div a * a"

fun place :: "nat \<Rightarrow> member list \<Rightarrow> (string \<times> nat \<times> nat) list" where
  "place n [] = []"
| "place n (m # ms) =
     (let start = align_up (mem_align m) n in (mem_name m, start, mem_size m) # place (start + mem_size m) ms)"

fun class_end :: "nat \<Rightarrow> member list \<Rightarrow> nat" where
  "class_end n [] = n"
| "class_end n (m # ms) = class_end (align_up (mem_align m) n + mem_size m) ms"

definition class_align :: "member list \<Rightarrow> nat" where
  "class_align ms = Max (set (map mem_align ms))"

definition class_size :: "member list \<Rightarrow> nat" where
  "class_size ms = align_up (class_align ms) (class_end 0 ms)"

text \<open>The cache lines a member of an object at address \<open>base\<close> lies on.\<close>

definition lines_of :: "nat \<Rightarrow> nat \<Rightarrow> member list \<Rightarrow> string \<Rightarrow> nat set" where
  "lines_of line base ms name =
     (case map_of (place 0 ms) name of
        None \<Rightarrow> {}
      | Some (start, bytes) \<Rightarrow> {(base + start) div line .. (base + start + bytes - 1) div line})"

section \<open>The two classes\<close>

definition kCacheLineSize :: nat where
  "kCacheLineSize = 128"

text \<open>
  \<open>vec\<close> is \<^verbatim>\<open>sizeof(std::vector<T>)\<close>, which is three pointers in the common libraries; it does not
  matter below. A \<^verbatim>\<open>std::size_t\<close>, atomic or not, has 8 bytes, a \<^verbatim>\<open>std::atomic<bool>\<close> one.
\<close>

definition spsc_members :: "nat \<Rightarrow> member list" where
  "spsc_members vec =
     [\<lparr>mem_name = ''buffer_'', mem_size = vec, mem_align = 8\<rparr>,
      \<lparr>mem_name = ''head_'', mem_size = 8, mem_align = kCacheLineSize\<rparr>,
      \<lparr>mem_name = ''tail_cache_'', mem_size = 8, mem_align = 8\<rparr>,
      \<lparr>mem_name = ''tail_'', mem_size = 8, mem_align = kCacheLineSize\<rparr>,
      \<lparr>mem_name = ''head_cache_'', mem_size = 8, mem_align = 8\<rparr>,
      \<lparr>mem_name = ''closed_'', mem_size = 1, mem_align = kCacheLineSize\<rparr>]"

definition mpmc_members :: "nat \<Rightarrow> member list" where
  "mpmc_members vec =
     [\<lparr>mem_name = ''slots_'', mem_size = vec, mem_align = 8\<rparr>,
      \<lparr>mem_name = ''mask_'', mem_size = 8, mem_align = 8\<rparr>,
      \<lparr>mem_name = ''enqueue_pos_'', mem_size = 8, mem_align = kCacheLineSize\<rparr>,
      \<lparr>mem_name = ''dequeue_pos_'', mem_size = 8, mem_align = kCacheLineSize\<rparr>,
      \<lparr>mem_name = ''closed_'', mem_size = 1, mem_align = kCacheLineSize\<rparr>]"

section \<open>Alignment\<close>

lemma align_up_ge: "0 < a \<Longrightarrow> n \<le> align_up a n"
proof -
  assume a: "0 < a"
  have "n + a - 1 < (n + a - 1) div a * a + a"
    using mod_less_divisor [OF a, of "n + a - 1"] div_mult_mod_eq [of "n + a - 1" a] by linarith
  then show ?thesis
    using a by (simp add: align_up_def)
qed

lemma align_up_dvd: "a dvd align_up a n"
  by (simp add: align_up_def)

lemma align_up_0 [simp]: "align_up a 0 = 0"
  by (cases "a = 0") (simp_all add: align_up_def)

lemma align_up_within:
  assumes "a dvd n" and "0 < k" and "k \<le> a"
  shows "align_up a (n + k) = n + a"
proof -
  obtain q where n: "n = a * q"
    using assms(1) ..
  have "n + k + a - 1 = a * Suc q + (k - 1)"
    using assms(2) n by simp
  moreover have "(a * Suc q + (k - 1)) div a = Suc q"
    using assms(2,3) by (intro div_nat_eqI) simp_all
  ultimately show ?thesis
    by (simp add: align_up_def n)
qed

text \<open>What lies before a multiple of the line size is on an earlier line, what follows it shortly on its line.\<close>

lemma earlier_line:
  assumes "line dvd b" and "a < b"
  shows "a div line < (b::nat) div line"
  using assms by (auto elim!: dvdE simp: less_mult_imp_div_less mult.commute)

lemma lines_at:
  assumes "map_of (place 0 ms) name = Some (b + k, bytes)" and "line dvd base + b" and "0 < bytes" and "k + bytes \<le> line"
  shows "lines_of line base ms name = {(base + b) div line}"
proof -
  have same: "(base + b + j) div line = (base + b) div line" if "j < line" for j
    using assms(2) that by (auto elim!: dvdE)
  have "base + (b + k) + bytes - 1 = base + b + (k + bytes - 1)"
    using assms(3) by simp
  then show ?thesis
    using assms same [of k] same [of "k + bytes - 1"] by (simp add: lines_of_def flip: add.assoc)
qed

section \<open>Offsets of the members\<close>

lemma spsc_offsets:
  assumes "h = align_up 128 vec"
  shows "place 0 (spsc_members vec) =
    [(''buffer_'', 0, vec), (''head_'', h, 8), (''tail_cache_'', h + 8, 8), (''tail_'', h + 128, 8),
     (''head_cache_'', h + 136, 8), (''closed_'', h + 256, 1)]"
    and "class_size (spsc_members vec) = h + 384"
proof -
  have h: "128 dvd h" "8 dvd h"
    using align_up_dvd [of 128 vec] assms by (auto intro: dvd_trans)
  have h': "128 dvd h + 128" "8 dvd h + 128" "128 dvd h + 256"
    using h by (simp_all add: dvd_add)
  have "align_up 8 (8 + h) = 8 + h" "align_up 128 (16 + h) = 128 + h" "align_up 8 (136 + h) = 136 + h"
      "align_up 128 (144 + h) = 256 + h" "align_up 128 (Suc (256 + h)) = 384 + h"
    using align_up_within [of 8 h 8] align_up_within [of 128 h 16] align_up_within [of 8 "h + 128" 8]
      align_up_within [of 128 "h + 128" 16] align_up_within [of 128 "h + 256" 1] h h' by (simp_all add: add.commute)
  then show "place 0 (spsc_members vec) =
    [(''buffer_'', 0, vec), (''head_'', h, 8), (''tail_cache_'', h + 8, 8), (''tail_'', h + 128, 8),
     (''head_cache_'', h + 136, 8), (''closed_'', h + 256, 1)]"
    and "class_size (spsc_members vec) = h + 384"
    by (simp_all add: spsc_members_def kCacheLineSize_def class_size_def class_align_def Let_def add.commute [of h] flip: assms)
qed

lemma mpmc_offsets:
  assumes "m = align_up 8 vec" and "e = align_up 128 (m + 8)"
  shows "place 0 (mpmc_members vec) =
    [(''slots_'', 0, vec), (''mask_'', m, 8), (''enqueue_pos_'', e, 8), (''dequeue_pos_'', e + 128, 8),
     (''closed_'', e + 256, 1)]"
    and "class_size (mpmc_members vec) = e + 384"
proof -
  have e: "128 dvd e"
    using align_up_dvd [of 128 "m + 8"] assms(2) by simp
  have e': "128 dvd e + 128" "128 dvd e + 256"
    using e by (simp_all add: dvd_add)
  have "align_up 128 (8 + e) = 128 + e" "align_up 128 (136 + e) = 256 + e" "align_up 128 (Suc (256 + e)) = 384 + e"
    using align_up_within [of 128 e 8] align_up_within [of 128 "e + 128" 8] align_up_within [of 128 "e + 256" 1] e e'
    by (simp_all add: add.commute)
  then show "place 0 (mpmc_members vec) =
    [(''slots_'', 0, vec), (''mask_'', m, 8), (''enqueue_pos_'', e, 8), (''dequeue_pos_'', e + 128, 8),
     (''closed_'', e + 256, 1)]"
    and "class_size (mpmc_members vec) = e + 384"
    by (simp_all add: mpmc_members_def kCacheLineSize_def class_size_def class_align_def Let_def add.commute [of e]
        flip: assms)
qed

section \<open>Lines of the members\<close>

lemma spsc_lines:
  assumes "kCacheLineSize dvd base" and "line dvd kCacheLineSize" and "16 \<le> line" and x: "x = base + align_up 128 vec"
  shows "lines_of line base (spsc_members vec) ''head_'' = {x div line}"
    and "lines_of line base (spsc_members vec) ''tail_cache_'' = {x div line}"
    and "lines_of line base (spsc_members vec) ''tail_'' = {(x + 128) div line}"
    and "lines_of line base (spsc_members vec) ''head_cache_'' = {(x + 128) div line}"
    and "lines_of line base (spsc_members vec) ''closed_'' = {(x + 256) div line}"
proof -
  define h where "h = align_up 128 vec"
  have "128 dvd base" "line dvd 128" "128 dvd h"
    using assms(1,2) align_up_dvd [of 128 vec] by (simp_all add: kCacheLineSize_def h_def)
  then have L: "line dvd base + h" "line dvd base + (h + 128)" "line dvd base + (h + 256)"
    by (auto intro!: dvd_add elim: dvd_trans)
  note P = spsc_offsets(1) [OF h_def]
  show "lines_of line base (spsc_members vec) ''head_'' = {x div line}"
    using lines_at [of "spsc_members vec" "''head_''" h 0 8, OF _ L(1)] assms(3) by (simp add: P x h_def)
  show "lines_of line base (spsc_members vec) ''tail_cache_'' = {x div line}"
    using lines_at [of "spsc_members vec" "''tail_cache_''" h 8 8, OF _ L(1)] assms(3) by (simp add: P x h_def)
  show "lines_of line base (spsc_members vec) ''tail_'' = {(x + 128) div line}"
    using lines_at [of "spsc_members vec" "''tail_''" "h + 128" 0 8, OF _ L(2)] assms(3) by (simp add: P x h_def ac_simps)
  show "lines_of line base (spsc_members vec) ''head_cache_'' = {(x + 128) div line}"
    using lines_at [of "spsc_members vec" "''head_cache_''" "h + 128" 8 8, OF _ L(2)] assms(3) by (simp add: P x h_def ac_simps)
  show "lines_of line base (spsc_members vec) ''closed_'' = {(x + 256) div line}"
    using lines_at [of "spsc_members vec" "''closed_''" "h + 256" 0 1, OF _ L(3)] assms(3) by (simp add: P x h_def ac_simps)
qed

lemma mpmc_lines:
  assumes "kCacheLineSize dvd base" and "line dvd kCacheLineSize" and "16 \<le> line"
    and x: "x = base + align_up 128 (align_up 8 vec + 8)"
  shows "lines_of line base (mpmc_members vec) ''enqueue_pos_'' = {x div line}"
    and "lines_of line base (mpmc_members vec) ''dequeue_pos_'' = {(x + 128) div line}"
    and "lines_of line base (mpmc_members vec) ''closed_'' = {(x + 256) div line}"
proof -
  define e where "e = align_up 128 (align_up 8 vec + 8)"
  have "128 dvd base" "line dvd 128" "128 dvd e"
    using assms(1,2) align_up_dvd [of 128 "align_up 8 vec + 8"] by (simp_all add: kCacheLineSize_def e_def)
  then have L: "line dvd base + e" "line dvd base + (e + 128)" "line dvd base + (e + 256)"
    by (auto intro!: dvd_add elim: dvd_trans)
  note P = mpmc_offsets(1) [OF refl e_def]
  show "lines_of line base (mpmc_members vec) ''enqueue_pos_'' = {x div line}"
    using lines_at [of "mpmc_members vec" "''enqueue_pos_''" e 0 8, OF _ L(1)] assms(3) by (simp add: P x e_def)
  show "lines_of line base (mpmc_members vec) ''dequeue_pos_'' = {(x + 128) div line}"
    using lines_at [of "mpmc_members vec" "''dequeue_pos_''" "e + 128" 0 8, OF _ L(2)] assms(3) by (simp add: P x e_def ac_simps)
  show "lines_of line base (mpmc_members vec) ''closed_'' = {(x + 256) div line}"
    using lines_at [of "mpmc_members vec" "''closed_''" "e + 256" 0 1, OF _ L(3)] assms(3) by (simp add: P x e_def ac_simps)
qed

text \<open>The members in front of the first aligned one end before its line.\<close>

lemma lines_before:
  assumes "map_of (place 0 ms) name = Some (b, bytes)" and "line dvd base + h" and "b + bytes \<le> h" and "0 < bytes"
  shows "lines_of line base ms name \<subseteq> {..< (base + h) div line}"
proof -
  have "(base + b + bytes - 1) div line < (base + h) div line"
    using assms(3,4) by (intro earlier_line [OF assms(2)]) linarith
  then show ?thesis
    using assms(1) by (auto simp: lines_of_def)
qed

section \<open>No false sharing\<close>

fun apart :: "nat set list \<Rightarrow> bool" where
  "apart [] = True"
| "apart (x # xs) = (list_all (\<lambda>y. x \<inter> y = {}) xs \<and> apart xs)"

lemma apart_ascending:
  assumes "A \<subseteq> {..< x div line}" and "line dvd x" and "line dvd 128"
  shows "apart [A, {x div line}, {(x + 128) div line}, {(x + 256) div line}]"
proof -
  have "line dvd x + 128" "line dvd x + 256"
    using assms(2,3) by (auto intro!: dvd_add elim: dvd_trans)
  then have "x div line < (x + 128) div line" "(x + 128) div line < (x + 256) div line"
    by (auto intro: earlier_line)
  then show ?thesis
    using assms(1) by fastforce
qed

text \<open>
  C34. No false sharing. In an object placed as \<^verbatim>\<open>alignas\<close> demands, and for every cache line of at
  least 16 bytes whose size divides \<^verbatim>\<open>kCacheLineSize\<close> (64 and 128 among them): in \<open>SpscQueue\<close> the
  header of the buffer, the consumer's index, the producer's index and \<^verbatim>\<open>closed_\<close> are on different
  lines, while each index shares its line with the cache of the same side; in \<open>MpmcQueue\<close> the
  members that are only read, the producers' counter, the consumers' counter and \<^verbatim>\<open>closed_\<close> are on
  different lines; and both classes fill whole lines, so no neighbouring object shares one of them.
\<close>

theorem no_false_sharing:
  assumes "kCacheLineSize dvd base" and "line dvd kCacheLineSize" and "16 \<le> line" and "0 < vec"
  shows "apart (map (lines_of line base (spsc_members vec)) [''buffer_'', ''head_'', ''tail_'', ''closed_'']) \<and>
    lines_of line base (spsc_members vec) ''tail_cache_'' = lines_of line base (spsc_members vec) ''head_'' \<and>
    lines_of line base (spsc_members vec) ''head_cache_'' = lines_of line base (spsc_members vec) ''tail_'' \<and>
    apart (map (lines_of line base (mpmc_members vec)) [''slots_'', ''enqueue_pos_'', ''dequeue_pos_'', ''closed_'']) \<and>
    apart (map (lines_of line base (mpmc_members vec)) [''mask_'', ''enqueue_pos_'', ''dequeue_pos_'', ''closed_'']) \<and>
    line dvd class_size (spsc_members vec) \<and> line dvd class_size (mpmc_members vec)"
proof -
  define h m e where "h = align_up 128 vec" and "m = align_up 8 vec" and "e = align_up 128 (m + 8)"
  have al: "128 dvd base" "line dvd 128" "128 dvd h" "128 dvd e"
    using assms(1,2) align_up_dvd [of 128] by (simp_all add: kCacheLineSize_def h_def e_def)
  then have L: "line dvd base + h" "line dvd base + e" "line dvd h + 384" "line dvd e + 384"
    by (auto intro!: dvd_add elim: dvd_trans)
  have le: "vec \<le> h" "vec \<le> m" "m + 8 \<le> e"
    by (simp_all only: h_def m_def e_def align_up_ge zero_less_numeral)
  note S = spsc_lines [OF assms(1-3) refl, of vec, folded h_def]
    and M = mpmc_lines [OF assms(1-3) refl, of vec, folded m_def, folded e_def]
  note P = spsc_offsets [OF h_def] and Q = mpmc_offsets [OF m_def e_def]
  have "lines_of line base (spsc_members vec) ''buffer_'' \<subseteq> {..< (base + h) div line}"
      "lines_of line base (mpmc_members vec) ''slots_'' \<subseteq> {..< (base + e) div line}"
      "lines_of line base (mpmc_members vec) ''mask_'' \<subseteq> {..< (base + e) div line}"
    using le assms(4) lines_before [of _ "''buffer_''" 0 vec, OF _ L(1)] lines_before [of _ "''slots_''" 0 vec, OF _ L(2)]
      lines_before [of _ "''mask_''" m 8, OF _ L(2)]
    by (simp_all add: P Q)
  then show ?thesis
    using apart_ascending [OF _ L(1) al(2)] apart_ascending [OF _ L(2) al(2)] L(3,4)
    by (simp only: list.map S M P(2) Q(2) simp_thms)
qed

theorem no_false_sharing_witness:
  "apart (map (lines_of 64 1024 (spsc_members 24)) [''buffer_'', ''head_'', ''tail_'', ''closed_''])"
  using no_false_sharing [of 1024 64 24] by (simp add: kCacheLineSize_def del: list.map)

end
