(* ===== verification/Fifo_Spec.thy ===== *)
theory Fifo_Spec
  imports Cq_Prelude
begin

text \<open>
  The contract all three queues promise (README, ``The contract''), as an abstract bounded
  FIFO: a list of queued items, a fixed bound and a closed flag. \<open>bounded_fifo\<close> is the
  interface a queue implementation provides; the clients' lemmas (a sequence of calls
  behaves as on the abstract queue, the two non-blocking loops of the README terminate) are
  proved once inside it.
\<close>

section \<open>The abstract queue\<close>

record 'a fifo =
  items :: "'a list"
  bound :: nat
  shut :: bool

definition fifo_ok :: "'a fifo \<Rightarrow> bool" where
  "fifo_ok f \<longleftrightarrow> 0 < bound f \<and> length (items f) \<le> bound f"

definition fifo_full :: "'a fifo \<Rightarrow> bool" where
  "fifo_full f \<longleftrightarrow> length (items f) = bound f"

definition fifo_try_push :: "'a \<Rightarrow> 'a fifo \<Rightarrow> bool \<times> 'a fifo" where
  "fifo_try_push v f =
     (if shut f \<or> fifo_full f then (False, f) else (True, f\<lparr>items := items f @ [v]\<rparr>))"

definition fifo_try_pop :: "'a \<Rightarrow> 'a fifo \<Rightarrow> (bool \<times> 'a) \<times> 'a fifo" where
  "fifo_try_pop out f =
     (case items f of [] \<Rightarrow> ((False, out), f) | x # xs \<Rightarrow> ((True, x), f\<lparr>items := xs\<rparr>))"

definition fifo_close :: "'a fifo \<Rightarrow> 'a fifo" where
  "fifo_close f = f\<lparr>shut := True\<rparr>"

datatype 'a call = Try_push 'a | Try_pop 'a | Close | Is_closed | Get_size | Get_capacity

datatype 'a reply = Flag bool | Got bool 'a | Unit | Num nat

fun fifo_call :: "'a call \<Rightarrow> 'a fifo \<Rightarrow> 'a reply \<times> 'a fifo" where
  "fifo_call (Try_push v) f = (let (b, f') = fifo_try_push v f in (Flag b, f'))"
| "fifo_call (Try_pop out) f = (let ((b, x), f') = fifo_try_pop out f in (Got b x, f'))"
| "fifo_call Close f = (Unit, fifo_close f)"
| "fifo_call Is_closed f = (Flag (shut f), f)"
| "fifo_call Get_size f = (Num (length (items f)), f)"
| "fifo_call Get_capacity f = (Num (bound f), f)"

fun fifo_run :: "'a call list \<Rightarrow> 'a fifo \<Rightarrow> 'a reply list \<times> 'a fifo" where
  "fifo_run [] f = ([], f)"
| "fifo_run (c # cs) f =
     (let (r, f') = fifo_call c f; (rs, f'') = fifo_run cs f' in (r # rs, f''))"

text \<open>The values a run of calls put in, and the values it took out.\<close>

fun accepted :: "'a call list \<Rightarrow> 'a reply list \<Rightarrow> 'a list" where
  "accepted (Try_push v # cs) (Flag True # rs) = v # accepted cs rs"
| "accepted (c # cs) (r # rs) = accepted cs rs"
| "accepted _ _ = []"

fun delivered :: "'a reply list \<Rightarrow> 'a list" where
  "delivered [] = []"
| "delivered (Got True x # rs) = x # delivered rs"
| "delivered (r # rs) = delivered rs"

fun pushes :: "'a call list \<Rightarrow> nat" where
  "pushes [] = 0"
| "pushes (Try_push v # cs) = Suc (pushes cs)"
| "pushes (c # cs) = pushes cs"

section \<open>Laws of the abstract queue\<close>

lemmas fifo_defs = fifo_try_push_def fifo_try_pop_def fifo_close_def fifo_full_def fifo_ok_def

lemma fifo_call_ok: "fifo_ok f \<Longrightarrow> fifo_ok (snd (fifo_call c f))"
  by (cases c) (auto simp: fifo_defs Let_def split: list.splits)

lemma fifo_call_bound: "bound (snd (fifo_call c f)) = bound f"
  by (cases c) (auto simp: fifo_defs Let_def split: list.splits)

lemma fifo_call_shut: "shut f \<Longrightarrow> shut (snd (fifo_call c f))"
  by (cases c) (auto simp: fifo_defs Let_def split: list.splits)

lemma fifo_run_Cons:
  "fifo_run (c # cs) f =
     (fst (fifo_call c f) # fst (fifo_run cs (snd (fifo_call c f))),
      snd (fifo_run cs (snd (fifo_call c f))))"
  by (simp add: Let_def split: prod.splits)

declare fifo_run.simps(2) [simp del]

lemma fifo_run_snoc:
  "fifo_run cs f = (rs, g) \<Longrightarrow> fifo_call c g = (r, h) \<Longrightarrow> fifo_run (cs @ [c]) f = (rs @ [r], h)"
proof (induction cs arbitrary: f rs)
  case (Cons a cs)
  then have "fifo_run cs (snd (fifo_call a f)) = (tl rs, g)" "rs = fst (fifo_call a f) # tl rs"
    by (auto simp: fifo_run_Cons)
  with Cons.IH [OF this(1) Cons.prems(2)] show ?case
    by (simp add: fifo_run_Cons)
qed (simp add: fifo_run_Cons)

lemma fifo_run_ok: "fifo_ok f \<Longrightarrow> fifo_ok (snd (fifo_run cs f))"
  by (induction cs arbitrary: f) (simp_all add: fifo_run_Cons fifo_call_ok)

lemma fifo_run_bound: "bound (snd (fifo_run cs f)) = bound f"
  by (induction cs arbitrary: f) (simp_all add: fifo_run_Cons fifo_call_bound)

lemma fifo_run_conserves:
  "items f @ accepted cs (fst (fifo_run cs f)) =
     delivered (fst (fifo_run cs f)) @ items (snd (fifo_run cs f))"
proof (induction cs arbitrary: f)
  case Nil
  then show ?case by simp
next
  case (Cons c cs)
  show ?case
    using Cons.IH [of "snd (fifo_call c f)"]
    by (cases c) (auto simp: fifo_run_Cons fifo_defs Let_def split: list.splits)
qed

lemma fifo_run_shut: "shut f \<Longrightarrow> accepted cs (fst (fifo_run cs f)) = []"
proof (induction cs arbitrary: f)
  case Nil
  then show ?case by simp
next
  case (Cons c cs)
  then have "accepted cs (fst (fifo_run cs (snd (fifo_call c f)))) = []"
    by (intro Cons.IH fifo_call_shut)
  then show ?case
    using Cons.prems by (cases c) (auto simp: fifo_run_Cons fifo_defs Let_def)
qed

section \<open>The interface of a queue\<close>

text \<open>
  The members every queue class has, as one bundle of functions, so that client code is
  written once over it. \<open>op_try_pop\<close> takes the value of the caller's \<^verbatim>\<open>out\<close> and
  returns it beside the queue.
\<close>

record ('q, 'a) queue_ops =
  op_try_push :: "'a \<Rightarrow> 'q \<Rightarrow> ('q, bool) outcome"
  op_try_pop :: "'a \<Rightarrow> 'q \<Rightarrow> ('q \<times> 'a, bool) outcome"
  op_close :: "'q \<Rightarrow> 'q"
  op_closed :: "'q \<Rightarrow> bool"
  op_size :: "'q \<Rightarrow> usize"
  op_capacity :: "'q \<Rightarrow> usize"

fun do_call :: "('q, 'a) queue_ops \<Rightarrow> 'a call \<Rightarrow> 'q \<Rightarrow> ('a reply \<times> 'q) option" where
  "do_call ops (Try_push v) q =
     (case op_try_push ops v q of Done b q' \<Rightarrow> Some (Flag b, q') | _ \<Rightarrow> None)"
| "do_call ops (Try_pop out) q =
     (case op_try_pop ops out q of Done b (q', x) \<Rightarrow> Some (Got b x, q') | _ \<Rightarrow> None)"
| "do_call ops Close q = Some (Unit, op_close ops q)"
| "do_call ops Is_closed q = Some (Flag (op_closed ops q), q)"
| "do_call ops Get_size q = Some (Num (unat (op_size ops q)), q)"
| "do_call ops Get_capacity q = Some (Num (unat (op_capacity ops q)), q)"

fun run_calls :: "('q, 'a) queue_ops \<Rightarrow> 'a call list \<Rightarrow> 'q \<Rightarrow> ('a reply list \<times> 'q) option" where
  "run_calls ops [] q = Some ([], q)"
| "run_calls ops (c # cs) q =
     (case do_call ops c q of
        None \<Rightarrow> None
      | Some (r, q') \<Rightarrow>
          (case run_calls ops cs q' of None \<Rightarrow> None | Some (rs, q'') \<Rightarrow> Some (r # rs, q'')))"

lemma run_calls_append:
  assumes "run_calls ops cs q = Some (rs, q')" and "run_calls ops ds q' = Some (rs', q'')"
  shows "run_calls ops (cs @ ds) q = Some (rs @ rs', q'')"
  using assms
  by (induction cs arbitrary: q rs) (auto split: option.splits)

text \<open>
  The consumer loop the README gives for non-blocking use: on a failed \<^verbatim>\<open>try_pop\<close> it
  looks at \<^verbatim>\<open>closed()\<close>, retries while the queue is open, and after observing the close
  stops only when one more attempt fails. \<open>n\<close> bounds the number of passes; the used items
  are collected in order.
\<close>

fun drain_loop ::
  "('q, 'a) queue_ops \<Rightarrow> nat \<Rightarrow> 'a \<Rightarrow> 'a list \<Rightarrow> 'q \<Rightarrow> ('q, 'a list) outcome" where
  "drain_loop ops 0 item used q = Waiting q"
| "drain_loop ops (Suc n) item used q =
     (case op_try_pop ops item q of
        Done True (q', item') \<Rightarrow> drain_loop ops n item' (used @ [item']) q'
      | Done False (q', item') \<Rightarrow>
          if \<not> op_closed ops q' then drain_loop ops n item' used q'
          else
            (case op_try_pop ops item' q' of
               Done True (q'', item'') \<Rightarrow> drain_loop ops n item'' (used @ [item'']) q''
             | Done False (q'', item'') \<Rightarrow> Done used q''
             | Raised e (q'', _) \<Rightarrow> Raised e q''
             | Crash \<Rightarrow> Crash
             | Waiting (q'', _) \<Rightarrow> Waiting q'')
      | Raised e (q', _) \<Rightarrow> Raised e q'
      | Crash \<Rightarrow> Crash
      | Waiting (q', _) \<Rightarrow> Waiting q')"

text \<open>
  The producer loop of the README: the value is made afresh on every pass; the loop ends
  when a push succeeds or the queue is seen closed.
\<close>

fun offer_loop :: "('q, 'a) queue_ops \<Rightarrow> nat \<Rightarrow> 'a \<Rightarrow> 'q \<Rightarrow> ('q, bool) outcome" where
  "offer_loop ops 0 v q = Waiting q"
| "offer_loop ops (Suc n) v q =
     (case op_try_push ops v q of
        Done True q' \<Rightarrow> Done True q'
      | Done False q' \<Rightarrow> if op_closed ops q' then Done False q' else offer_loop ops n v q'
      | Raised e q' \<Rightarrow> Raised e q'
      | Crash \<Rightarrow> Crash
      | Waiting q' \<Rightarrow> Waiting q')"

text \<open>
  \<open>wf n q\<close>: the representation invariant, with room for at least \<open>n\<close> further pushes
  before a counter of the implementation would outlive its width (only \<open>MpmcQueue\<close> has
  such a counter). \<open>view q\<close>: the abstract queue that \<open>q\<close> represents.
\<close>

locale bounded_fifo =
  fixes ops :: "('q, 'a) queue_ops"
    and wf :: "nat \<Rightarrow> 'q \<Rightarrow> bool"
    and view :: "'q \<Rightarrow> 'a fifo"
  assumes wf_ok: "wf n q \<Longrightarrow> fifo_ok (view q)"
    and wf_less: "wf (Suc n) q \<Longrightarrow> wf n q"
    and try_push_law: "wf (Suc n) q \<Longrightarrow>
      \<exists>q'. op_try_push ops v q = Done (fst (fifo_try_push v (view q))) q' \<and>
        view q' = snd (fifo_try_push v (view q)) \<and> wf n q'"
    and try_pop_law: "wf n q \<Longrightarrow>
      \<exists>q'. op_try_pop ops out q =
          Done (fst (fst (fifo_try_pop out (view q)))) (q', snd (fst (fifo_try_pop out (view q)))) \<and>
        view q' = snd (fifo_try_pop out (view q)) \<and> wf n q'"
    and close_law: "wf n q \<Longrightarrow> view (op_close ops q) = fifo_close (view q) \<and> wf n (op_close ops q)"
    and closed_law: "wf n q \<Longrightarrow> op_closed ops q = shut (view q)"
    and size_law: "wf n q \<Longrightarrow> unat (op_size ops q) = length (items (view q))"
    and capacity_law: "wf n q \<Longrightarrow> unat (op_capacity ops q) = bound (view q)"
begin

lemma do_call_refines:
  assumes "wf (n + pushes [c]) q"
  shows "\<exists>q'. do_call ops c q = Some (fst (fifo_call c (view q)), q') \<and>
    view q' = snd (fifo_call c (view q)) \<and> wf n q'"
proof (cases c)
  case (Try_push v)
  with assms try_push_law [of n q v] show ?thesis by (auto simp: Let_def split: prod.splits)
next
  case (Try_pop out)
  with assms try_pop_law [of n q out] show ?thesis by (auto simp: Let_def split: prod.splits)
next
  case Close
  with assms close_law [of n q] show ?thesis by simp
next
  case Is_closed
  with assms closed_law [of n q] show ?thesis by simp
next
  case Get_size
  with assms size_law [of n q] show ?thesis by simp
next
  case Get_capacity
  with assms capacity_law [of n q] show ?thesis by simp
qed

lemma run_refines:
  "wf (n + pushes cs) q \<Longrightarrow>
    \<exists>q'. run_calls ops cs q = Some (fst (fifo_run cs (view q)), q') \<and>
      view q' = snd (fifo_run cs (view q)) \<and> wf n q'"
proof (induction cs arbitrary: q)
  case Nil
  then show ?case by simp
next
  case (Cons c cs)
  have "wf ((n + pushes cs) + pushes [c]) q"
    using Cons.prems by (cases c) (simp_all add: add_ac)
  then obtain q1 where q1: "do_call ops c q = Some (fst (fifo_call c (view q)), q1)"
      "view q1 = snd (fifo_call c (view q))" "wf (n + pushes cs) q1"
    using do_call_refines by blast
  then show ?case
    using Cons.IH [OF q1(3)] by (auto simp: fifo_run_Cons)
qed

text \<open>Nothing accepted is dropped, duplicated or reordered.\<close>

lemma run_conserves:
  assumes "wf (n + pushes cs) q" and "run_calls ops cs q = Some (rs, q')"
  shows "items (view q) @ accepted cs rs = delivered rs @ items (view q')"
  using run_refines [OF assms(1)] assms(2) fifo_run_conserves [of "view q" cs] by auto

lemma run_bounded:
  assumes "wf (n + pushes cs) q" and "run_calls ops cs q = Some (rs, q')"
  shows "length (items (view q')) \<le> bound (view q)"
  using run_refines [OF assms(1)] assms(2) fifo_run_ok [of "view q" cs] wf_ok [OF assms(1)]
  by (auto simp: fifo_ok_def fifo_run_bound)

lemma run_closed:
  assumes "wf (n + pushes cs) q" and "run_calls ops cs q = Some (rs, q')" and "op_closed ops q"
  shows "accepted cs rs = []"
  using run_refines [OF assms(1)] assms(2,3) fifo_run_shut [of "view q" cs] closed_law [OF assms(1)]
  by auto

lemma run_summary:
  assumes "wf (n + pushes cs) q"
  shows "\<exists>rs q'. run_calls ops cs q = Some (rs, q') \<and>
    items (view q) @ accepted cs rs = delivered rs @ items (view q') \<and>
    length (items (view q')) \<le> bound (view q) \<and>
    (op_closed ops q \<longrightarrow> accepted cs rs = [])"
  using run_refines [OF assms] run_conserves [OF assms] run_bounded [OF assms] run_closed [OF assms] by metis

lemma drain_closed:
  "wf n q \<Longrightarrow> shut (view q) \<Longrightarrow> length (items (view q)) < k \<Longrightarrow>
    \<exists>q'. drain_loop ops k item used q = Done (used @ items (view q)) q' \<and>
      items (view q') = [] \<and> wf n q'"
proof (induction k arbitrary: q item used)
  case 0
  then show ?case by simp
next
  case (Suc k)
  show ?case
  proof (cases "items (view q)")
    case Nil
    obtain q1 where q1: "op_try_pop ops item q = Done False (q1, item)" "view q1 = view q" "wf n q1"
      using try_pop_law [OF Suc.prems(1), of item] Nil by (auto simp: fifo_try_pop_def)
    obtain q2 where "op_try_pop ops item q1 = Done False (q2, item)" "view q2 = view q" "wf n q2"
      using try_pop_law [OF q1(3), of item] Nil q1(2) by (auto simp: fifo_try_pop_def)
    then show ?thesis
      using q1 Nil Suc.prems(2) closed_law [OF q1(3)] by auto
  next
    case (Cons x xs)
    obtain q1 where q1: "op_try_pop ops item q = Done True (q1, x)"
        "view q1 = (view q)\<lparr>items := xs\<rparr>" "wf n q1"
      using try_pop_law [OF Suc.prems(1), of item] Cons by (auto simp: fifo_try_pop_def)
    then show ?thesis
      using Suc.IH [OF q1(3), of x "used @ [x]"] Suc.prems Cons by auto
  qed
qed

lemma offer_outcome:
  assumes "wf (Suc n) q" and "shut (view q) \<or> \<not> fifo_full (view q)"
  shows "map_outcome view id (offer_loop ops (Suc k) v q) = Done (\<not> shut (view q)) (snd (fifo_try_push v (view q)))"
proof -
  obtain q' where q': "op_try_push ops v q = Done (fst (fifo_try_push v (view q))) q'"
      "view q' = snd (fifo_try_push v (view q))" "wf n q'"
    using try_push_law [OF assms(1), of v] by blast
  show ?thesis
    using q' assms(2) closed_law [OF q'(3)] by (cases "shut (view q)") (simp_all add: fifo_try_push_def)
qed

end

end
