(* ===== verification/Blocking.thy ===== *)
theory Blocking
  imports Fifo_Spec
begin

text \<open>
  The blocking operations \<^verbatim>\<open>push\<close> and \<^verbatim>\<open>pop\<close> of the three queues as one interface. While a
  call waits, other threads make calls on the same queue; \<open>fifo_push\<close> and \<open>fifo_pop\<close> say
  what the waiting call then does, and \<open>blocking_fifo\<close> proves that an implementation does
  the same from two laws: what a pass does that need not wait, and that a pass that must
  wait leaves the queue as it was and starts over after the others' calls.
\<close>

section \<open>The abstract blocking calls\<close>

text \<open>\<open>css\<close> lists the calls the other threads make during each wait.\<close>

fun fifo_push :: "'a call list list \<Rightarrow> 'a \<Rightarrow> 'a fifo \<Rightarrow> ('a fifo, bool) outcome" where
  "fifo_push css v f =
     (if shut f then Done False f
      else if \<not> fifo_full f then Done True (f\<lparr>items := items f @ [v]\<rparr>)
      else (case css of [] \<Rightarrow> Waiting f | cs # css' \<Rightarrow> fifo_push css' v (snd (fifo_run cs f))))"

fun fifo_pop :: "'a call list list \<Rightarrow> 'a \<Rightarrow> 'a fifo \<Rightarrow> ('a fifo \<times> 'a, bool) outcome" where
  "fifo_pop css out f =
     (case items f of
        x # xs \<Rightarrow> Done True (f\<lparr>items := xs\<rparr>, x)
      | [] \<Rightarrow>
          if shut f then Done False (f, out)
          else (case css of [] \<Rightarrow> Waiting (f, out) | cs # css' \<Rightarrow> fifo_pop css' out (snd (fifo_run cs f))))"

declare fifo_push.simps [simp del] fifo_pop.simps [simp del]

definition meanwhile :: "('q, 'a) queue_ops \<Rightarrow> 'a call list \<Rightarrow> 'q \<Rightarrow> 'q" where
  "meanwhile ops cs q = (case run_calls ops cs q of Some (rs, q') \<Rightarrow> q' | None \<Rightarrow> q)"

section \<open>When an abstract blocking call ends\<close>

lemma fifo_run_append: "snd (fifo_run (cs @ ds) f) = snd (fifo_run ds (snd (fifo_run cs f)))"
  by (induction cs arbitrary: f) (simp_all add: fifo_run_Cons)

lemma fifo_push_waiting:
  "fifo_push css v f = Waiting f' \<Longrightarrow>
    f' = snd (fifo_run (concat css) f) \<and> \<not> shut f' \<and> fifo_full f'"
proof (induction css arbitrary: f)
  case Nil
  then show ?case by (simp add: fifo_push.simps [of "[]"] split: if_splits)
next
  case (Cons cs css)
  then show ?case
    by (simp add: fifo_push.simps [of "cs # css"] fifo_run_append split: if_splits)
qed

lemma fifo_pop_waiting:
  "fifo_pop css out f = Waiting (f', out') \<Longrightarrow>
    f' = snd (fifo_run (concat css) f) \<and> out' = out \<and> \<not> shut f' \<and> items f' = []"
proof (induction css arbitrary: f)
  case Nil
  then show ?case by (simp add: fifo_pop.simps [of "[]"] split: if_splits list.splits)
next
  case (Cons cs css)
  then show ?case
    by (simp add: fifo_pop.simps [of "cs # css"] fifo_run_append split: if_splits list.splits)
qed

lemma fifo_push_returns: "fifo_push css v f \<noteq> Raised e g \<and> fifo_push css v f \<noteq> Crash"
proof (induction css arbitrary: f)
  case Nil
  then show ?case by (simp add: fifo_push.simps [of "[]"])
next
  case (Cons cs css)
  then show ?case by (simp add: fifo_push.simps [of "cs # css"])
qed

lemma fifo_pop_returns: "fifo_pop css out f \<noteq> Raised e g \<and> fifo_pop css out f \<noteq> Crash"
proof (induction css arbitrary: f)
  case Nil
  then show ?case by (simp add: fifo_pop.simps [of "[]"] split: list.splits)
next
  case (Cons cs css)
  then show ?case by (simp add: fifo_pop.simps [of "cs # css"] split: list.splits)
qed

lemma pushes_append: "pushes (cs @ ds) = pushes cs + pushes ds"
  by (induction cs rule: pushes.induct) simp_all

text \<open>So a call that refines the abstract one returns once the others leave it something to return with.\<close>

lemma push_returns:
  assumes "map_outcome h id r = fifo_push css v f"
    and "shut (snd (fifo_run (concat css) f)) \<or> \<not> fifo_full (snd (fifo_run (concat css) f))"
  shows "\<exists>b q. r = Done b q"
proof (cases r)
  case (Waiting s)
  then have "fifo_push css v f = Waiting (h s)"
    using assms(1) by simp
  from fifo_push_waiting [OF this] assms(2) show ?thesis by auto
qed (use assms fifo_push_returns [of css v f] in \<open>auto dest: sym\<close>)

lemma pop_returns:
  assumes "map_outcome h id r = fifo_pop css out f"
    and "shut (snd (fifo_run (concat css) f)) \<or> items (snd (fifo_run (concat css) f)) \<noteq> []"
  shows "\<exists>b s. r = Done b s"
proof (cases r)
  case (Waiting s)
  then have "fifo_pop css out f = Waiting (fst (h s), snd (h s))"
    using assms(1) by simp
  from fifo_pop_waiting [OF this] assms(2) show ?thesis by auto
next
  case (Raised e s)
  then have "fifo_pop css out f = Raised e (h s)"
    using assms(1) by simp
  then show ?thesis using fifo_pop_returns [of css out f e "h s"] by simp
qed (use assms fifo_pop_returns [of css out f] in \<open>auto dest: sym\<close>)

section \<open>The interface\<close>

text \<open>
  \<open>push_at k\<close> is a push that has waited \<open>k\<close> times already. \<open>push_peer\<close> and \<open>pop_peer\<close> say
  which calls the other threads may make while a push (a pop) waits.
\<close>

locale blocking_fifo = bounded_fifo ops wf view
  for ops :: "('q, 'a) queue_ops" and wf :: "nat \<Rightarrow> 'q \<Rightarrow> bool" and view :: "'q \<Rightarrow> 'a fifo" +
  fixes push_at :: "nat \<Rightarrow> 'a call list list \<Rightarrow> 'a \<Rightarrow> 'q \<Rightarrow> ('q, bool) outcome"
    and pop_at :: "nat \<Rightarrow> 'a call list list \<Rightarrow> 'a \<Rightarrow> 'q \<Rightarrow> ('q \<times> 'a, bool) outcome"
    and push_peer :: "'a call \<Rightarrow> bool" and pop_peer :: "'a call \<Rightarrow> bool"
  assumes push_shut: "wf (Suc n) q \<Longrightarrow> shut (view q) \<Longrightarrow>
      \<exists>q'. push_at k css v q = Done False q' \<and> view q' = view q \<and> wf n q'"
    and push_room: "wf (Suc n) q \<Longrightarrow> \<not> shut (view q) \<Longrightarrow> \<not> fifo_full (view q) \<Longrightarrow>
      \<exists>q'. push_at k css v q = Done True q' \<and> view q' = (view q)\<lparr>items := items (view q) @ [v]\<rparr> \<and> wf n q'"
    and push_wait: "wf (Suc n) q \<Longrightarrow> \<not> shut (view q) \<Longrightarrow> fifo_full (view q) \<Longrightarrow>
      \<exists>q'. view q' = view q \<and> wf (Suc n) q' \<and> push_at k [] v q = Waiting q' \<and>
        (\<forall>cs css. list_all push_peer cs \<and> pushes cs \<le> n \<longrightarrow>
           push_at k (cs # css) v q = push_at (Suc k) css v (meanwhile ops cs q'))"
    and pop_item: "wf n q \<Longrightarrow> items (view q) = x # xs \<Longrightarrow>
      \<exists>q'. pop_at k css out q = Done True (q', x) \<and> view q' = (view q)\<lparr>items := xs\<rparr> \<and> wf n q'"
    and pop_shut: "wf n q \<Longrightarrow> items (view q) = [] \<Longrightarrow> shut (view q) \<Longrightarrow>
      \<exists>q'. pop_at k css out q = Done False (q', out) \<and> view q' = view q \<and> wf n q'"
    and pop_wait: "wf n q \<Longrightarrow> items (view q) = [] \<Longrightarrow> \<not> shut (view q) \<Longrightarrow>
      \<exists>q'. view q' = view q \<and> wf n q' \<and> pop_at k [] out q = Waiting (q', out) \<and>
        (\<forall>cs css. list_all pop_peer cs \<and> pushes cs \<le> n \<longrightarrow>
           pop_at k (cs # css) out q = pop_at (Suc k) css out (meanwhile ops cs q'))"
begin

lemma meanwhile_view:
  assumes "wf (n + pushes cs) q"
  shows "view (meanwhile ops cs q) = snd (fifo_run cs (view q))" and "wf n (meanwhile ops cs q)"
  using run_refines [OF assms] by (auto simp: meanwhile_def)

lemma wf_drop: "wf (n + m) q \<Longrightarrow> wf n q"
  by (induction m) (auto dest: wf_less)

lemma push_refines:
  assumes "wf (n + pushes (concat css) + 1) q" and "list_all push_peer (concat css)"
  shows "map_outcome view id (push_at k css v q) = fifo_push css v (view q) \<and>
    (\<forall>q' \<in> set1_outcome (push_at k css v q). wf n q')"
  using assms
proof (induction css arbitrary: k q)
  case Nil
  then show ?case
    using push_shut [of n q k "[]" v] push_room [of n q k "[]" v] push_wait [of n q k v] wf_less
    by (cases "shut (view q)"; cases "fifo_full (view q)") (auto simp: fifo_push.simps [of "[]"])
next
  case (Cons cs css)
  let ?m = "n + pushes (concat css)"
  have wf: "wf (Suc (?m + pushes cs)) q"
    using Cons.prems(1) by (simp add: pushes_append add_ac)
  have drop: "wf n q'" if "wf (?m + pushes cs) q'" for q'
    using that wf_drop [of n "pushes (concat css) + pushes cs" q'] by (simp add: add_ac)
  show ?case
  proof (cases "shut (view q) \<or> \<not> fifo_full (view q)")
    case True
    then show ?thesis
      using push_shut [OF wf, of k "cs # css" v] push_room [OF wf, of k "cs # css" v] drop
      by (cases "shut (view q)") (auto simp: fifo_push.simps [of "cs # css"])
  next
    case False
    obtain q' where q': "view q' = view q" "wf (Suc (?m + pushes cs)) q'"
        "push_at k (cs # css) v q = push_at (Suc k) css v (meanwhile ops cs q')"
      using push_wait [OF wf, of k v] False Cons.prems(2) by auto
    note M = meanwhile_view [of "Suc ?m" cs q']
    show ?thesis
      using Cons.IH [of "meanwhile ops cs q'" "Suc k"] M q' False Cons.prems(2)
      by (simp add: fifo_push.simps [of "cs # css"])
  qed
qed

lemma pop_at_once:
  assumes "wf n q" and "\<not> (items (view q) = [] \<and> \<not> shut (view q))"
  shows "map_outcome (map_prod view id) id (pop_at k css out q) = fifo_pop css out (view q) \<and>
    (\<forall>s \<in> set1_outcome (pop_at k css out q). wf n (fst s))"
proof (cases "items (view q)")
  case Nil
  then show ?thesis
    using pop_shut [OF assms(1) Nil, of k css out] assms(2) by (auto simp: fifo_pop.simps [of css])
next
  case (Cons x xs)
  then show ?thesis
    using pop_item [OF assms(1) Cons, of k css out] by (auto simp: fifo_pop.simps [of css])
qed

lemma pop_refines:
  assumes "wf (n + pushes (concat css)) q" and "list_all pop_peer (concat css)"
  shows "map_outcome (map_prod view id) id (pop_at k css out q) = fifo_pop css out (view q) \<and>
    (\<forall>s \<in> set1_outcome (pop_at k css out q). wf n (fst s))"
  using assms
proof (induction css arbitrary: k q)
  case Nil
  then have wf: "wf n q" by simp
  show ?case
  proof (cases "items (view q) = [] \<and> \<not> shut (view q)")
    case True
    then show ?thesis
      using pop_wait [OF wf, of k out] by (auto simp: fifo_pop.simps [of "[]"])
  qed (use pop_at_once [OF wf] in blast)
next
  case (Cons cs css)
  let ?m = "n + pushes (concat css)"
  have wf: "wf (?m + pushes cs) q"
    using Cons.prems(1) by (simp add: pushes_append add_ac)
  have drop: "wf n q'" if "wf (?m + pushes cs) q'" for q'
    using that wf_drop [of n "pushes (concat css) + pushes cs" q'] by (simp add: add_ac)
  show ?case
  proof (cases "items (view q) = [] \<and> \<not> shut (view q)")
    case False
    then show ?thesis
      using pop_at_once [OF wf, of k "cs # css" out] drop by blast
  next
    case True
    obtain q' where q': "view q' = view q" "wf (?m + pushes cs) q'"
        "pop_at k (cs # css) out q = pop_at (Suc k) css out (meanwhile ops cs q')"
      using pop_wait [OF wf, of k out] True Cons.prems(2) by auto
    note M = meanwhile_view [OF q'(2)]
    show ?thesis
      using Cons.IH [of "meanwhile ops cs q'" "Suc k"] M q' True Cons.prems(2)
      by (simp add: fifo_pop.simps [of "cs # css"])
  qed
qed

end

end
