(* ===== verification/Mutex_Queue.thy ===== *)
theory Mutex_Queue
  imports Blocking
begin

text \<open>
  \<open>MutexQueue\<close> (include/cq/mutex_queue.hpp, .ipp): the ring guarded by one mutex, with the
  condition variables \<^verbatim>\<open>not_full_\<close> and \<^verbatim>\<open>not_empty_\<close>. Every public operation is one
  critical section, so it is a function of the queue's state; where it waits on a condition
  variable it takes the list of what the other threads do between its wake-ups.
  Notifications are logged in \<open>mq_signals\<close>, in the order they are issued.
\<close>

section \<open>State\<close>

datatype signal = Notify_one_not_empty | Notify_one_not_full | Notify_all_not_full | Notify_all_not_empty

record 'a mutex_queue =
  mq_buffer :: "'a list"
  mq_head :: usize
  mq_tail :: usize
  mq_size :: usize
  mq_closed :: bool
  mq_signals :: "signal list"

definition mutex_new :: "nat \<Rightarrow> 'a \<Rightarrow> usize \<Rightarrow> exn + 'a mutex_queue" where
  "mutex_new sz dflt capacity =
     (case vector_new sz dflt capacity of
        Inl e \<Rightarrow> Inl e
      | Inr buf \<Rightarrow>
          if capacity = 0 then Inl Invalid_argument
          else Inr \<lparr>mq_buffer = buf, mq_head = 0, mq_tail = 0, mq_size = 0,
                    mq_closed = False, mq_signals = []\<rparr>)"

section \<open>Private helpers\<close>

definition mutex_next :: "'a mutex_queue \<Rightarrow> usize \<Rightarrow> usize" where
  "mutex_next q index = (if index + 1 = vector_size (mq_buffer q) then 0 else index + 1)"

definition not_full_or_closed_locked :: "'a mutex_queue \<Rightarrow> bool" where
  "not_full_or_closed_locked q \<longleftrightarrow> mq_closed q \<or> mq_size q < vector_size (mq_buffer q)"

definition not_empty_or_closed_locked :: "'a mutex_queue \<Rightarrow> bool" where
  "not_empty_or_closed_locked q \<longleftrightarrow> mq_closed q \<or> 0 < mq_size q"

definition enqueue_locked :: "'a move \<Rightarrow> 'a \<Rightarrow> 'a mutex_queue \<Rightarrow> ('a mutex_queue, unit) outcome" where
  "enqueue_locked mv value q =
     (let i = unat (mq_tail q) in
      if length (mq_buffer q) \<le> i then Crash
      else
        (case mv (mq_buffer q ! i) value of
           Move_threw d s \<Rightarrow> Raised Move_assignment_failed (q\<lparr>mq_buffer := (mq_buffer q)[i := d]\<rparr>)
         | Moved d s \<Rightarrow>
             Done () (q\<lparr>mq_buffer := (mq_buffer q)[i := d],
                        mq_tail := mutex_next q (mq_tail q),
                        mq_size := mq_size q + 1\<rparr>)))"

definition dequeue_locked ::
  "'a move \<Rightarrow> 'a \<Rightarrow> 'a mutex_queue \<Rightarrow> ('a mutex_queue \<times> 'a, unit) outcome" where
  "dequeue_locked mv out q =
     (let i = unat (mq_head q) in
      if length (mq_buffer q) \<le> i then Crash
      else
        (case mv out (mq_buffer q ! i) of
           Move_threw d s \<Rightarrow> Raised Move_assignment_failed (q\<lparr>mq_buffer := (mq_buffer q)[i := s]\<rparr>, d)
         | Moved d s \<Rightarrow>
             Done () (q\<lparr>mq_buffer := (mq_buffer q)[i := s],
                        mq_head := mutex_next q (mq_head q),
                        mq_size := mq_size q - 1\<rparr>, d)))"

definition mutex_notify :: "signal \<Rightarrow> 'a mutex_queue \<Rightarrow> 'a mutex_queue" where
  "mutex_notify s q = q\<lparr>mq_signals := mq_signals q @ [s]\<rparr>"

section \<open>Condition variables\<close>

text \<open>
  \<^verbatim>\<open>cv.wait(lock, pred)\<close> re-tests the predicate under the lock after every wake-up; each
  element of the schedule is what the other threads did while the lock was released.
  \<^verbatim>\<open>cv.wait_for(lock, timeout, pred)\<close> also stops at a time-out, and then returns the value the
  predicate has at that moment.
\<close>

type_synonym 'q others = "'q \<Rightarrow> 'q"

datatype 'q wakeup = Woken "'q others" | Timed_out "'q others"

fun cv_wait :: "('q \<Rightarrow> bool) \<Rightarrow> 'q others list \<Rightarrow> 'q \<Rightarrow> ('q, unit) outcome" where
  "cv_wait pred es q =
     (if pred q then Done () q
      else (case es of [] \<Rightarrow> Waiting q | e # es' \<Rightarrow> cv_wait pred es' (e q)))"

fun cv_wait_for :: "('q \<Rightarrow> bool) \<Rightarrow> 'q wakeup list \<Rightarrow> 'q \<Rightarrow> ('q, bool) outcome" where
  "cv_wait_for pred es q =
     (if pred q then Done True q
      else
        (case es of
           [] \<Rightarrow> Waiting q
         | Woken e # es' \<Rightarrow> cv_wait_for pred es' (e q)
         | Timed_out e # es' \<Rightarrow> Done (pred (e q)) (e q)))"

declare cv_wait.simps [simp del] cv_wait_for.simps [simp del]

section \<open>Public operations\<close>

text \<open>The common tail of the push and of the pop variants: the queue operation, then the signal.\<close>

definition finish_push :: "('a mutex_queue, unit) outcome \<Rightarrow> ('a mutex_queue, bool) outcome" where
  "finish_push r =
     (case r of
        Done _ q \<Rightarrow> Done True (mutex_notify Notify_one_not_empty q)
      | Raised e q \<Rightarrow> Raised e q
      | Crash \<Rightarrow> Crash
      | Waiting q \<Rightarrow> Waiting q)"

definition finish_pop ::
  "('a mutex_queue \<times> 'a, unit) outcome \<Rightarrow> ('a mutex_queue \<times> 'a, bool) outcome" where
  "finish_pop r =
     (case r of
        Done _ (q, out) \<Rightarrow> Done True (mutex_notify Notify_one_not_full q, out)
      | Raised e s \<Rightarrow> Raised e s
      | Crash \<Rightarrow> Crash
      | Waiting s \<Rightarrow> Waiting s)"

definition mutex_push ::
  "'a mutex_queue others list \<Rightarrow> 'a move \<Rightarrow> 'a \<Rightarrow> 'a mutex_queue \<Rightarrow> ('a mutex_queue, bool) outcome" where
  "mutex_push es mv value q =
     (case cv_wait not_full_or_closed_locked es q of
        Done _ q' \<Rightarrow>
          if mq_closed q' then Done False q'
          else finish_push (enqueue_locked mv value q')
      | Raised e q' \<Rightarrow> Raised e q'
      | Crash \<Rightarrow> Crash
      | Waiting q' \<Rightarrow> Waiting q')"

definition mutex_try_push ::
  "'a move \<Rightarrow> 'a \<Rightarrow> 'a mutex_queue \<Rightarrow> ('a mutex_queue, bool) outcome" where
  "mutex_try_push mv value q =
     (if mq_closed q \<or> mq_size q = vector_size (mq_buffer q) then Done False q
      else finish_push (enqueue_locked mv value q))"

definition mutex_pop ::
  "'a mutex_queue others list \<Rightarrow> 'a move \<Rightarrow> 'a \<Rightarrow> 'a mutex_queue \<Rightarrow>
     ('a mutex_queue \<times> 'a, bool) outcome" where
  "mutex_pop es mv out q =
     (case cv_wait not_empty_or_closed_locked es q of
        Done _ q' \<Rightarrow>
          if mq_size q' = 0 then Done False (q', out)
          else finish_pop (dequeue_locked mv out q')
      | Raised e q' \<Rightarrow> Raised e (q', out)
      | Crash \<Rightarrow> Crash
      | Waiting q' \<Rightarrow> Waiting (q', out))"

definition mutex_try_pop ::
  "'a move \<Rightarrow> 'a \<Rightarrow> 'a mutex_queue \<Rightarrow> ('a mutex_queue \<times> 'a, bool) outcome" where
  "mutex_try_pop mv out q =
     (if mq_size q = 0 then Done False (q, out)
      else finish_pop (dequeue_locked mv out q))"

definition mutex_try_push_for ::
  "'a mutex_queue wakeup list \<Rightarrow> 'a move \<Rightarrow> 'a \<Rightarrow> 'a mutex_queue \<Rightarrow> ('a mutex_queue, bool) outcome" where
  "mutex_try_push_for es mv value q =
     (case cv_wait_for not_full_or_closed_locked es q of
        Done ok q' \<Rightarrow>
          if \<not> ok then Done False q'
          else if mq_closed q' then Done False q'
          else finish_push (enqueue_locked mv value q')
      | Raised e q' \<Rightarrow> Raised e q'
      | Crash \<Rightarrow> Crash
      | Waiting q' \<Rightarrow> Waiting q')"

definition mutex_try_pop_for ::
  "'a mutex_queue wakeup list \<Rightarrow> 'a move \<Rightarrow> 'a \<Rightarrow> 'a mutex_queue \<Rightarrow>
     ('a mutex_queue \<times> 'a, bool) outcome" where
  "mutex_try_pop_for es mv out q =
     (case cv_wait_for not_empty_or_closed_locked es q of
        Done ok q' \<Rightarrow>
          if \<not> ok then Done False (q', out)
          else if mq_size q' = 0 then Done False (q', out)
          else finish_pop (dequeue_locked mv out q')
      | Raised e q' \<Rightarrow> Raised e (q', out)
      | Crash \<Rightarrow> Crash
      | Waiting q' \<Rightarrow> Waiting (q', out))"

definition mutex_close :: "'a mutex_queue \<Rightarrow> 'a mutex_queue" where
  "mutex_close q =
     (if mq_closed q then q
      else mutex_notify Notify_all_not_empty
             (mutex_notify Notify_all_not_full (q\<lparr>mq_closed := True\<rparr>)))"

definition mutex_closed :: "'a mutex_queue \<Rightarrow> bool" where
  "mutex_closed q = mq_closed q"

definition mutex_size :: "'a mutex_queue \<Rightarrow> usize" where
  "mutex_size q = mq_size q"

definition mutex_capacity :: "'a mutex_queue \<Rightarrow> usize" where
  "mutex_capacity q = vector_size (mq_buffer q)"

definition mutex_ops :: "'a move \<Rightarrow> ('a mutex_queue, 'a) queue_ops" where
  "mutex_ops mv =
     \<lparr>op_try_push = mutex_try_push mv, op_try_pop = mutex_try_pop mv, op_close = mutex_close,
      op_closed = mutex_closed, op_size = mutex_size, op_capacity = mutex_capacity\<rparr>"

section \<open>Representation invariant and abstraction\<close>

definition mutex_wf :: "'a mutex_queue \<Rightarrow> bool" where
  "mutex_wf q \<longleftrightarrow>
     0 < length (mq_buffer q) \<and> length (mq_buffer q) < 2 ^ 63 \<and>
     unat (mq_head q) < length (mq_buffer q) \<and>
     unat (mq_size q) \<le> length (mq_buffer q) \<and>
     unat (mq_tail q) = (unat (mq_head q) + unat (mq_size q)) mod length (mq_buffer q)"

definition mutex_view :: "'a mutex_queue \<Rightarrow> 'a fifo" where
  "mutex_view q =
     \<lparr>items = ring_items (mq_buffer q) (unat (mq_head q)) (unat (mq_size q)),
      bound = length (mq_buffer q), shut = mq_closed q\<rparr>"

lemma mutex_view_sel [simp]:
  "items (mutex_view q) = ring_items (mq_buffer q) (unat (mq_head q)) (unat (mq_size q))"
  "bound (mutex_view q) = length (mq_buffer q)"
  "shut (mutex_view q) = mq_closed q"
  by (simp_all add: mutex_view_def)

lemma mutex_wf_tail: "mutex_wf q \<Longrightarrow> unat (mq_tail q) < length (mq_buffer q)"
  by (simp add: mutex_wf_def)

lemma mutex_wf_notify [simp]: "mutex_wf (mutex_notify s q) = mutex_wf q"
  by (simp add: mutex_wf_def mutex_notify_def)

lemma mutex_view_notify [simp]: "mutex_view (mutex_notify s q) = mutex_view q"
  by (simp add: mutex_view_def mutex_notify_def)

lemma mutex_signals_notify [simp]: "mq_signals (mutex_notify s q) = mq_signals q @ [s]"
  by (simp add: mutex_notify_def)

lemma unat_mutex_next:
  assumes "mutex_wf q" and "unat i < length (mq_buffer q)"
  shows "unat (mutex_next q i) = (unat i + 1) mod length (mq_buffer q)"
  using assms unat_ring_next [of i "length (mq_buffer q)"]
  by (simp add: mutex_next_def vector_size_def mutex_wf_def)

lemma mutex_full_iff: "mutex_wf q \<Longrightarrow> mq_size q = vector_size (mq_buffer q) \<longleftrightarrow> fifo_full (mutex_view q)"
  using unat_vector_size [of "mq_buffer q"]
  by (auto simp: mutex_wf_def fifo_full_def word_unat_eq_iff)

lemma mutex_room_iff: "mutex_wf q \<Longrightarrow> mq_size q < vector_size (mq_buffer q) \<longleftrightarrow> \<not> fifo_full (mutex_view q)"
  using unat_vector_size [of "mq_buffer q"]
  by (auto simp: mutex_wf_def fifo_full_def word_less_nat_alt)

lemma mutex_empty_iff: "mq_size q = 0 \<longleftrightarrow> items (mutex_view q) = []"
  by (simp add: unat_eq_zero)

section \<open>Construction\<close>

lemma mutex_new_wf:
  assumes "mutex_new sz dflt capacity = Inr q" and "0 < sz"
  shows "mutex_wf q" and "mutex_view q = \<lparr>items = [], bound = unat capacity, shut = False\<rparr>"
    and "capacity \<noteq> 0" and "unat capacity \<le> vector_max_size sz"
proof -
  obtain buf where buf: "vector_new sz dflt capacity = Inr buf" and c: "capacity \<noteq> 0"
      and q: "q = \<lparr>mq_buffer = buf, mq_head = 0, mq_tail = 0, mq_size = 0, mq_closed = False, mq_signals = []\<rparr>"
    using assms(1) by (auto simp: mutex_new_def split: sum.splits if_splits)
  note B = vector_new_Inr [OF buf]
  have "unat capacity * 1 \<le> unat capacity * sz"
    using assms(2) by (intro mult_le_mono2) simp
  then have "unat capacity < 2 ^ 63"
    using vector_max_size_less [OF assms(2) B(2)] by linarith
  then show "mutex_wf q"
    using c by (simp add: q B(1) mutex_wf_def unat_gt_0)
  show "mutex_view q = \<lparr>items = [], bound = unat capacity, shut = False\<rparr>"
    by (simp add: q B(1) mutex_view_def)
  show "capacity \<noteq> 0" "unat capacity \<le> vector_max_size sz"
    by (rule c, rule B)
qed

section \<open>The two critical sections\<close>

lemma mutex_enqueue_view:
  fixes q :: "'a mutex_queue" and v :: 'a
  assumes "mutex_wf q" and "\<not> fifo_full (mutex_view q)"
  defines "q' \<equiv> q\<lparr>mq_buffer := (mq_buffer q)[unat (mq_tail q) := v],
                   mq_tail := mutex_next q (mq_tail q), mq_size := mq_size q + 1\<rparr>"
  shows "mutex_wf q'" and "mutex_view q' = (mutex_view q)\<lparr>items := items (mutex_view q) @ [v]\<rparr>"
proof -
  let ?N = "length (mq_buffer q)" and ?h = "unat (mq_head q)" and ?n = "unat (mq_size q)"
  have n: "?n < ?N" and N: "?N < 2 ^ 63"
    using assms(1,2) by (auto simp: mutex_wf_def fifo_full_def)
  have sz: "unat (mq_size q + 1) = Suc ?n"
    using n N unat_succ [of "mq_size q"] by simp
  have t: "unat (mq_tail q) = (?h + ?n) mod ?N"
    using assms(1) by (simp add: mutex_wf_def)
  have "unat (mutex_next q (mq_tail q)) = (?h + Suc ?n) mod ?N"
    using unat_mutex_next [OF assms(1) mutex_wf_tail [OF assms(1)]] t by (simp add: mod_simps)
  then show "mutex_wf q'"
    using assms(1) n sz by (simp add: q'_def mutex_wf_def)
  show "mutex_view q' = (mutex_view q)\<lparr>items := items (mutex_view q) @ [v]\<rparr>"
    using ring_items_snoc [OF n, of ?h v] sz t by (simp add: q'_def mutex_view_def)
qed

lemma mutex_dequeue_view:
  fixes q :: "'a mutex_queue" and s :: 'a
  assumes "mutex_wf q" and "items (mutex_view q) = x # xs"
  defines "q' \<equiv> q\<lparr>mq_buffer := (mq_buffer q)[unat (mq_head q) := s],
                   mq_head := mutex_next q (mq_head q), mq_size := mq_size q - 1\<rparr>"
  shows "mq_buffer q ! unat (mq_head q) = x"
    and "mutex_wf q'" and "mutex_view q' = (mutex_view q)\<lparr>items := xs\<rparr>"
proof -
  let ?N = "length (mq_buffer q)" and ?h = "unat (mq_head q)"
  have h: "?h < ?N" and N: "0 < ?N"
    using assms(1) by (auto simp: mutex_wf_def)
  obtain n where n: "unat (mq_size q) = Suc n"
    using assms(2) by (cases "unat (mq_size q)") auto
  have sz: "unat (mq_size q - 1) = n"
    using n by (simp add: unat_sub_if')
  have nN: "n < ?N"
    using n assms(1) by (simp add: mutex_wf_def)
  have eq: "x # xs = mq_buffer q ! ?h # ring_items (mq_buffer q) ((?h + 1) mod ?N) n"
    using ring_items_Suc [OF N h, of n] n assms(2) by simp
  then show "mq_buffer q ! ?h = x" by simp
  have nx: "unat (mutex_next q (mq_head q)) = (?h + 1) mod ?N"
    by (rule unat_mutex_next [OF assms(1) h])
  have "(?h + Suc n) mod ?N = ((?h + 1) mod ?N + n) mod ?N"
    by (simp add: mod_simps)
  then show "mutex_wf q'"
    using assms(1) n sz nx N by (simp add: q'_def mutex_wf_def)
  show "mutex_view q' = (mutex_view q)\<lparr>items := xs\<rparr>"
    using ring_items_after_pop [OF h nN, of s] sz nx eq by (simp add: q'_def mutex_view_def)
qed

section \<open>Operations on every branch\<close>

lemma mutex_enqueue_outcome:
  assumes "mutex_wf q"
  shows "enqueue_locked mv v q =
    (case mv (mq_buffer q ! unat (mq_tail q)) v of
       Move_threw d s \<Rightarrow>
         Raised Move_assignment_failed (q\<lparr>mq_buffer := (mq_buffer q)[unat (mq_tail q) := d]\<rparr>)
     | Moved d s \<Rightarrow>
         Done () (q\<lparr>mq_buffer := (mq_buffer q)[unat (mq_tail q) := d],
                    mq_tail := mutex_next q (mq_tail q), mq_size := mq_size q + 1\<rparr>))"
  using mutex_wf_tail [OF assms] by (simp add: enqueue_locked_def Let_def)

lemma mutex_dequeue_outcome:
  assumes "mutex_wf q"
  shows "dequeue_locked mv out q =
    (case mv out (mq_buffer q ! unat (mq_head q)) of
       Move_threw d s \<Rightarrow>
         Raised Move_assignment_failed (q\<lparr>mq_buffer := (mq_buffer q)[unat (mq_head q) := s]\<rparr>, d)
     | Moved d s \<Rightarrow>
         Done () (q\<lparr>mq_buffer := (mq_buffer q)[unat (mq_head q) := s],
                    mq_head := mutex_next q (mq_head q), mq_size := mq_size q - 1\<rparr>, d))"
  using assms by (simp add: dequeue_locked_def Let_def mutex_wf_def)

text \<open>A throwing push writes one slot outside the window of queued items.\<close>

lemma mutex_enqueue_throw_view:
  fixes q :: "'a mutex_queue" and d :: 'a
  assumes "mutex_wf q" and "\<not> fifo_full (mutex_view q)"
  defines "q' \<equiv> q\<lparr>mq_buffer := (mq_buffer q)[unat (mq_tail q) := d]\<rparr>"
  shows "mutex_wf q'" and "mutex_view q' = mutex_view q"
proof -
  show "mutex_wf q'"
    using assms(1) by (simp add: q'_def mutex_wf_def)
  have "unat (mq_size q) < length (mq_buffer q)"
    using assms(1,2) by (auto simp: mutex_wf_def fifo_full_def)
  then show "mutex_view q' = mutex_view q"
    using assms(1) ring_items_update_outside [OF order_refl, of "unat (mq_size q)" "mq_buffer q" "unat (mq_head q)" d]
    by (simp add: q'_def mutex_view_def mutex_wf_def)
qed

text \<open>A throwing pop overwrites the front element and nothing else.\<close>

lemma mutex_dequeue_throw_view:
  fixes q :: "'a mutex_queue" and s :: 'a
  assumes "mutex_wf q" and "items (mutex_view q) = x # xs"
  defines "q' \<equiv> q\<lparr>mq_buffer := (mq_buffer q)[unat (mq_head q) := s]\<rparr>"
  shows "mutex_wf q'" and "mutex_view q' = (mutex_view q)\<lparr>items := s # xs\<rparr>"
proof -
  let ?N = "length (mq_buffer q)" and ?h = "unat (mq_head q)"
  show "mutex_wf q'"
    using assms(1) by (simp add: q'_def mutex_wf_def)
  have h: "?h < ?N" and N: "0 < ?N"
    using assms(1) by (auto simp: mutex_wf_def)
  obtain n where n: "unat (mq_size q) = Suc n"
    using assms(2) by (cases "unat (mq_size q)") auto
  have nN: "n < ?N"
    using n assms(1) by (simp add: mutex_wf_def)
  have "xs = ring_items (mq_buffer q) ((?h + 1) mod ?N) n"
    using ring_items_Suc [OF N h, of n] n assms(2) by simp
  then show "mutex_view q' = (mutex_view q)\<lparr>items := s # xs\<rparr>"
    using ring_items_Suc [of "(mq_buffer q)[?h := s]" ?h n] ring_items_after_pop [OF h nN, of s] n N h
    by (simp add: q'_def mutex_view_def)
qed

text \<open>
  What one push attempt that found room does, and what one pop attempt that found an item
  does, for every outcome of the element's move assignment.
\<close>

lemma mutex_finish_push:
  assumes "mutex_wf q" and "\<not> fifo_full (mutex_view q)" and "move_assignable mv"
  shows "(\<exists>q'. finish_push (enqueue_locked mv v q) = Done True q' \<and> mutex_wf q' \<and>
            mutex_view q' = (mutex_view q)\<lparr>items := items (mutex_view q) @ [v]\<rparr> \<and>
            mq_signals q' = mq_signals q @ [Notify_one_not_empty]) \<or>
         (\<exists>d s q'. mv (mq_buffer q ! unat (mq_tail q)) v = Move_threw d s \<and>
            finish_push (enqueue_locked mv v q) = Raised Move_assignment_failed q' \<and>
            mutex_wf q' \<and> mutex_view q' = mutex_view q \<and> mq_signals q' = mq_signals q)"
proof (cases "mv (mq_buffer q ! unat (mq_tail q)) v")
  case (Moved d s)
  then have "d = v" by (rule move_assignable.transfers [OF assms(3)])
  with Moved mutex_enqueue_view [OF assms(1,2), of v] show ?thesis
    by (simp add: mutex_enqueue_outcome [OF assms(1)] finish_push_def)
next
  case (Move_threw d s)
  with mutex_enqueue_throw_view [OF assms(1,2), of d] show ?thesis
    by (simp add: mutex_enqueue_outcome [OF assms(1)] finish_push_def)
qed

lemma mutex_finish_pop:
  assumes "mutex_wf q" and "items (mutex_view q) = x # xs" and "move_assignable mv"
  shows "(\<exists>q'. finish_pop (dequeue_locked mv out q) = Done True (q', x) \<and> mutex_wf q' \<and>
            mutex_view q' = (mutex_view q)\<lparr>items := xs\<rparr> \<and>
            mq_signals q' = mq_signals q @ [Notify_one_not_full]) \<or>
         (\<exists>d s q'. mv out x = Move_threw d s \<and>
            finish_pop (dequeue_locked mv out q) = Raised Move_assignment_failed (q', d) \<and>
            mutex_wf q' \<and> mutex_view q' = (mutex_view q)\<lparr>items := s # xs\<rparr> \<and>
            mq_signals q' = mq_signals q)"
proof (cases "mv out x")
  case (Moved d s)
  then have "d = x" by (rule move_assignable.transfers [OF assms(3)])
  with Moved mutex_dequeue_view(1) [OF assms(1,2)] mutex_dequeue_view(2,3) [OF assms(1,2), where s = s]
  show ?thesis
    by (simp add: mutex_dequeue_outcome [OF assms(1)] finish_pop_def)
next
  case (Move_threw d s)
  with mutex_dequeue_view(1) [OF assms(1,2)] mutex_dequeue_throw_view [OF assms(1,2), of s] show ?thesis
    by (simp add: mutex_dequeue_outcome [OF assms(1)] finish_pop_def)
qed

section \<open>MutexQueue provides the contract\<close>

lemma mutex_view_ok: "mutex_wf q \<Longrightarrow> fifo_ok (mutex_view q)"
  by (simp add: mutex_wf_def fifo_ok_def)

context nothrow_move_assignable
begin

lemma mutex_push_room:
  assumes "mutex_wf q" and "\<not> fifo_full (mutex_view q)"
  shows "\<exists>q'. finish_push (enqueue_locked mv v q) = Done True q' \<and> mutex_wf q' \<and>
            mutex_view q' = (mutex_view q)\<lparr>items := items (mutex_view q) @ [v]\<rparr> \<and>
            mq_signals q' = mq_signals q @ [Notify_one_not_empty]"
  using mutex_finish_push [OF assms move_assignable_axioms] noexcept by blast

lemma mutex_pop_item:
  assumes "mutex_wf q" and "items (mutex_view q) = x # xs"
  shows "\<exists>q'. finish_pop (dequeue_locked mv out q) = Done True (q', x) \<and> mutex_wf q' \<and>
            mutex_view q' = (mutex_view q)\<lparr>items := xs\<rparr> \<and>
            mq_signals q' = mq_signals q @ [Notify_one_not_full]"
  using mutex_finish_pop [OF assms move_assignable_axioms] noexcept by blast

lemma mutex_try_push_refines:
  assumes "mutex_wf q"
  shows "\<exists>q'. mutex_try_push mv v q = Done (fst (fifo_try_push v (mutex_view q))) q' \<and>
    mutex_view q' = snd (fifo_try_push v (mutex_view q)) \<and> mutex_wf q'"
  using assms mutex_push_room [OF assms, of v] mutex_full_iff [OF assms]
  by (auto simp: mutex_try_push_def fifo_try_push_def)

lemma mutex_try_pop_refines:
  assumes "mutex_wf q"
  shows "\<exists>q'. mutex_try_pop mv out q =
      Done (fst (fst (fifo_try_pop out (mutex_view q)))) (q', snd (fst (fifo_try_pop out (mutex_view q)))) \<and>
    mutex_view q' = snd (fifo_try_pop out (mutex_view q)) \<and> mutex_wf q'"
proof (cases "items (mutex_view q)")
  case Nil
  then have "mq_size q = 0" by (simp only: mutex_empty_iff)
  with Nil assms show ?thesis
    by (auto simp: mutex_try_pop_def fifo_try_pop_def)
next
  case (Cons x xs)
  then have "mq_size q \<noteq> 0" by (simp only: mutex_empty_iff) simp
  with Cons mutex_pop_item [OF assms Cons, of out] show ?thesis
    by (auto simp: mutex_try_pop_def fifo_try_pop_def)
qed

end

lemma mutex_close_view: "mutex_view (mutex_close q) = fifo_close (mutex_view q)"
  by (auto simp: mutex_close_def mutex_view_def fifo_close_def mutex_notify_def)

lemma mutex_close_wf [simp]: "mutex_wf (mutex_close q) = mutex_wf q"
  by (simp add: mutex_close_def mutex_wf_def mutex_notify_def)

sublocale nothrow_move_assignable \<subseteq> mutex: bounded_fifo "mutex_ops mv" "\<lambda>_. mutex_wf" mutex_view
proof unfold_locales
  fix n :: nat and q :: "'a mutex_queue" and v out :: 'a
  assume wf: "mutex_wf q"
  show "fifo_ok (mutex_view q)"
    by (rule mutex_view_ok [OF wf])
  show "\<exists>q'. op_try_push (mutex_ops mv) v q = Done (fst (fifo_try_push v (mutex_view q))) q' \<and>
      mutex_view q' = snd (fifo_try_push v (mutex_view q)) \<and> mutex_wf q'"
    using mutex_try_push_refines [OF wf] by (simp add: mutex_ops_def)
  show "\<exists>q'. op_try_pop (mutex_ops mv) out q =
        Done (fst (fst (fifo_try_pop out (mutex_view q)))) (q', snd (fst (fifo_try_pop out (mutex_view q)))) \<and>
      mutex_view q' = snd (fifo_try_pop out (mutex_view q)) \<and> mutex_wf q'"
    using mutex_try_pop_refines [OF wf] by (simp add: mutex_ops_def)
  show "mutex_view (op_close (mutex_ops mv) q) = fifo_close (mutex_view q) \<and>
      mutex_wf (op_close (mutex_ops mv) q)"
    using wf by (simp add: mutex_ops_def mutex_close_view)
  show "op_closed (mutex_ops mv) q = shut (mutex_view q)"
    by (simp add: mutex_ops_def mutex_closed_def)
  show "unat (op_size (mutex_ops mv) q) = length (items (mutex_view q))"
    by (simp add: mutex_ops_def mutex_size_def)
  show "unat (op_capacity (mutex_ops mv) q) = bound (mutex_view q)"
    using wf unat_vector_size [of "mq_buffer q"] by (simp add: mutex_ops_def mutex_capacity_def mutex_wf_def)
qed

text \<open>What the interface gives every client of this queue.\<close>

context nothrow_move_assignable
begin

lemmas mutex_run_refines = mutex.run_refines
lemmas mutex_bounded_fifo = mutex.bounded_fifo_axioms
lemmas mutex_drain_closed = mutex.drain_closed
lemmas mutex_offer_outcome = mutex.offer_outcome

end

section \<open>MutexQueue provides the blocking calls\<close>

text \<open>The schedule of a waiting call when the other threads make the calls \<open>css\<close>, one list per wake-up.\<close>

definition mutex_others :: "'a move \<Rightarrow> 'a call list list \<Rightarrow> 'a mutex_queue others list" where
  "mutex_others mv css = map (meanwhile (mutex_ops mv)) css"

lemma not_full_or_closed_iff:
  "mutex_wf q \<Longrightarrow> not_full_or_closed_locked q \<longleftrightarrow> shut (mutex_view q) \<or> \<not> fifo_full (mutex_view q)"
  by (simp add: not_full_or_closed_locked_def mutex_room_iff)

lemma not_empty_or_closed_iff:
  "not_empty_or_closed_locked q \<longleftrightarrow> shut (mutex_view q) \<or> items (mutex_view q) \<noteq> []"
  by (simp add: not_empty_or_closed_locked_def unat_gt_0 word_neq_0_conv)

lemma mutex_push_step:
  "mutex_push es mv v q =
     (if not_full_or_closed_locked q then
        (if mq_closed q then Done False q else finish_push (enqueue_locked mv v q))
      else (case es of [] \<Rightarrow> Waiting q | e # es' \<Rightarrow> mutex_push es' mv v (e q)))"
  by (simp add: mutex_push_def cv_wait.simps [of _ es q] split: list.splits)

lemma mutex_pop_step:
  "mutex_pop es mv out q =
     (if not_empty_or_closed_locked q then
        (if mq_size q = 0 then Done False (q, out) else finish_pop (dequeue_locked mv out q))
      else (case es of [] \<Rightarrow> Waiting (q, out) | e # es' \<Rightarrow> mutex_pop es' mv out (e q)))"
  by (simp add: mutex_pop_def cv_wait.simps [of _ es q] split: list.splits)

text \<open>The timed variants, one wake-up at a time, and the non-blocking ones through the same predicates.\<close>

lemma mutex_try_push_for_step:
  "mutex_try_push_for es mv v q =
     (if not_full_or_closed_locked q then
        (if mq_closed q then Done False q else finish_push (enqueue_locked mv v q))
      else
        (case es of
           [] \<Rightarrow> Waiting q
         | Woken e # es' \<Rightarrow> mutex_try_push_for es' mv v (e q)
         | Timed_out e # es' \<Rightarrow>
             if \<not> not_full_or_closed_locked (e q) then Done False (e q)
             else if mq_closed (e q) then Done False (e q)
             else finish_push (enqueue_locked mv v (e q))))"
  by (simp add: mutex_try_push_for_def cv_wait_for.simps [of _ es q] split: list.splits wakeup.splits)

lemma mutex_try_pop_for_step:
  "mutex_try_pop_for es mv out q =
     (if not_empty_or_closed_locked q then
        (if mq_size q = 0 then Done False (q, out) else finish_pop (dequeue_locked mv out q))
      else
        (case es of
           [] \<Rightarrow> Waiting (q, out)
         | Woken e # es' \<Rightarrow> mutex_try_pop_for es' mv out (e q)
         | Timed_out e # es' \<Rightarrow>
             if \<not> not_empty_or_closed_locked (e q) then Done False (e q, out)
             else if mq_size (e q) = 0 then Done False (e q, out)
             else finish_pop (dequeue_locked mv out (e q))))"
  by (simp add: mutex_try_pop_for_def cv_wait_for.simps [of _ es q] split: list.splits wakeup.splits)

lemma mutex_try_push_pred:
  "mutex_wf q \<Longrightarrow> mutex_try_push mv v q =
     (if \<not> not_full_or_closed_locked q \<or> mq_closed q then Done False q else finish_push (enqueue_locked mv v q))"
  by (auto simp: mutex_try_push_def not_full_or_closed_locked_def mutex_full_iff mutex_room_iff)

lemma mutex_try_pop_pred:
  "mutex_try_pop mv out q =
     (if \<not> not_empty_or_closed_locked q \<or> mq_size q = 0 then Done False (q, out)
      else finish_pop (dequeue_locked mv out q))"
  by (auto simp: mutex_try_pop_def not_empty_or_closed_locked_def word_gt_0)

lemma finish_not_waiting [simp]:
  "finish_push (enqueue_locked mv v q) \<noteq> Waiting q'" "finish_pop (dequeue_locked mv out q) \<noteq> Waiting s"
  by (auto simp: finish_push_def enqueue_locked_def finish_pop_def dequeue_locked_def Let_def split: move_result.splits)

lemma outcome_case_id:
  "(\<And>s. r \<noteq> Waiting s) \<Longrightarrow>
    (case r of Done b s \<Rightarrow> Done b s | Raised e s \<Rightarrow> Raised e s | Crash \<Rightarrow> Crash | Waiting s \<Rightarrow> h s) = r"
  by (cases r) auto

sublocale nothrow_move_assignable \<subseteq> mutex_blocking: blocking_fifo "mutex_ops mv" "\<lambda>_. mutex_wf" mutex_view
  "\<lambda>_ css. mutex_push (mutex_others mv css) mv" "\<lambda>_ css. mutex_pop (mutex_others mv css) mv" "\<lambda>_. True" "\<lambda>_. True"
proof unfold_locales
  fix n k :: nat and q :: "'a mutex_queue" and v out x :: 'a and css and xs :: "'a list"
  assume wf: "mutex_wf q"
  note full = not_full_or_closed_iff [OF wf] and emp = not_empty_or_closed_iff [of q]
  have shut: "shut (mutex_view q) = mq_closed q"
    by simp
  show "\<exists>q'. mutex_push (mutex_others mv css) mv v q = Done False q' \<and> mutex_view q' = mutex_view q \<and> mutex_wf q'"
    if "shut (mutex_view q)"
    using that wf full by (simp add: mutex_push_step [of _ mv v q])
  show "\<exists>q'. mutex_push (mutex_others mv css) mv v q = Done True q' \<and>
      mutex_view q' = (mutex_view q)\<lparr>items := items (mutex_view q) @ [v]\<rparr> \<and> mutex_wf q'"
    if "\<not> shut (mutex_view q)" "\<not> fifo_full (mutex_view q)"
    using that mutex_push_room [OF wf that(2), of v] full shut
    by (auto simp: mutex_push_step [of _ mv v q] simp del: mutex_view_sel)
  show "\<exists>q'. mutex_view q' = mutex_view q \<and> mutex_wf q' \<and> mutex_push (mutex_others mv []) mv v q = Waiting q' \<and>
      (\<forall>cs css. list_all (\<lambda>_. True) cs \<and> pushes cs \<le> n \<longrightarrow>
        mutex_push (mutex_others mv (cs # css)) mv v q = mutex_push (mutex_others mv css) mv v (meanwhile (mutex_ops mv) cs q'))"
    if "\<not> shut (mutex_view q)" "fifo_full (mutex_view q)"
    using that wf full by (intro exI [of _ q]) (simp add: mutex_push_step [of _ mv v q] mutex_others_def del: mutex_view_sel)
  show "\<exists>q'. mutex_pop (mutex_others mv css) mv out q = Done True (q', x) \<and>
      mutex_view q' = (mutex_view q)\<lparr>items := xs\<rparr> \<and> mutex_wf q'" if its: "items (mutex_view q) = x # xs"
  proof -
    have "mq_size q \<noteq> 0"
      using its mutex_empty_iff [of q] by (simp del: mutex_view_sel)
    then show ?thesis
      using mutex_pop_item [OF wf its, of out] emp its by (auto simp: mutex_pop_step [of _ mv out q] simp del: mutex_view_sel)
  qed
  show "\<exists>q'. mutex_pop (mutex_others mv css) mv out q = Done False (q', out) \<and> mutex_view q' = mutex_view q \<and> mutex_wf q'"
    if "items (mutex_view q) = []" "shut (mutex_view q)"
    using that wf emp mutex_empty_iff [of q] by (simp add: mutex_pop_step [of _ mv out q] del: mutex_view_sel)
  show "\<exists>q'. mutex_view q' = mutex_view q \<and> mutex_wf q' \<and> mutex_pop (mutex_others mv []) mv out q = Waiting (q', out) \<and>
      (\<forall>cs css. list_all (\<lambda>_. True) cs \<and> pushes cs \<le> n \<longrightarrow>
        mutex_pop (mutex_others mv (cs # css)) mv out q = mutex_pop (mutex_others mv css) mv out (meanwhile (mutex_ops mv) cs q'))"
    if "items (mutex_view q) = []" "\<not> shut (mutex_view q)"
    using that wf emp by (intro exI [of _ q]) (simp add: mutex_pop_step [of _ mv out q] mutex_others_def del: mutex_view_sel)
qed

context nothrow_move_assignable
begin

lemmas mutex_push_refines = mutex_blocking.push_refines
lemmas mutex_pop_refines = mutex_blocking.pop_refines

end

end
