(* ===== verification/Backoff.thy ===== *)
theory Backoff
  imports Cq_Prelude
begin

text \<open>
  The wait policy of a blocked side (include/cq/backoff.hpp): the first
  \<^verbatim>\<open>kSpinsBeforeSleep\<close> calls of \<^verbatim>\<open>wait()\<close> yield, every later one sleeps, and the
  duration doubles up to \<^verbatim>\<open>kMaxSleep\<close>. Durations are microseconds.
\<close>

section \<open>State and operation\<close>

definition kSpinsBeforeSleep :: int where
  "kSpinsBeforeSleep = 64"

definition kInitialSleep :: int where
  "kInitialSleep = 4"

definition kMaxSleep :: int where
  "kMaxSleep = 1000"

text \<open>What a call of \<^verbatim>\<open>wait()\<close> does to the calling thread.\<close>

datatype pause = Yield | Sleep_for int

record backoff =
  spins :: int
  delay :: int

definition backoff_new :: backoff where
  "backoff_new = \<lparr>spins = 0, delay = kInitialSleep\<rparr>"

definition backoff_wait :: "backoff \<Rightarrow> pause \<times> backoff" where
  "backoff_wait b =
     (if spins b < kSpinsBeforeSleep then (Yield, b\<lparr>spins := spins b + 1\<rparr>)
      else (Sleep_for (delay b), b\<lparr>delay := min (delay b * 2) kMaxSleep\<rparr>))"

fun backoff_waits :: "nat \<Rightarrow> backoff \<Rightarrow> pause list \<times> backoff" where
  "backoff_waits 0 b = ([], b)"
| "backoff_waits (Suc n) b =
     (let (p, b') = backoff_wait b; (ps, b'') = backoff_waits n b' in (p # ps, b''))"

section \<open>The schedule in closed form\<close>

text \<open>The pause of the \<open>k\<close>-th wait of a fresh object, and the object after \<open>k\<close> waits.\<close>

definition pause_at :: "nat \<Rightarrow> pause" where
  "pause_at k = (if k < 64 then Yield else Sleep_for (min (4 * 2 ^ (k - 64)) 1000))"

definition backoff_at :: "nat \<Rightarrow> backoff" where
  "backoff_at k = \<lparr>spins = int (min k 64), delay = min (4 * 2 ^ (k - 64)) 1000\<rparr>"

lemmas backoff_consts = kSpinsBeforeSleep_def kInitialSleep_def kMaxSleep_def

lemma backoff_at_0 [simp]: "backoff_at 0 = backoff_new"
  by (simp add: backoff_at_def backoff_new_def backoff_consts)

lemma min_double: "min (min a 1000 * 2) 1000 = min (a * 2) (1000::int)" if "0 \<le> a"
  using that by (auto simp: min_def)

lemma backoff_wait_at: "backoff_wait (backoff_at k) = (pause_at k, backoff_at (Suc k))"
proof (cases "k < 64")
  case True
  then show ?thesis
    by (auto simp: backoff_wait_def backoff_at_def pause_at_def backoff_consts)
next
  case False
  then have "Suc k - 64 = Suc (k - 64)" by simp
  then show ?thesis
    using False min_double [of "4 * 2 ^ (k - 64)"]
    by (simp add: backoff_wait_def backoff_at_def pause_at_def backoff_consts mult.commute)
qed

lemma backoff_waits_at: "backoff_waits n (backoff_at k) = (map pause_at [k..<k + n], backoff_at (k + n))"
proof (induction n arbitrary: k)
  case 0
  then show ?case by simp
next
  case (Suc n)
  then show ?case
    using upt_conv_Cons [of k "k + Suc n"] by (simp add: backoff_wait_at Let_def del: upt_Suc)
qed

lemma pause_at_capped: "k \<ge> 72 \<Longrightarrow> pause_at k = Sleep_for 1000"
proof -
  assume k: "72 \<le> k"
  have "(2::int) ^ 8 \<le> 2 ^ (k - 64)"
    using k by (intro power_increasing) simp_all
  then show ?thesis
    using k by (simp add: pause_at_def)
qed

text \<open>
  C39. The schedule of a blocked wait: a fresh \<^verbatim>\<open>Backoff\<close> yields for the first 64 calls of
  \<^verbatim>\<open>wait()\<close>; call number \<open>64 + j\<close> (counting from zero) sleeps \<open>4 * 2 ^ j\<close>
  microseconds, capped at 1000.
\<close>

theorem backoff_schedule:
  "fst (backoff_waits n backoff_new) =
     map (\<lambda>k. if k < 64 then Yield else Sleep_for (min (4 * 2 ^ (k - 64)) kMaxSleep)) [0..<n]"
  using backoff_waits_at [of n 0] by (simp add: pause_at_def [abs_def] backoff_consts)

end
