(* ===== verification/Spsc_Queue.thy ===== *)
theory Spsc_Queue
  imports Blocking Backoff
begin

text \<open>
  \<open>SpscQueue\<close> (include/cq/spsc_queue.hpp, .ipp): the Lamport ring with one permanently
  empty slot and, on each side, a cached copy of the other side's index. Here each
  operation runs as one function of the queue's state, an atomic load reading the current
  value; the interleaving of the two threads under release/acquire is the subject of
  Spsc_Concurrent. Where a blocking operation waits, it takes the list of what the
  other side does during each pause.
\<close>

section \<open>State\<close>

record 'a spsc_queue =
  sq_buffer :: "'a list"
  sq_head :: usize
  sq_tail_cache :: usize
  sq_tail :: usize
  sq_head_cache :: usize
  sq_closed :: bool

definition ring_slots :: "usize \<Rightarrow> exn + usize" where
  "ring_slots capacity =
     (if capacity = 0 then Inl Invalid_argument
      else if capacity = - 1 then Inl Length_error
      else Inr (capacity + 1))"

definition spsc_new :: "nat \<Rightarrow> 'a \<Rightarrow> usize \<Rightarrow> exn + 'a spsc_queue" where
  "spsc_new sz dflt capacity =
     (case ring_slots capacity of
        Inl e \<Rightarrow> Inl e
      | Inr n \<Rightarrow>
          (case vector_new sz dflt n of
             Inl e \<Rightarrow> Inl e
           | Inr buf \<Rightarrow>
               Inr \<lparr>sq_buffer = buf, sq_head = 0, sq_tail_cache = 0, sq_tail = 0,
                    sq_head_cache = 0, sq_closed = False\<rparr>))"

section \<open>Private helpers\<close>

definition spsc_next :: "'a spsc_queue \<Rightarrow> usize \<Rightarrow> usize" where
  "spsc_next q index = (if index + 1 = vector_size (sq_buffer q) then 0 else index + 1)"

definition has_room :: "usize \<Rightarrow> 'a spsc_queue \<Rightarrow> bool \<times> 'a spsc_queue" where
  "has_room slot_after q =
     (if slot_after \<noteq> sq_head_cache q then (True, q)
      else
        (let q' = q\<lparr>sq_head_cache := sq_head q\<rparr> in (slot_after \<noteq> sq_head_cache q', q')))"

definition has_data :: "usize \<Rightarrow> 'a spsc_queue \<Rightarrow> bool \<times> 'a spsc_queue" where
  "has_data head q =
     (if head \<noteq> sq_tail_cache q then (True, q)
      else
        (let q' = q\<lparr>sq_tail_cache := sq_tail q\<rparr> in (head \<noteq> sq_tail_cache q', q')))"

definition spsc_enqueue ::
  "'a move \<Rightarrow> usize \<Rightarrow> 'a \<Rightarrow> 'a spsc_queue \<Rightarrow> ('a spsc_queue, unit) outcome" where
  "spsc_enqueue mv tail value q =
     (let i = unat tail in
      if length (sq_buffer q) \<le> i then Crash
      else
        (case mv (sq_buffer q ! i) value of
           Move_threw d s \<Rightarrow> Raised Move_assignment_failed (q\<lparr>sq_buffer := (sq_buffer q)[i := d]\<rparr>)
         | Moved d s \<Rightarrow>
             Done () (q\<lparr>sq_buffer := (sq_buffer q)[i := d], sq_tail := spsc_next q tail\<rparr>)))"

definition spsc_dequeue ::
  "'a move \<Rightarrow> usize \<Rightarrow> 'a \<Rightarrow> 'a spsc_queue \<Rightarrow> ('a spsc_queue \<times> 'a, unit) outcome" where
  "spsc_dequeue mv head out q =
     (let i = unat head in
      if length (sq_buffer q) \<le> i then Crash
      else
        (case mv out (sq_buffer q ! i) of
           Move_threw d s \<Rightarrow> Raised Move_assignment_failed (q\<lparr>sq_buffer := (sq_buffer q)[i := s]\<rparr>, d)
         | Moved d s \<Rightarrow>
             Done () (q\<lparr>sq_buffer := (sq_buffer q)[i := s], sq_head := spsc_next q head\<rparr>, d)))"

section \<open>Public operations\<close>

definition returning :: "'r \<Rightarrow> ('s, unit) outcome \<Rightarrow> ('s, 'r) outcome" where
  "returning r x =
     (case x of
        Done _ s \<Rightarrow> Done r s
      | Raised e s \<Rightarrow> Raised e s
      | Crash \<Rightarrow> Crash
      | Waiting s \<Rightarrow> Waiting s)"

definition spsc_try_push ::
  "'a move \<Rightarrow> 'a \<Rightarrow> 'a spsc_queue \<Rightarrow> ('a spsc_queue, bool) outcome" where
  "spsc_try_push mv value q =
     (if sq_closed q then Done False q
      else
        (let tail = sq_tail q; (room, q') = has_room (spsc_next q tail) q in
         if \<not> room then Done False q' else returning True (spsc_enqueue mv tail value q')))"

definition spsc_try_pop ::
  "'a move \<Rightarrow> 'a \<Rightarrow> 'a spsc_queue \<Rightarrow> ('a spsc_queue \<times> 'a, bool) outcome" where
  "spsc_try_pop mv out q =
     (let head = sq_head q; (data, q') = has_data head q in
      if \<not> data then Done False (q', out) else returning True (spsc_dequeue mv head out q'))"

text \<open>What the other threads do to the queue while this one yields or sleeps.\<close>

type_synonym 'q meanwhile = "pause \<Rightarrow> 'q \<Rightarrow> 'q"

fun spsc_push_loop ::
  "'a spsc_queue meanwhile list \<Rightarrow> backoff \<Rightarrow> usize \<Rightarrow> 'a spsc_queue \<Rightarrow> ('a spsc_queue, bool) outcome" where
  "spsc_push_loop es b slot_after q =
     (if sq_closed q then Done False q
      else
        (let (room, q') = has_room slot_after q in
         if room then Done True q'
         else
           (let (p, b') = backoff_wait b in
            case es of
              [] \<Rightarrow> Waiting q'
            | e # es' \<Rightarrow> spsc_push_loop es' b' slot_after (e p q'))))"

definition spsc_push ::
  "'a spsc_queue meanwhile list \<Rightarrow> 'a move \<Rightarrow> 'a \<Rightarrow> 'a spsc_queue \<Rightarrow> ('a spsc_queue, bool) outcome" where
  "spsc_push es mv value q =
     (let tail = sq_tail q; slot_after = spsc_next q tail in
      case spsc_push_loop es backoff_new slot_after q of
        Done True q' \<Rightarrow> returning True (spsc_enqueue mv tail value q')
      | r \<Rightarrow> r)"

fun spsc_pop_loop ::
  "'a spsc_queue meanwhile list \<Rightarrow> backoff \<Rightarrow> 'a move \<Rightarrow> 'a \<Rightarrow> 'a spsc_queue \<Rightarrow>
     ('a spsc_queue \<times> 'a, bool) outcome" where
  "spsc_pop_loop es b mv out q =
     (case spsc_try_pop mv out q of
        Done False (q', out') \<Rightarrow>
          if sq_closed q' then spsc_try_pop mv out' q'
          else
            (let (p, b') = backoff_wait b in
             case es of
               [] \<Rightarrow> Waiting (q', out')
             | e # es' \<Rightarrow> spsc_pop_loop es' b' mv out' (e p q'))
      | r \<Rightarrow> r)"

definition spsc_pop ::
  "'a spsc_queue meanwhile list \<Rightarrow> 'a move \<Rightarrow> 'a \<Rightarrow> 'a spsc_queue \<Rightarrow>
     ('a spsc_queue \<times> 'a, bool) outcome" where
  "spsc_pop es mv out q = spsc_pop_loop es backoff_new mv out q"

declare spsc_push_loop.simps [simp del] spsc_pop_loop.simps [simp del]

section \<open>Bulk operations\<close>

text \<open>
  The two batch loops: \<open>k\<close> more moves are to be made, the next one with index \<open>i\<close>. A
  throwing move assignment is ruled out at compile time (\<^verbatim>\<open>static_assert\<close>); a move that
  threw in spite of its \<^verbatim>\<open>noexcept\<close> would end in \<^verbatim>\<open>std::terminate\<close>.
\<close>

definition free_slots :: "usize \<Rightarrow> 'a spsc_queue \<Rightarrow> usize" where
  "free_slots tail q =
     (sq_head_cache q + vector_size (sq_buffer q) - 1 - tail) mod vector_size (sq_buffer q)"

definition available :: "usize \<Rightarrow> 'a spsc_queue \<Rightarrow> usize" where
  "available head q = (sq_tail_cache q + vector_size (sq_buffer q) - head) mod vector_size (sq_buffer q)"

fun push_n_loop ::
  "'a move \<Rightarrow> nat \<Rightarrow> nat \<Rightarrow> usize \<Rightarrow> 'a list \<Rightarrow> 'a spsc_queue \<Rightarrow> ('a spsc_queue \<times> 'a list, usize) outcome" where
  "push_n_loop mv 0 i tail xs q = Done tail (q, xs)"
| "push_n_loop mv (Suc k) i tail xs q =
     (if length (sq_buffer q) \<le> unat tail \<or> length xs \<le> i then Crash
      else
        (case mv (sq_buffer q ! unat tail) (xs ! i) of
           Move_threw d s \<Rightarrow> Crash
         | Moved d s \<Rightarrow>
             push_n_loop mv k (Suc i) (spsc_next q tail) (xs[i := s])
               (q\<lparr>sq_buffer := (sq_buffer q)[unat tail := d]\<rparr>)))"

definition try_push_n ::
  "'a move \<Rightarrow> 'a list \<Rightarrow> 'a spsc_queue \<Rightarrow> ('a spsc_queue \<times> 'a list, usize) outcome" where
  "try_push_n mv xs q =
     (if xs = [] \<or> sq_closed q then Done 0 (q, xs)
      else
        (let tail = sq_tail q;
             q' = (if free_slots tail q = 0 then q\<lparr>sq_head_cache := sq_head q\<rparr> else q);
             count = min (vector_size xs) (free_slots tail q') in
         case push_n_loop mv (unat count) 0 tail xs q' of
           Done tail' (q'', xs') \<Rightarrow>
             Done count (if count \<noteq> 0 then q''\<lparr>sq_tail := tail'\<rparr> else q'', xs')
         | Raised e s \<Rightarrow> Raised e s
         | Crash \<Rightarrow> Crash
         | Waiting s \<Rightarrow> Waiting s))"

fun pop_n_loop ::
  "'a move \<Rightarrow> nat \<Rightarrow> nat \<Rightarrow> usize \<Rightarrow> 'a list \<Rightarrow> 'a spsc_queue \<Rightarrow> ('a spsc_queue \<times> 'a list, usize) outcome" where
  "pop_n_loop mv 0 i head out q = Done head (q, out)"
| "pop_n_loop mv (Suc k) i head out q =
     (if length (sq_buffer q) \<le> unat head \<or> length out \<le> i then Crash
      else
        (case mv (out ! i) (sq_buffer q ! unat head) of
           Move_threw d s \<Rightarrow> Crash
         | Moved d s \<Rightarrow>
             pop_n_loop mv k (Suc i) (spsc_next q head) (out[i := d])
               (q\<lparr>sq_buffer := (sq_buffer q)[unat head := s]\<rparr>)))"

definition try_pop_n ::
  "'a move \<Rightarrow> 'a list \<Rightarrow> 'a spsc_queue \<Rightarrow> ('a spsc_queue \<times> 'a list, usize) outcome" where
  "try_pop_n mv out q =
     (if out = [] then Done 0 (q, out)
      else
        (let head = sq_head q;
             q' = (if available head q = 0 then q\<lparr>sq_tail_cache := sq_tail q\<rparr> else q);
             count = min (vector_size out) (available head q') in
         case pop_n_loop mv (unat count) 0 head out q' of
           Done head' (q'', out') \<Rightarrow>
             Done count (if count \<noteq> 0 then q''\<lparr>sq_head := head'\<rparr> else q'', out')
         | Raised e s \<Rightarrow> Raised e s
         | Crash \<Rightarrow> Crash
         | Waiting s \<Rightarrow> Waiting s))"

section \<open>Shutdown and observers\<close>

definition spsc_close :: "'a spsc_queue \<Rightarrow> 'a spsc_queue" where
  "spsc_close q = q\<lparr>sq_closed := True\<rparr>"

definition spsc_closed :: "'a spsc_queue \<Rightarrow> bool" where
  "spsc_closed q = sq_closed q"

text \<open>\<^verbatim>\<open>size()\<close> loads the two indices separately; \<open>spsc_size_of\<close> is what it computes from them.\<close>

definition spsc_size_of :: "usize \<Rightarrow> usize \<Rightarrow> 'a spsc_queue \<Rightarrow> usize" where
  "spsc_size_of head tail q = (tail + vector_size (sq_buffer q) - head) mod vector_size (sq_buffer q)"

definition spsc_size :: "'a spsc_queue \<Rightarrow> usize" where
  "spsc_size q = spsc_size_of (sq_head q) (sq_tail q) q"

definition spsc_capacity :: "'a spsc_queue \<Rightarrow> usize" where
  "spsc_capacity q = vector_size (sq_buffer q) - 1"

definition spsc_ops :: "'a move \<Rightarrow> ('a spsc_queue, 'a) queue_ops" where
  "spsc_ops mv =
     \<lparr>op_try_push = spsc_try_push mv, op_try_pop = spsc_try_pop mv, op_close = spsc_close,
      op_closed = spsc_closed, op_size = spsc_size, op_capacity = spsc_capacity\<rparr>"

section \<open>Representation invariant and abstraction\<close>

text \<open>
  Going round the ring from \<^verbatim>\<open>head_cache_\<close> one meets \<^verbatim>\<open>head_\<close>, then \<^verbatim>\<open>tail_\<close>, in less than a
  full turn; \<^verbatim>\<open>tail_cache_\<close> lies between \<^verbatim>\<open>head_\<close> and \<^verbatim>\<open>tail_\<close>. This is the header's ``a cache
  lags but never runs ahead''.
\<close>

definition spsc_wf :: "'a spsc_queue \<Rightarrow> bool" where
  "spsc_wf q \<longleftrightarrow>
     (let N = length (sq_buffer q); h = unat (sq_head q); t = unat (sq_tail q);
          hc = unat (sq_head_cache q); tc = unat (sq_tail_cache q) in
      2 \<le> N \<and> N < 2 ^ 63 \<and> h < N \<and> t < N \<and> hc < N \<and> tc < N \<and>
      ring_dist N hc h + ring_dist N h t < N \<and>
      ring_dist N h tc \<le> ring_dist N h t)"

definition spsc_len :: "'a spsc_queue \<Rightarrow> nat" where
  "spsc_len q = ring_dist (length (sq_buffer q)) (unat (sq_head q)) (unat (sq_tail q))"

definition spsc_view :: "'a spsc_queue \<Rightarrow> 'a fifo" where
  "spsc_view q =
     \<lparr>items = ring_items (sq_buffer q) (unat (sq_head q)) (spsc_len q),
      bound = length (sq_buffer q) - 1, shut = sq_closed q\<rparr>"

lemma spsc_view_sel [simp]:
  "items (spsc_view q) = ring_items (sq_buffer q) (unat (sq_head q)) (spsc_len q)"
  "bound (spsc_view q) = length (sq_buffer q) - 1"
  "shut (spsc_view q) = sq_closed q"
  by (simp_all add: spsc_view_def)

lemma spsc_wfD:
  assumes "spsc_wf q"
  shows "2 \<le> length (sq_buffer q)" "length (sq_buffer q) < 2 ^ 63" "0 < length (sq_buffer q)"
    "unat (sq_head q) < length (sq_buffer q)" "unat (sq_tail q) < length (sq_buffer q)"
    "unat (sq_head_cache q) < length (sq_buffer q)" "unat (sq_tail_cache q) < length (sq_buffer q)"
    "ring_dist (length (sq_buffer q)) (unat (sq_head_cache q)) (unat (sq_head q)) + spsc_len q
       < length (sq_buffer q)"
    "ring_dist (length (sq_buffer q)) (unat (sq_head q)) (unat (sq_tail_cache q)) \<le> spsc_len q"
  using assms by (auto simp: spsc_wf_def spsc_len_def Let_def)

lemma spsc_full_iff: "spsc_wf q \<Longrightarrow> fifo_full (spsc_view q) \<longleftrightarrow> spsc_len q = length (sq_buffer q) - 1"
  by (simp add: fifo_full_def)

lemma unat_spsc_next:
  assumes "spsc_wf q" and "unat i < length (sq_buffer q)"
  shows "unat (spsc_next q i) = (unat i + 1) mod length (sq_buffer q)"
  using assms(2) spsc_wfD(2) [OF assms(1)] unat_ring_next [of i "length (sq_buffer q)"]
  by (simp add: spsc_next_def vector_size_def)

section \<open>Construction\<close>

lemma spsc_new_wf:
  assumes "spsc_new sz dflt capacity = Inr q" and "0 < sz"
  shows "spsc_wf q" and "spsc_view q = \<lparr>items = [], bound = unat capacity, shut = False\<rparr>"
    and "capacity \<noteq> 0" and "unat capacity + 1 \<le> vector_max_size sz"
    and "sq_head q = 0" "sq_tail q = 0" "sq_head_cache q = 0" "sq_tail_cache q = 0" "\<not> sq_closed q"
proof -
  obtain buf where buf: "vector_new sz dflt (capacity + 1) = Inr buf" and c: "capacity \<noteq> 0" "capacity \<noteq> - 1"
      and q: "q = \<lparr>sq_buffer = buf, sq_head = 0, sq_tail_cache = 0, sq_tail = 0, sq_head_cache = 0, sq_closed = False\<rparr>"
    using assms(1) by (auto simp: spsc_new_def ring_slots_def split: sum.splits if_splits)
  note B = vector_new_Inr [OF buf]
  have "capacity + 1 \<noteq> 0"
    using c(2) by (metis add.commute add_eq_0_iff2 add.inverse_inverse)
  then have n: "unat (capacity + 1) = unat capacity + 1"
    using unatSuc [of capacity] by (simp add: add.commute)
  have "unat (capacity + 1) * 1 \<le> unat (capacity + 1) * sz"
    using assms(2) by (intro mult_le_mono2) simp
  then have less: "unat capacity + 1 < 2 ^ 63"
    using vector_max_size_less [OF assms(2) B(2)] n by simp
  have pos: "0 < unat capacity"
    using c(1) by (simp add: unat_gt_0)
  then have N: "length (sq_buffer q) = unat capacity + 1"
    by (simp add: q B(1) n)
  show "spsc_wf q"
    using less pos N unfolding spsc_wf_def by (simp add: q Let_def ring_dist_def)
  show "spsc_view q = \<lparr>items = [], bound = unat capacity, shut = False\<rparr>"
    using N by (simp add: spsc_view_def spsc_len_def ring_dist_def) (simp add: q)
  show "capacity \<noteq> 0" "unat capacity + 1 \<le> vector_max_size sz"
    using c B(2) n by simp_all
qed (use assms in \<open>auto simp: spsc_new_def split: sum.splits\<close>)

section \<open>The cached availability checks\<close>

text \<open>
  Both checks answer exactly: the cache may be stale, but a stale cache only ever says
  ``full'' or ``empty'', and then the real index is read.
\<close>

lemma has_room_spec:
  assumes wf: "spsc_wf q"
  shows "\<exists>c. has_room (spsc_next q (sq_tail q)) q = (\<not> fifo_full (spsc_view q), q\<lparr>sq_head_cache := c\<rparr>) \<and>
    spsc_wf (q\<lparr>sq_head_cache := c\<rparr>) \<and>
    (\<not> fifo_full (spsc_view q) \<longrightarrow>
      ring_dist (length (sq_buffer q)) (unat c) (unat (sq_tail q)) < length (sq_buffer q) - 1)"
proof -
  let ?N = "length (sq_buffer q)" and ?h = "unat (sq_head q)" and ?t = "unat (sq_tail q)"
    and ?hc = "unat (sq_head_cache q)"
  note D = spsc_wfD [OF wf]
  have nx: "unat (spsc_next q (sq_tail q)) = (?t + 1) mod ?N"
    by (rule unat_spsc_next [OF wf D(5)])
  have dc: "ring_dist ?N ?hc ?t = ring_dist ?N ?hc ?h + spsc_len q"
    using ring_dist_add [OF D(6) D(4) D(5)] D(8) by (simp add: spsc_len_def)
  have full_c: "spsc_next q (sq_tail q) = sq_head_cache q \<longleftrightarrow> ring_dist ?N ?hc ?t = ?N - 1"
    using ring_full_iff [OF D(6) D(5)] nx by (simp add: word_unat_eq_iff)
  have full_h: "spsc_next q (sq_tail q) = sq_head q \<longleftrightarrow> fifo_full (spsc_view q)"
    using ring_full_iff [OF D(4) D(5)] nx spsc_full_iff [OF wf] by (simp add: word_unat_eq_iff spsc_len_def)
  have less: "ring_dist ?N ?hc ?t < ?N" "spsc_len q < ?N"
    using ring_dist_less D(3) by (auto simp: spsc_len_def)
  show ?thesis
  proof (cases "spsc_next q (sq_tail q) = sq_head_cache q")
    case True
    have "spsc_wf (q\<lparr>sq_head_cache := sq_head q\<rparr>)"
      using wf D(4) less(2) ring_dist_eq_0 [OF D(4) D(4)] by (simp add: spsc_wf_def Let_def spsc_len_def)
    moreover have "has_room (spsc_next q (sq_tail q)) q =
        (spsc_next q (sq_tail q) \<noteq> sq_head q, q\<lparr>sq_head_cache := sq_head q\<rparr>)"
      using True by (simp add: has_room_def Let_def)
    moreover have "\<not> fifo_full (spsc_view q) \<longrightarrow> ring_dist ?N ?h ?t < ?N - 1"
      using spsc_full_iff [OF wf] less(2) unfolding spsc_len_def by linarith
    ultimately show ?thesis
      using full_h by (intro exI [of _ "sq_head q"]) simp
  next
    case False
    then have "ring_dist ?N ?hc ?t < ?N - 1"
      using full_c less(1) D(1) by simp
    moreover from this have "\<not> fifo_full (spsc_view q)"
      using dc spsc_full_iff [OF wf] by simp
    ultimately show ?thesis
      using False wf by (intro exI [of _ "sq_head_cache q"]) (simp add: has_room_def)
  qed
qed

lemma has_data_spec:
  assumes wf: "spsc_wf q"
  shows "\<exists>c. has_data (sq_head q) q = (items (spsc_view q) \<noteq> [], q\<lparr>sq_tail_cache := c\<rparr>) \<and>
    spsc_wf (q\<lparr>sq_tail_cache := c\<rparr>) \<and> (items (spsc_view q) \<noteq> [] \<longrightarrow> c \<noteq> sq_head q)"
proof -
  let ?N = "length (sq_buffer q)"
  note D = spsc_wfD [OF wf]
  have empty: "sq_head q = sq_tail q \<longleftrightarrow> spsc_len q = 0"
    using ring_dist_eq_0 [OF D(4) D(5)] by (simp add: spsc_len_def word_unat_eq_iff)
  have cache: "sq_head q = sq_tail_cache q \<longleftrightarrow>
      ring_dist ?N (unat (sq_head q)) (unat (sq_tail_cache q)) = 0"
    using ring_dist_eq_0 [OF D(4) D(7)] by (simp add: word_unat_eq_iff)
  show ?thesis
  proof (cases "sq_head q = sq_tail_cache q")
    case True
    have "spsc_wf (q\<lparr>sq_tail_cache := sq_tail q\<rparr>)"
      using wf by (simp add: spsc_wf_def Let_def)
    moreover have "has_data (sq_head q) q = (sq_head q \<noteq> sq_tail q, q\<lparr>sq_tail_cache := sq_tail q\<rparr>)"
      using True by (simp add: has_data_def Let_def)
    ultimately show ?thesis
      using empty by (intro exI [of _ "sq_tail q"]) (simp add: eq_commute [of "sq_tail q"])
  next
    case False
    then have "spsc_len q \<noteq> 0"
      using cache D(9) by linarith
    then show ?thesis
      using False wf by (intro exI [of _ "sq_tail_cache q"]) (auto simp: has_data_def)
  qed
qed

section \<open>One enqueue, one dequeue\<close>

lemma spsc_enqueue_view:
  fixes q :: "'a spsc_queue" and v :: 'a
  assumes wf: "spsc_wf q"
    and room: "ring_dist (length (sq_buffer q)) (unat (sq_head_cache q)) (unat (sq_tail q))
      < length (sq_buffer q) - 1"
  defines "q' \<equiv> q\<lparr>sq_buffer := (sq_buffer q)[unat (sq_tail q) := v], sq_tail := spsc_next q (sq_tail q)\<rparr>"
  shows "spsc_wf q'" and "spsc_view q' = (spsc_view q)\<lparr>items := items (spsc_view q) @ [v]\<rparr>"
proof -
  let ?N = "length (sq_buffer q)" and ?h = "unat (sq_head q)" and ?t = "unat (sq_tail q)"
    and ?hc = "unat (sq_head_cache q)"
  note D = spsc_wfD [OF wf]
  have nx: "unat (spsc_next q (sq_tail q)) = (?t + 1) mod ?N"
    by (rule unat_spsc_next [OF wf D(5)])
  have dc: "ring_dist ?N ?hc ?t = ring_dist ?N ?hc ?h + spsc_len q"
    using ring_dist_add [OF D(6) D(4) D(5)] D(8) by (simp add: spsc_len_def)
  have len: "ring_dist ?N ?h ((?t + 1) mod ?N) = spsc_len q + 1"
    using ring_dist_next_right [OF D(4) D(5)] dc room by (simp add: spsc_len_def)
  show "spsc_wf q'"
    using wf nx len dc room D(3,9) by (simp add: q'_def spsc_wf_def Let_def spsc_len_def)
  have "?t = (?h + spsc_len q) mod ?N"
    using ring_dist_reach [OF D(4) D(5)] by (simp add: spsc_len_def)
  then show "spsc_view q' = (spsc_view q)\<lparr>items := items (spsc_view q) @ [v]\<rparr>"
    using ring_items_snoc [of "spsc_len q" "sq_buffer q" ?h v] D(8) len nx
    by (simp add: q'_def spsc_view_def spsc_len_def)
qed

lemma spsc_dequeue_view:
  fixes q :: "'a spsc_queue" and s :: 'a
  assumes wf: "spsc_wf q" and its: "items (spsc_view q) = x # xs" and data: "sq_tail_cache q \<noteq> sq_head q"
  defines "q' \<equiv> q\<lparr>sq_buffer := (sq_buffer q)[unat (sq_head q) := s], sq_head := spsc_next q (sq_head q)\<rparr>"
  shows "sq_buffer q ! unat (sq_head q) = x"
    and "spsc_wf q'" and "spsc_view q' = (spsc_view q)\<lparr>items := xs\<rparr>"
proof -
  let ?N = "length (sq_buffer q)" and ?h = "unat (sq_head q)" and ?t = "unat (sq_tail q)"
    and ?hc = "unat (sq_head_cache q)" and ?tc = "unat (sq_tail_cache q)"
  note D = spsc_wfD [OF wf]
  obtain n where n: "spsc_len q = Suc n"
    using its by (cases "spsc_len q") auto
  have eq: "x # xs = sq_buffer q ! ?h # ring_items (sq_buffer q) ((?h + 1) mod ?N) n"
    using ring_items_Suc [OF D(3) D(4), of n] n its by simp
  then show "sq_buffer q ! ?h = x" by simp
  have nx: "unat (spsc_next q (sq_head q)) = (?h + 1) mod ?N"
    by (rule unat_spsc_next [OF wf D(4)])
  have ht: "?h \<noteq> ?t"
    using n ring_dist_eq_0 [OF D(4) D(5)] by (simp add: spsc_len_def)
  have htc: "?h \<noteq> ?tc"
    using data by (auto simp: word_unat_eq_iff)
  have len: "ring_dist ?N ((?h + 1) mod ?N) ?t = n"
    using ring_dist_next_left [OF D(4) D(5) ht] n by (simp add: spsc_len_def)
  have lenc: "ring_dist ?N ((?h + 1) mod ?N) ?tc = ring_dist ?N ?h ?tc - 1"
    by (rule ring_dist_next_left [OF D(4) D(7) htc])
  have "ring_dist ?N ?hc ((?h + 1) mod ?N) = ring_dist ?N ?hc ?h + 1"
    using ring_dist_next_right [OF D(6) D(4)] D(8) n by simp
  then show "spsc_wf q'"
    using wf nx len lenc D(3,8,9) n by (simp add: q'_def spsc_wf_def Let_def)
  show "spsc_view q' = (spsc_view q)\<lparr>items := xs\<rparr>"
    using ring_items_after_pop [OF D(4), of n s] D(8) n len nx eq
    by (simp add: q'_def spsc_view_def spsc_len_def)
qed

text \<open>The same when the element's move assignment throws: the indices stay.\<close>

lemma spsc_enqueue_throw_view:
  fixes q :: "'a spsc_queue" and d :: 'a
  assumes wf: "spsc_wf q"
  defines "q' \<equiv> q\<lparr>sq_buffer := (sq_buffer q)[unat (sq_tail q) := d]\<rparr>"
  shows "spsc_wf q'" and "spsc_view q' = spsc_view q"
proof -
  note D = spsc_wfD [OF wf]
  show "spsc_wf q'"
    using wf by (simp add: q'_def spsc_wf_def)
  have "unat (sq_tail q) = (unat (sq_head q) + spsc_len q) mod length (sq_buffer q)"
    using ring_dist_reach [OF D(4) D(5)] by (simp add: spsc_len_def)
  then show "spsc_view q' = spsc_view q"
    using ring_items_update_outside [OF order_refl, of "spsc_len q" "sq_buffer q" "unat (sq_head q)" d] D(8)
    by (simp add: q'_def spsc_view_def spsc_len_def)
qed

lemma spsc_dequeue_throw_view:
  fixes q :: "'a spsc_queue" and s :: 'a
  assumes wf: "spsc_wf q" and its: "items (spsc_view q) = x # xs"
  defines "q' \<equiv> q\<lparr>sq_buffer := (sq_buffer q)[unat (sq_head q) := s]\<rparr>"
  shows "spsc_wf q'" and "spsc_view q' = (spsc_view q)\<lparr>items := s # xs\<rparr>"
proof -
  note D = spsc_wfD [OF wf]
  show "spsc_wf q'"
    using wf by (simp add: q'_def spsc_wf_def)
  obtain n where n: "spsc_len q = Suc n"
    using its by (cases "spsc_len q") auto
  have "xs = ring_items (sq_buffer q) ((unat (sq_head q) + 1) mod length (sq_buffer q)) n"
    using ring_items_Suc [OF D(3) D(4), of n] n its by simp
  then show "spsc_view q' = (spsc_view q)\<lparr>items := s # xs\<rparr>"
    using ring_items_Suc [of "(sq_buffer q)[unat (sq_head q) := s]" "unat (sq_head q)" n]
      ring_items_after_pop [OF D(4), of n s] n D(3,4,8)
    by (simp add: q'_def spsc_view_def spsc_len_def)
qed

section \<open>Operations on every branch\<close>

lemma spsc_enqueue_result:
  assumes wf: "spsc_wf q" and mv: "move_assignable mv"
    and room: "ring_dist (length (sq_buffer q)) (unat (sq_head_cache q)) (unat (sq_tail q))
      < length (sq_buffer q) - 1"
  shows "(\<exists>q'. returning True (spsc_enqueue mv (sq_tail q) v q) = Done True q' \<and> spsc_wf q' \<and>
            spsc_view q' = (spsc_view q)\<lparr>items := items (spsc_view q) @ [v]\<rparr>) \<or>
         (\<exists>d s q'. mv (sq_buffer q ! unat (sq_tail q)) v = Move_threw d s \<and>
            returning True (spsc_enqueue mv (sq_tail q) v q) = Raised Move_assignment_failed q' \<and>
            spsc_wf q' \<and> spsc_view q' = spsc_view q)"
proof (cases "mv (sq_buffer q ! unat (sq_tail q)) v")
  case (Moved d s)
  then have "d = v" by (rule move_assignable.transfers [OF mv])
  with Moved spsc_enqueue_view [OF wf room, of v] spsc_wfD(5) [OF wf] show ?thesis
    by (simp add: spsc_enqueue_def returning_def Let_def)
next
  case (Move_threw d s)
  with spsc_enqueue_throw_view [OF wf, of d] spsc_wfD(5) [OF wf] show ?thesis
    by (simp add: spsc_enqueue_def returning_def Let_def)
qed

lemma spsc_dequeue_result:
  assumes wf: "spsc_wf q" and mv: "move_assignable mv"
    and its: "items (spsc_view q) = x # xs" and data: "sq_tail_cache q \<noteq> sq_head q"
  shows "(\<exists>q'. returning True (spsc_dequeue mv (sq_head q) out q) = Done True (q', x) \<and> spsc_wf q' \<and>
            spsc_view q' = (spsc_view q)\<lparr>items := xs\<rparr>) \<or>
         (\<exists>d s q'. mv out x = Move_threw d s \<and>
            returning True (spsc_dequeue mv (sq_head q) out q) = Raised Move_assignment_failed (q', d) \<and>
            spsc_wf q' \<and> spsc_view q' = (spsc_view q)\<lparr>items := s # xs\<rparr>)"
proof -
  have x: "sq_buffer q ! unat (sq_head q) = x"
    by (rule spsc_dequeue_view(1) [OF wf its data])
  show ?thesis
  proof (cases "mv out x")
    case (Moved d s)
    then have "d = x" by (rule move_assignable.transfers [OF mv])
    with Moved x spsc_dequeue_view(2,3) [OF wf its data, where s = s] spsc_wfD(4) [OF wf] show ?thesis
      by (simp add: spsc_dequeue_def returning_def Let_def)
  next
    case (Move_threw d s)
    with x spsc_dequeue_throw_view [OF wf its, of s] spsc_wfD(4) [OF wf] show ?thesis
      by (simp add: spsc_dequeue_def returning_def Let_def)
  qed
qed

lemma spsc_view_head_cache [simp]: "spsc_view (q\<lparr>sq_head_cache := c\<rparr>) = spsc_view q"
  by (simp add: spsc_view_def spsc_len_def)

lemma spsc_view_tail_cache [simp]: "spsc_view (q\<lparr>sq_tail_cache := c\<rparr>) = spsc_view q"
  by (simp add: spsc_view_def spsc_len_def)

text \<open>A push attempt: refused, enqueued, or the element's move assignment threw.\<close>

lemma spsc_try_push_result:
  assumes wf: "spsc_wf q" and mv: "move_assignable mv"
  shows "(\<exists>q'. (shut (spsc_view q) \<or> fifo_full (spsc_view q)) \<and> spsc_try_push mv v q = Done False q' \<and>
            spsc_wf q' \<and> spsc_view q' = spsc_view q) \<or>
         (\<exists>q'. \<not> shut (spsc_view q) \<and> \<not> fifo_full (spsc_view q) \<and> spsc_try_push mv v q = Done True q' \<and>
            spsc_wf q' \<and> spsc_view q' = (spsc_view q)\<lparr>items := items (spsc_view q) @ [v]\<rparr>) \<or>
         (\<exists>d s q'. \<not> shut (spsc_view q) \<and> \<not> fifo_full (spsc_view q) \<and>
            mv (sq_buffer q ! unat (sq_tail q)) v = Move_threw d s \<and>
            spsc_try_push mv v q = Raised Move_assignment_failed q' \<and>
            spsc_wf q' \<and> spsc_view q' = spsc_view q)"
proof (cases "sq_closed q")
  case True
  with wf show ?thesis by (simp add: spsc_try_push_def)
next
  case False
  obtain c where c: "has_room (spsc_next q (sq_tail q)) q = (\<not> fifo_full (spsc_view q), q\<lparr>sq_head_cache := c\<rparr>)"
      "spsc_wf (q\<lparr>sq_head_cache := c\<rparr>)"
      "\<not> fifo_full (spsc_view q) \<longrightarrow>
        ring_dist (length (sq_buffer q)) (unat c) (unat (sq_tail q)) < length (sq_buffer q) - 1"
    using has_room_spec [OF wf] by blast
  show ?thesis
  proof (cases "fifo_full (spsc_view q)")
    case True
    with False c show ?thesis by (simp add: spsc_try_push_def Let_def)
  next
    case nf: False
    with False c spsc_enqueue_result [OF c(2) mv, of v] show ?thesis
      by (simp add: spsc_try_push_def Let_def)
  qed
qed

lemma spsc_try_pop_result:
  assumes wf: "spsc_wf q" and mv: "move_assignable mv"
  shows "(\<exists>q'. items (spsc_view q) = [] \<and> spsc_try_pop mv out q = Done False (q', out) \<and>
            spsc_wf q' \<and> spsc_view q' = spsc_view q) \<or>
         (\<exists>x xs q'. items (spsc_view q) = x # xs \<and> spsc_try_pop mv out q = Done True (q', x) \<and>
            spsc_wf q' \<and> spsc_view q' = (spsc_view q)\<lparr>items := xs\<rparr>) \<or>
         (\<exists>x xs d s q'. items (spsc_view q) = x # xs \<and> mv out x = Move_threw d s \<and>
            spsc_try_pop mv out q = Raised Move_assignment_failed (q', d) \<and>
            spsc_wf q' \<and> spsc_view q' = (spsc_view q)\<lparr>items := s # xs\<rparr>)"
proof -
  obtain c where c: "has_data (sq_head q) q = (items (spsc_view q) \<noteq> [], q\<lparr>sq_tail_cache := c\<rparr>)"
      "spsc_wf (q\<lparr>sq_tail_cache := c\<rparr>)" "items (spsc_view q) \<noteq> [] \<longrightarrow> c \<noteq> sq_head q"
    using has_data_spec [OF wf] by blast
  show ?thesis
  proof (cases "items (spsc_view q)")
    case Nil
    with c show ?thesis
      by (simp add: spsc_try_pop_def Let_def del: spsc_view_sel)
  next
    case (Cons x xs)
    then have "c \<noteq> sq_head q" using c(3) by simp
    with c(1) Cons spsc_dequeue_result [OF c(2) mv, of x xs out] show ?thesis
      by (simp add: spsc_try_pop_def Let_def del: spsc_view_sel)
  qed
qed

section \<open>Observers\<close>

lemma unat_spsc_size_of:
  assumes "unat head < length (sq_buffer q)" and "unat tail < length (sq_buffer q)"
    and "length (sq_buffer q) < 2 ^ 63"
  shows "unat (spsc_size_of head tail q) = ring_dist (length (sq_buffer q)) (unat head) (unat tail)"
  using unat_ring_diff [OF assms] by (simp add: spsc_size_of_def vector_size_def ring_dist_def)

lemma unat_spsc_size: "spsc_wf q \<Longrightarrow> unat (spsc_size q) = spsc_len q"
  using spsc_wfD [of q] unat_spsc_size_of [of "sq_head q" q "sq_tail q"]
  by (simp add: spsc_size_def spsc_len_def)

lemma unat_spsc_capacity:
  assumes "spsc_wf q"
  shows "unat (spsc_capacity q) = length (sq_buffer q) - 1"
proof -
  have "unat (vector_size (sq_buffer q)) = length (sq_buffer q)"
    using spsc_wfD(2) [OF assms] by (intro unat_vector_size) simp
  then show ?thesis
    using spsc_wfD(1) [OF assms] by (simp add: spsc_capacity_def unat_sub_if')
qed

lemma spsc_view_ok: "spsc_wf q \<Longrightarrow> fifo_ok (spsc_view q)"
  using spsc_wfD(1,8) [of q] by (simp add: fifo_ok_def)

lemma spsc_close_view: "spsc_view (spsc_close q) = fifo_close (spsc_view q)"
  by (simp add: spsc_close_def spsc_view_def fifo_close_def spsc_len_def)

lemma spsc_close_wf [simp]: "spsc_wf (spsc_close q) = spsc_wf q"
  by (simp add: spsc_close_def spsc_wf_def)

section \<open>SpscQueue provides the contract\<close>

context nothrow_move_assignable
begin

lemma spsc_try_push_refines:
  assumes "spsc_wf q"
  shows "\<exists>q'. spsc_try_push mv v q = Done (fst (fifo_try_push v (spsc_view q))) q' \<and>
    spsc_view q' = snd (fifo_try_push v (spsc_view q)) \<and> spsc_wf q'"
  using spsc_try_push_result [OF assms move_assignable_axioms, of v] noexcept
  by (auto simp: fifo_try_push_def simp del: spsc_view_sel)

lemma spsc_try_pop_refines:
  assumes "spsc_wf q"
  shows "\<exists>q'. spsc_try_pop mv out q =
      Done (fst (fst (fifo_try_pop out (spsc_view q)))) (q', snd (fst (fifo_try_pop out (spsc_view q)))) \<and>
    spsc_view q' = snd (fifo_try_pop out (spsc_view q)) \<and> spsc_wf q'"
  using spsc_try_pop_result [OF assms move_assignable_axioms, of out] noexcept
  by (auto simp: fifo_try_pop_def simp del: spsc_view_sel)

end

sublocale nothrow_move_assignable \<subseteq> spsc: bounded_fifo "spsc_ops mv" "\<lambda>_. spsc_wf" spsc_view
proof unfold_locales
  fix n :: nat and q :: "'a spsc_queue" and v out :: 'a
  assume wf: "spsc_wf q"
  show "fifo_ok (spsc_view q)"
    by (rule spsc_view_ok [OF wf])
  show "\<exists>q'. op_try_push (spsc_ops mv) v q = Done (fst (fifo_try_push v (spsc_view q))) q' \<and>
      spsc_view q' = snd (fifo_try_push v (spsc_view q)) \<and> spsc_wf q'"
    using spsc_try_push_refines [OF wf] by (simp add: spsc_ops_def)
  show "\<exists>q'. op_try_pop (spsc_ops mv) out q =
        Done (fst (fst (fifo_try_pop out (spsc_view q)))) (q', snd (fst (fifo_try_pop out (spsc_view q)))) \<and>
      spsc_view q' = snd (fifo_try_pop out (spsc_view q)) \<and> spsc_wf q'"
    using spsc_try_pop_refines [OF wf] by (simp add: spsc_ops_def)
  show "spsc_view (op_close (spsc_ops mv) q) = fifo_close (spsc_view q) \<and>
      spsc_wf (op_close (spsc_ops mv) q)"
    using wf by (simp add: spsc_ops_def spsc_close_view)
  show "op_closed (spsc_ops mv) q = shut (spsc_view q)"
    by (simp add: spsc_ops_def spsc_closed_def)
  show "unat (op_size (spsc_ops mv) q) = length (items (spsc_view q))"
    using unat_spsc_size [OF wf] by (simp add: spsc_ops_def)
  show "unat (op_capacity (spsc_ops mv) q) = bound (spsc_view q)"
    using unat_spsc_capacity [OF wf] by (simp add: spsc_ops_def)
qed

text \<open>The two counts of the bulk operations, for any index and cache inside the ring.\<close>

lemma unat_available_at:
  assumes "unat head < length (sq_buffer q)" and "unat (sq_tail_cache q) < length (sq_buffer q)"
    and "length (sq_buffer q) < 2 ^ 63"
  shows "unat (available head q) =
    ring_dist (length (sq_buffer q)) (unat head) (unat (sq_tail_cache q))"
  using unat_ring_diff [OF assms] by (simp add: available_def vector_size_def ring_dist_def)

lemma unat_free_slots_at:
  assumes "unat tail < length (sq_buffer q)" and "unat (sq_head_cache q) < length (sq_buffer q)"
    and "2 \<le> length (sq_buffer q)" and "length (sq_buffer q) < 2 ^ 63"
  shows "unat (free_slots tail q) =
    length (sq_buffer q) - 1 - ring_dist (length (sq_buffer q)) (unat (sq_head_cache q)) (unat tail)"
proof -
  let ?N = "length (sq_buffer q)" and ?t = "unat tail" and ?c = "unat (sq_head_cache q)"
  have N: "unat (vector_size (sq_buffer q)) = ?N"
    using assms(4) by (intro unat_vector_size) simp
  have add: "unat (sq_head_cache q + vector_size (sq_buffer q)) = ?c + ?N"
    using assms(2,4) N by (subst unat_word_ariths) simp
  have one: "unat (sq_head_cache q + vector_size (sq_buffer q) - 1) = ?c + ?N - 1"
    using add assms(3) by (simp add: unat_sub_if')
  have "tail \<le> sq_head_cache q + vector_size (sq_buffer q) - 1"
    using one assms(1) by (simp add: word_le_nat_alt)
  then have sub: "unat (sq_head_cache q + vector_size (sq_buffer q) - 1 - tail) = ?c + ?N - 1 - ?t"
    by (simp add: unat_sub one)
  have "(?c + ?N - 1 - ?t) mod ?N = ?N - 1 - ring_dist ?N ?c ?t"
    using assms by (auto simp: ring_dist_if mod_if)
  then show ?thesis
    by (simp add: free_slots_def unat_mod_distrib sub N)
qed

lemmas unat_available = unat_available_at [OF spsc_wfD(4,7,2)]
lemmas unat_free_slots = unat_free_slots_at [OF spsc_wfD(5,6,1,2)]

text \<open>Refreshing the cache when it says none keeps the invariant and leaves the true figure.\<close>

lemma refresh_head_cache:
  fixes q :: "'a spsc_queue"
  assumes wf: "spsc_wf q"
  defines "q' \<equiv> (if free_slots (sq_tail q) q = 0 then q\<lparr>sq_head_cache := sq_head q\<rparr> else q)"
  shows "spsc_wf q'" and "unat (free_slots (sq_tail q) q') \<le> bound (spsc_view q) - length (items (spsc_view q))"
    and "free_slots (sq_tail q) q' = 0 \<longleftrightarrow> fifo_full (spsc_view q)"
proof -
  let ?N = "length (sq_buffer q)" and ?h = "unat (sq_head q)" and ?t = "unat (sq_tail q)"
  note D = spsc_wfD [OF wf]
  show wf': "spsc_wf q'"
    using wf D(3) ring_dist_eq_0 [OF D(4) D(4)] ring_dist_less [OF D(3)]
    by (simp add: q'_def spsc_wf_def Let_def)
  have t: "sq_tail q' = sq_tail q" "sq_buffer q' = sq_buffer q" "sq_head q' = sq_head q"
    by (simp_all add: q'_def)
  have dist: "ring_dist ?N (unat (sq_head_cache q')) ?t =
      ring_dist ?N (unat (sq_head_cache q')) ?h + spsc_len q"
    using ring_dist_add [of "unat (sq_head_cache q')" ?N ?h ?t] spsc_wfD [OF wf'] D(5) t
    by (simp add: spsc_len_def)
  have free: "unat (free_slots (sq_tail q) q') = ?N - 1 - ring_dist ?N (unat (sq_head_cache q')) ?t"
    using unat_free_slots [OF wf' wf' wf' wf'] t by simp
  show "unat (free_slots (sq_tail q) q') \<le> bound (spsc_view q) - length (items (spsc_view q))"
    using free dist by simp
  have "spsc_len q = ?N - 1" if "free_slots (sq_tail q) q' = 0"
  proof (cases "free_slots (sq_tail q) q = 0")
    case True
    then have "sq_head_cache q' = sq_head q" by (simp add: q'_def)
    then show ?thesis
      using free that ring_dist_less [OF D(3), of ?h ?t] ring_dist_eq_0 [OF D(4) D(4)] dist by simp
  next
    case False
    with that show ?thesis by (simp add: q'_def)
  qed
  moreover have "free_slots (sq_tail q) q' = 0" if "spsc_len q = ?N - 1"
    using free dist that by (simp add: unat_eq_zero [symmetric])
  ultimately show "free_slots (sq_tail q) q' = 0 \<longleftrightarrow> fifo_full (spsc_view q)"
    using spsc_full_iff [OF wf] by blast
qed

lemma refresh_tail_cache:
  fixes q :: "'a spsc_queue"
  assumes wf: "spsc_wf q"
  defines "q' \<equiv> (if available (sq_head q) q = 0 then q\<lparr>sq_tail_cache := sq_tail q\<rparr> else q)"
  shows "spsc_wf q'" and "unat (available (sq_head q) q') \<le> length (items (spsc_view q))"
    and "available (sq_head q) q' = 0 \<longleftrightarrow> items (spsc_view q) = []"
proof -
  note D = spsc_wfD [OF wf]
  show wf': "spsc_wf q'"
    using wf by (simp add: q'_def spsc_wf_def Let_def)
  have t: "sq_tail q' = sq_tail q" "sq_buffer q' = sq_buffer q" "sq_head q' = sq_head q"
    by (simp_all add: q'_def)
  have len: "spsc_len q' = spsc_len q"
    by (simp add: spsc_len_def t)
  have av: "unat (available (sq_head q) q') =
      ring_dist (length (sq_buffer q)) (unat (sq_head q)) (unat (sq_tail_cache q'))"
    using unat_available [OF wf' wf' wf'] t by simp
  show le: "unat (available (sq_head q) q') \<le> length (items (spsc_view q))"
    using av spsc_wfD(9) [OF wf'] t len by simp
  have "spsc_len q = 0" if "available (sq_head q) q' = 0"
    using that av by (cases "available (sq_head q) q = 0") (simp_all add: q'_def spsc_len_def)
  then show "available (sq_head q) q' = 0 \<longleftrightarrow> items (spsc_view q) = []"
    using le by (auto simp: unat_eq_zero [symmetric])
qed

section \<open>Bulk operations move a prefix\<close>

text \<open>
  The batch loop works on an unpublished index. Read against the queue with that index
  published, each pass is one enqueue (one dequeue), so the loop appends (removes) exactly
  the items it moved.
\<close>

text \<open>One pass of each batch loop: the index the loop keeps runs ahead of the published one.\<close>

lemma push_slot:
  fixes q :: "'a spsc_queue" and v :: 'a
  assumes wf: "spsc_wf (q\<lparr>sq_tail := tail\<rparr>)"
    and room: "ring_dist (length (sq_buffer q)) (unat (sq_head_cache q)) (unat tail) < length (sq_buffer q) - 1"
  defines "q1 \<equiv> q\<lparr>sq_buffer := (sq_buffer q)[unat tail := v]\<rparr>"
  shows "spsc_wf (q1\<lparr>sq_tail := spsc_next q tail\<rparr>)"
    and "items (spsc_view (q1\<lparr>sq_tail := spsc_next q tail\<rparr>)) = items (spsc_view (q\<lparr>sq_tail := tail\<rparr>)) @ [v]"
    and "ring_dist (length (sq_buffer q1)) (unat (sq_head_cache q1)) (unat (spsc_next q tail)) =
      ring_dist (length (sq_buffer q)) (unat (sq_head_cache q)) (unat tail) + 1"
proof -
  let ?q = "q\<lparr>sq_tail := tail\<rparr>"
  have t: "unat tail < length (sq_buffer q)"
    using spsc_wfD(5) [OF wf] by simp
  have nx: "spsc_next ?q tail = spsc_next q tail"
    by (simp add: spsc_next_def)
  show "spsc_wf (q1\<lparr>sq_tail := spsc_next q tail\<rparr>)"
    using spsc_enqueue_view(1) [OF wf, of v] room nx by (simp add: q1_def)
  have "spsc_view (q1\<lparr>sq_tail := spsc_next q tail\<rparr>) = (spsc_view ?q)\<lparr>items := items (spsc_view ?q) @ [v]\<rparr>"
    using spsc_enqueue_view(2) [OF wf, of v] room nx by (simp add: q1_def)
  then show "items (spsc_view (q1\<lparr>sq_tail := spsc_next q tail\<rparr>)) = items (spsc_view ?q) @ [v]"
    by (simp del: spsc_view_sel)
  show "ring_dist (length (sq_buffer q1)) (unat (sq_head_cache q1)) (unat (spsc_next q tail)) =
      ring_dist (length (sq_buffer q)) (unat (sq_head_cache q)) (unat tail) + 1"
    using ring_dist_next_right [OF _ t, of "unat (sq_head_cache q)"] room spsc_wfD(6) [OF wf]
      unat_spsc_next [OF wf, of tail] t nx by (simp add: q1_def)
qed

lemma pop_slot:
  fixes q :: "'a spsc_queue" and s :: 'a
  assumes wf: "spsc_wf (q\<lparr>sq_head := head\<rparr>)"
    and data: "0 < ring_dist (length (sq_buffer q)) (unat head) (unat (sq_tail_cache q))"
  defines "q1 \<equiv> q\<lparr>sq_buffer := (sq_buffer q)[unat head := s]\<rparr>"
  shows "spsc_wf (q1\<lparr>sq_head := spsc_next q head\<rparr>)"
    and "items (spsc_view (q\<lparr>sq_head := head\<rparr>)) =
      sq_buffer q ! unat head # items (spsc_view (q1\<lparr>sq_head := spsc_next q head\<rparr>))"
    and "ring_dist (length (sq_buffer q1)) (unat (spsc_next q head)) (unat (sq_tail_cache q1)) =
      ring_dist (length (sq_buffer q)) (unat head) (unat (sq_tail_cache q)) - 1"
proof -
  let ?q = "q\<lparr>sq_head := head\<rparr>" and ?N = "length (sq_buffer q)"
  have h: "unat head < ?N" and tc: "unat (sq_tail_cache q) < ?N"
    using spsc_wfD(4) [OF wf] spsc_wfD(7) [OF wf] by simp_all
  have "items (spsc_view ?q) \<noteq> []"
    using spsc_wfD(9) [OF wf] data by auto
  then obtain x xs where its: "items (spsc_view ?q) = x # xs"
    by (cases "items (spsc_view ?q)") auto
  have ne: "unat head \<noteq> unat (sq_tail_cache q)"
    using data ring_dist_eq_0 [OF h tc] by auto
  then have cache: "sq_tail_cache ?q \<noteq> sq_head ?q"
    by auto
  have nx: "spsc_next ?q head = spsc_next q head"
    by (simp add: spsc_next_def)
  show "spsc_wf (q1\<lparr>sq_head := spsc_next q head\<rparr>)"
    using spsc_dequeue_view(2) [OF wf its cache, where s = s] nx by (simp add: q1_def)
  have "spsc_view (q1\<lparr>sq_head := spsc_next q head\<rparr>) = (spsc_view ?q)\<lparr>items := xs\<rparr>"
    using spsc_dequeue_view(3) [OF wf its cache, where s = s] nx by (simp add: q1_def)
  then show "items (spsc_view ?q) = sq_buffer q ! unat head # items (spsc_view (q1\<lparr>sq_head := spsc_next q head\<rparr>))"
    using spsc_dequeue_view(1) [OF wf its cache] its by (simp del: spsc_view_sel)
  show "ring_dist (length (sq_buffer q1)) (unat (spsc_next q head)) (unat (sq_tail_cache q1)) =
      ring_dist ?N (unat head) (unat (sq_tail_cache q)) - 1"
    using ring_dist_next_left [OF h tc ne] unat_spsc_next [OF wf, of head] h nx by (simp add: q1_def)
qed

context nothrow_move_assignable
begin

lemma push_n_loop_result:
  fixes q :: "'a spsc_queue"
  assumes "spsc_wf (q\<lparr>sq_tail := tail\<rparr>)" and "i + k \<le> length xs"
    and "ring_dist (length (sq_buffer q)) (unat (sq_head_cache q)) (unat tail) + k \<le> length (sq_buffer q) - 1"
  shows "\<exists>buf' tail' xs'. push_n_loop mv k i tail xs q = Done tail' (q\<lparr>sq_buffer := buf'\<rparr>, xs') \<and>
    spsc_wf (q\<lparr>sq_buffer := buf', sq_tail := tail'\<rparr>) \<and>
    items (spsc_view (q\<lparr>sq_buffer := buf', sq_tail := tail'\<rparr>)) =
      items (spsc_view (q\<lparr>sq_tail := tail\<rparr>)) @ take k (drop i xs) \<and>
    length buf' = length (sq_buffer q) \<and> (k = 0 \<longrightarrow> tail' = tail) \<and>
    length xs' = length xs \<and> drop (i + k) xs' = drop (i + k) xs"
  using assms
proof (induction k arbitrary: i tail xs q)
  case 0
  then show ?case by (intro exI [of _ "sq_buffer q"] exI [of _ tail] exI [of _ xs]) simp
next
  case (Suc k)
  let ?q = "q\<lparr>sq_tail := tail\<rparr>" and ?N = "length (sq_buffer q)"
  have t: "unat tail < ?N"
    using spsc_wfD(5) [OF Suc.prems(1)] by simp
  obtain s where s: "mv (sq_buffer q ! unat tail) (xs ! i) = Moved (xs ! i) s"
    using moved by blast
  define q1 where "q1 = q\<lparr>sq_buffer := (sq_buffer q)[unat tail := xs ! i]\<rparr>"
  have room: "ring_dist ?N (unat (sq_head_cache q)) (unat tail) < ?N - 1"
    using Suc.prems(3) by simp
  note v = push_slot [OF Suc.prems(1) room, of "xs ! i", folded q1_def]
  have IHp: "ring_dist (length (sq_buffer q1)) (unat (sq_head_cache q1)) (unat (spsc_next q tail)) + k
      \<le> length (sq_buffer q1) - 1"
    using Suc.prems(3) v(3) by (simp add: q1_def)
  obtain buf' tail' xs' where r: "push_n_loop mv k (Suc i) (spsc_next q tail) (xs[i := s]) q1 =
        Done tail' (q1\<lparr>sq_buffer := buf'\<rparr>, xs')"
      "spsc_wf (q1\<lparr>sq_buffer := buf', sq_tail := tail'\<rparr>)"
      "items (spsc_view (q1\<lparr>sq_buffer := buf', sq_tail := tail'\<rparr>)) =
        items (spsc_view (q1\<lparr>sq_tail := spsc_next q tail\<rparr>)) @ take k (drop (Suc i) (xs[i := s]))"
      "length buf' = length (sq_buffer q1)"
      "length xs' = length xs" "drop (Suc i + k) xs' = drop (Suc i + k) (xs[i := s])"
    using Suc.IH [OF v(1) _ IHp, of "Suc i" "xs[i := s]"] Suc.prems(2) by auto
  have take: "take (Suc k) (drop i xs) = xs ! i # take k (drop (Suc i) xs)"
    using Suc.prems(2) by (simp add: Cons_nth_drop_Suc [symmetric])
  have upd: "q1\<lparr>sq_buffer := b\<rparr> = q\<lparr>sq_buffer := b\<rparr>"
      "q1\<lparr>sq_buffer := b, sq_tail := u\<rparr> = q\<lparr>sq_buffer := b, sq_tail := u\<rparr>" for b u
    by (simp_all add: q1_def)
  have "push_n_loop mv (Suc k) i tail xs q = Done tail' (q\<lparr>sq_buffer := buf'\<rparr>, xs')"
    using r(1) s t Suc.prems(2) by (simp add: upd flip: q1_def)
  moreover have "items (spsc_view (q\<lparr>sq_buffer := buf', sq_tail := tail'\<rparr>)) =
      items (spsc_view ?q) @ take (Suc k) (drop i xs)"
    using r(3) v(2) take by (simp add: upd del: spsc_view_sel)
  ultimately show ?case
    using r by (intro exI [of _ buf'] exI [of _ tail'] exI [of _ xs'])
      (simp add: upd q1_def del: spsc_view_sel push_n_loop.simps)
qed

lemma pop_n_loop_result:
  fixes q :: "'a spsc_queue"
  assumes "spsc_wf (q\<lparr>sq_head := head\<rparr>)" and "i + k \<le> length out"
    and "k \<le> ring_dist (length (sq_buffer q)) (unat head) (unat (sq_tail_cache q))"
  shows "\<exists>buf' head' out'. pop_n_loop mv k i head out q = Done head' (q\<lparr>sq_buffer := buf'\<rparr>, out') \<and>
    spsc_wf (q\<lparr>sq_buffer := buf', sq_head := head'\<rparr>) \<and>
    items (spsc_view (q\<lparr>sq_buffer := buf', sq_head := head'\<rparr>)) =
      drop k (items (spsc_view (q\<lparr>sq_head := head\<rparr>))) \<and>
    length buf' = length (sq_buffer q) \<and> (k = 0 \<longrightarrow> head' = head) \<and>
    out' = take i out @ take k (items (spsc_view (q\<lparr>sq_head := head\<rparr>))) @ drop (i + k) out"
  using assms
proof (induction k arbitrary: i head out q)
  case 0
  then show ?case by (intro exI [of _ "sq_buffer q"] exI [of _ head] exI [of _ out]) simp
next
  case (Suc k)
  let ?q = "q\<lparr>sq_head := head\<rparr>" and ?N = "length (sq_buffer q)"
  have h: "unat head < ?N"
    using spsc_wfD(4) [OF Suc.prems(1)] by simp
  obtain x where x: "sq_buffer q ! unat head = x"
    by blast
  obtain s where s: "mv (out ! i) x = Moved x s"
    using moved by blast
  define q1 where "q1 = q\<lparr>sq_buffer := (sq_buffer q)[unat head := s]\<rparr>"
  have data: "0 < ring_dist ?N (unat head) (unat (sq_tail_cache q))"
    using Suc.prems(3) by simp
  note v = pop_slot [OF Suc.prems(1) data, of s, folded q1_def, unfolded x]
  have IHp: "k \<le> ring_dist (length (sq_buffer q1)) (unat (spsc_next q head)) (unat (sq_tail_cache q1))"
    using Suc.prems(3) v(3) by simp
  obtain buf' head' out' where r: "pop_n_loop mv k (Suc i) (spsc_next q head) (out[i := x]) q1 =
        Done head' (q1\<lparr>sq_buffer := buf'\<rparr>, out')"
      "spsc_wf (q1\<lparr>sq_buffer := buf', sq_head := head'\<rparr>)"
      "items (spsc_view (q1\<lparr>sq_buffer := buf', sq_head := head'\<rparr>)) =
        drop k (items (spsc_view (q1\<lparr>sq_head := spsc_next q head\<rparr>)))"
      "length buf' = length (sq_buffer q1)"
      "out' = take (Suc i) (out[i := x]) @ take k (items (spsc_view (q1\<lparr>sq_head := spsc_next q head\<rparr>)))
         @ drop (Suc i + k) (out[i := x])"
    using Suc.IH [OF v(1) _ IHp, of "Suc i" "out[i := x]"] Suc.prems(2) by auto
  have upd: "q1\<lparr>sq_buffer := b\<rparr> = q\<lparr>sq_buffer := b\<rparr>"
      "q1\<lparr>sq_buffer := b, sq_head := u\<rparr> = q\<lparr>sq_buffer := b, sq_head := u\<rparr>" for b u
    by (simp_all add: q1_def)
  have pre: "take (Suc i) (out[i := x]) = take i out @ [x]"
    using Suc.prems(2) by (simp add: take_Suc_conv_app_nth)
  have "pop_n_loop mv (Suc k) i head out q = Done head' (q\<lparr>sq_buffer := buf'\<rparr>, out')"
    using r(1) s h x Suc.prems(2) by (simp add: upd flip: q1_def)
  moreover have "out' = take i out @ take (Suc k) (items (spsc_view ?q)) @ drop (i + Suc k) out"
    using r(5) v(2) pre by (simp del: spsc_view_sel)
  moreover have "items (spsc_view (q\<lparr>sq_buffer := buf', sq_head := head'\<rparr>)) = drop (Suc k) (items (spsc_view ?q))"
    using r(3) v(2) by (simp add: upd del: spsc_view_sel)
  ultimately show ?case
    using r(2,4) by (intro exI [of _ buf'] exI [of _ head'] exI [of _ out'])
      (simp add: upd q1_def del: spsc_view_sel pop_n_loop.simps)
qed

lemma try_push_n_result:
  assumes wf: "spsc_wf q" and xs: "length xs < 2 ^ 64"
  shows "\<exists>count q' xs'. try_push_n mv xs q = Done count (q', xs') \<and> spsc_wf q' \<and>
    spsc_view q' = (spsc_view q)\<lparr>items := items (spsc_view q) @ take (unat count) xs\<rparr> \<and>
    length xs' = length xs \<and> drop (unat count) xs' = drop (unat count) xs \<and>
    unat count \<le> length xs \<and>
    (count = 0 \<longleftrightarrow> xs = [] \<or> shut (spsc_view q) \<or> fifo_full (spsc_view q))"
proof (cases "xs = [] \<or> sq_closed q")
  case True
  with wf show ?thesis
    by (intro exI [of _ 0] exI [of _ q] exI [of _ xs]) (auto simp: try_push_n_def)
next
  case False
  define q1 where "q1 = (if free_slots (sq_tail q) q = 0 then q\<lparr>sq_head_cache := sq_head q\<rparr> else q)"
  define count where "count = min (vector_size xs) (free_slots (sq_tail q) q1)"
  note R = refresh_head_cache [OF wf, folded q1_def]
  have t: "sq_tail q1 = sq_tail q" "spsc_view q1 = spsc_view q" "sq_closed q1 = sq_closed q"
    by (simp_all add: q1_def)
  have q1t: "q1\<lparr>sq_tail := sq_tail q\<rparr> = q1"
    using t by simp
  have vs: "unat (vector_size xs) = length xs"
    by (rule unat_vector_size [OF xs])
  have cl: "unat count \<le> length xs" "unat count \<le> unat (free_slots (sq_tail q) q1)"
    using vs by (auto simp: count_def min_def word_le_nat_alt)
  have c0: "count = 0 \<longleftrightarrow> fifo_full (spsc_view q)"
    using False vs R(3) by (auto simp: count_def min_def word_le_nat_alt unat_eq_zero [symmetric])
  have bnd: "ring_dist (length (sq_buffer q1)) (unat (sq_head_cache q1)) (unat (sq_tail q)) + unat count
      \<le> length (sq_buffer q1) - 1"
    using cl(2) unat_free_slots [OF R(1) R(1) R(1) R(1)] t(1)
      ring_dist_less [OF spsc_wfD(3) [OF R(1)], of "unat (sq_head_cache q1)" "unat (sq_tail q)"] by simp
  obtain buf' tail' xs' where r: "push_n_loop mv (unat count) 0 (sq_tail q) xs q1 =
        Done tail' (q1\<lparr>sq_buffer := buf'\<rparr>, xs')"
      "spsc_wf (q1\<lparr>sq_buffer := buf', sq_tail := tail'\<rparr>)"
      "items (spsc_view (q1\<lparr>sq_buffer := buf', sq_tail := tail'\<rparr>)) = items (spsc_view q1) @ take (unat count) xs"
      "length buf' = length (sq_buffer q1)" "unat count = 0 \<longrightarrow> tail' = sq_tail q"
      "length xs' = length xs" "drop (unat count) xs' = drop (unat count) xs"
    using push_n_loop_result [where q = q1 and tail = "sq_tail q" and i = 0 and k = "unat count" and xs = xs] R(1) cl(1) bnd
    by (auto simp: q1t)
  define q2 where "q2 = q1\<lparr>sq_buffer := buf', sq_tail := tail'\<rparr>"
  have "(if count \<noteq> 0 then q1\<lparr>sq_buffer := buf'\<rparr>\<lparr>sq_tail := tail'\<rparr> else q1\<lparr>sq_buffer := buf'\<rparr>) = q2"
    using r(5) t(1) by (auto simp: q2_def)
  then have "try_push_n mv xs q = Done count (q2, xs')"
    using False r(1) by (simp add: try_push_n_def Let_def flip: q1_def count_def)
  moreover have "spsc_view q2 = (spsc_view q)\<lparr>items := items (spsc_view q) @ take (unat count) xs\<rparr>"
    using r(3,4) t(2) by (simp add: q2_def spsc_view_def)
  ultimately show ?thesis
    using r(2,6,7) cl(1) c0 False by (intro exI [of _ count] exI [of _ q2] exI [of _ xs']) (simp add: q2_def)
qed

lemma try_pop_n_result:
  assumes wf: "spsc_wf q" and out: "length out < 2 ^ 64"
  shows "\<exists>count q'. try_pop_n mv out q =
      Done count (q', take (unat count) (items (spsc_view q)) @ drop (unat count) out) \<and> spsc_wf q' \<and>
    spsc_view q' = (spsc_view q)\<lparr>items := drop (unat count) (items (spsc_view q))\<rparr> \<and>
    unat count \<le> length out \<and> unat count \<le> length (items (spsc_view q)) \<and>
    (count = 0 \<longleftrightarrow> out = [] \<or> items (spsc_view q) = [])"
proof (cases "out = []")
  case True
  with wf show ?thesis
    by (intro exI [of _ 0] exI [of _ q]) (auto simp: try_pop_n_def)
next
  case False
  define q1 where "q1 = (if available (sq_head q) q = 0 then q\<lparr>sq_tail_cache := sq_tail q\<rparr> else q)"
  define count where "count = min (vector_size out) (available (sq_head q) q1)"
  note R = refresh_tail_cache [OF wf, folded q1_def]
  have t: "sq_head q1 = sq_head q" "spsc_view q1 = spsc_view q"
    by (simp_all add: q1_def)
  have q1t: "q1\<lparr>sq_head := sq_head q\<rparr> = q1"
    using t by simp
  have vs: "unat (vector_size out) = length out"
    by (rule unat_vector_size [OF out])
  have cl: "unat count \<le> length out" "unat count \<le> unat (available (sq_head q) q1)"
    using vs by (auto simp: count_def min_def word_le_nat_alt)
  have c0: "count = 0 \<longleftrightarrow> items (spsc_view q) = []"
    using False vs R(3) by (auto simp: count_def min_def word_le_nat_alt unat_eq_zero [symmetric])
  obtain buf' head' where r: "pop_n_loop mv (unat count) 0 (sq_head q) out q1 =
        Done head' (q1\<lparr>sq_buffer := buf'\<rparr>, take (unat count) (items (spsc_view q)) @ drop (unat count) out)"
      "spsc_wf (q1\<lparr>sq_buffer := buf', sq_head := head'\<rparr>)"
      "items (spsc_view (q1\<lparr>sq_buffer := buf', sq_head := head'\<rparr>)) = drop (unat count) (items (spsc_view q))"
      "length buf' = length (sq_buffer q1)" "unat count = 0 \<longrightarrow> head' = sq_head q"
    using pop_n_loop_result [where q = q1 and head = "sq_head q" and i = 0 and k = "unat count" and out = out] R(1) cl unat_available [OF R(1) R(1) R(1)]
    by (auto simp: q1t t simp del: spsc_view_sel)
  define q2 where "q2 = q1\<lparr>sq_buffer := buf', sq_head := head'\<rparr>"
  have "(if count \<noteq> 0 then q1\<lparr>sq_buffer := buf'\<rparr>\<lparr>sq_head := head'\<rparr> else q1\<lparr>sq_buffer := buf'\<rparr>) = q2"
    using r(5) t(1) by (auto simp: q2_def)
  then have "try_pop_n mv out q =
      Done count (q2, take (unat count) (items (spsc_view q)) @ drop (unat count) out)"
    using False r(1) by (simp add: try_pop_n_def Let_def flip: q1_def count_def del: spsc_view_sel)
  moreover have "spsc_view q2 = (spsc_view q)\<lparr>items := drop (unat count) (items (spsc_view q))\<rparr>"
    using r(3,4) t(2) by (simp add: q2_def spsc_view_def)
  ultimately show ?thesis
    using r(2) cl R(2) c0 False
    by (intro exI [of _ count] exI [of _ q2]) (simp add: q2_def del: spsc_view_sel)
qed

end

text \<open>What the interface gives every client of this queue.\<close>

context nothrow_move_assignable
begin

lemmas spsc_run_refines = spsc.run_refines
lemmas spsc_bounded_fifo = spsc.bounded_fifo_axioms
lemmas spsc_drain_closed = spsc.drain_closed
lemmas spsc_offer_outcome = spsc.offer_outcome

end

section \<open>SpscQueue provides the blocking calls\<close>

definition spsc_others :: "'a move \<Rightarrow> 'a call list list \<Rightarrow> 'a spsc_queue meanwhile list" where
  "spsc_others mv css = map (\<lambda>cs p. meanwhile (spsc_ops mv) cs) css"

text \<open>A push (pop) that has waited \<open>k\<close> times.\<close>

definition spsc_push_at ::
  "'a move \<Rightarrow> nat \<Rightarrow> 'a call list list \<Rightarrow> 'a \<Rightarrow> 'a spsc_queue \<Rightarrow> ('a spsc_queue, bool) outcome" where
  "spsc_push_at mv k css value q =
     (case spsc_push_loop (spsc_others mv css) (backoff_at k) (spsc_next q (sq_tail q)) q of
        Done True q' \<Rightarrow> returning True (spsc_enqueue mv (sq_tail q) value q')
      | r \<Rightarrow> r)"

definition spsc_pop_at ::
  "'a move \<Rightarrow> nat \<Rightarrow> 'a call list list \<Rightarrow> 'a \<Rightarrow> 'a spsc_queue \<Rightarrow> ('a spsc_queue \<times> 'a, bool) outcome" where
  "spsc_pop_at mv k css out q = spsc_pop_loop (spsc_others mv css) (backoff_at k) mv out q"

lemma spsc_push_at_0: "spsc_push (spsc_others mv css) mv v q = spsc_push_at mv 0 css v q"
  by (simp add: spsc_push_def spsc_push_at_def Let_def)

lemma spsc_pop_at_0: "spsc_pop (spsc_others mv css) mv out q = spsc_pop_at mv 0 css out q"
  by (simp add: spsc_pop_def spsc_pop_at_def)

text \<open>While the producer waits, only the consumer and closers act: they leave \<^verbatim>\<open>tail_\<close> alone.\<close>

fun consumer_call :: "'a call \<Rightarrow> bool" where
  "consumer_call (Try_push v) = False"
| "consumer_call c = True"

lemma spsc_try_pop_tail:
  "spsc_try_pop mv out q = Done b (q', x) \<Longrightarrow> sq_tail q' = sq_tail q \<and> length (sq_buffer q') = length (sq_buffer q)"
  by (auto simp: spsc_try_pop_def has_data_def spsc_dequeue_def returning_def Let_def
      split: if_splits move_result.splits)

lemma spsc_run_tail:
  "run_calls (spsc_ops mv) cs q = Some (rs, q') \<Longrightarrow> list_all consumer_call cs \<Longrightarrow>
    sq_tail q' = sq_tail q \<and> length (sq_buffer q') = length (sq_buffer q)"
proof (induction cs arbitrary: q rs)
  case Nil
  then show ?case by simp
next
  case (Cons c cs)
  then obtain r q1 rs' where c: "do_call (spsc_ops mv) c q = Some (r, q1)" "run_calls (spsc_ops mv) cs q1 = Some (rs', q')"
    by (auto split: option.splits)
  have "sq_tail q1 = sq_tail q \<and> length (sq_buffer q1) = length (sq_buffer q)"
    using c(1) Cons.prems(2) by (cases c) (auto simp: spsc_ops_def spsc_close_def split: outcome.splits dest: spsc_try_pop_tail)
  then show ?case
    using Cons.IH [OF c(2)] Cons.prems(2) by simp
qed

lemma spsc_meanwhile_tail:
  "list_all consumer_call cs \<Longrightarrow> sq_tail (meanwhile (spsc_ops mv) cs q) = sq_tail q \<and>
    length (sq_buffer (meanwhile (spsc_ops mv) cs q)) = length (sq_buffer q)"
  using spsc_run_tail [of mv cs q] by (auto simp: meanwhile_def split: option.splits)

lemma spsc_push_at_open:
  "\<not> sq_closed q \<Longrightarrow> has_room (spsc_next q (sq_tail q)) q = (True, q') \<Longrightarrow>
    spsc_push_at mv k css v q = spsc_try_push mv v q"
  by (simp add: spsc_push_at_def spsc_push_loop.simps [of _ _ _ q] spsc_try_push_def Let_def)

lemma spsc_push_at_full:
  assumes "\<not> sq_closed q" and "has_room (spsc_next q (sq_tail q)) q = (False, q')"
  shows "spsc_push_at mv k [] v q = Waiting q'"
    and "list_all consumer_call cs \<Longrightarrow>
      spsc_push_at mv k (cs # css) v q = spsc_push_at mv (Suc k) css v (meanwhile (spsc_ops mv) cs q')"
proof -
  have same: "sq_tail q' = sq_tail q" "length (sq_buffer q') = length (sq_buffer q)"
    using assms(2) by (auto simp: has_room_def Let_def split: if_splits)
  show "spsc_push_at mv k [] v q = Waiting q'"
    using assms by (simp add: spsc_push_at_def spsc_push_loop.simps [of _ _ _ q] spsc_others_def backoff_wait_at Let_def)
  assume peers: "list_all consumer_call cs"
  have next_eq: "spsc_next (meanwhile (spsc_ops mv) cs q') = spsc_next q"
    using spsc_meanwhile_tail [OF peers, of mv q'] same by (simp add: spsc_next_def vector_size_def fun_eq_iff)
  show "spsc_push_at mv k (cs # css) v q = spsc_push_at mv (Suc k) css v (meanwhile (spsc_ops mv) cs q')"
    using assms spsc_meanwhile_tail [OF peers, of mv q'] same next_eq
    by (simp add: spsc_push_at_def spsc_push_loop.simps [of _ _ _ q] spsc_others_def backoff_wait_at Let_def
        cong: outcome.case_cong bool.case_cong)
qed

text \<open>An attempt on an empty queue changes nothing but the cache.\<close>

lemma spsc_try_pop_empty:
  assumes "spsc_wf q" and "items (spsc_view q) = []" and "move_assignable mv"
  shows "\<exists>q'. spsc_try_pop mv out q = Done False (q', out) \<and> spsc_view q' = spsc_view q \<and> spsc_wf q' \<and>
    sq_closed q' = sq_closed q"
proof -
  obtain q' where q': "spsc_try_pop mv out q = Done False (q', out)" "spsc_wf q'" "spsc_view q' = spsc_view q"
    using spsc_try_pop_result [OF assms(1,3), of out] assms(2) by (auto simp del: spsc_view_sel)
  moreover have "sq_closed q' = sq_closed q"
    using arg_cong [OF q'(3), of shut] by simp
  ultimately show ?thesis
    by blast
qed

sublocale nothrow_move_assignable \<subseteq> spsc_blocking: blocking_fifo "spsc_ops mv" "\<lambda>_. spsc_wf" spsc_view
  "spsc_push_at mv" "spsc_pop_at mv" consumer_call "\<lambda>_. True"
proof unfold_locales
  fix n k :: nat and q :: "'a spsc_queue" and v out x :: 'a and css and xs :: "'a list"
  assume wf: "spsc_wf q"
  obtain c where room: "has_room (spsc_next q (sq_tail q)) q = (\<not> fifo_full (spsc_view q), q\<lparr>sq_head_cache := c\<rparr>)"
      and wfc: "spsc_wf (q\<lparr>sq_head_cache := c\<rparr>)"
    using has_room_spec [OF wf] by blast
  obtain q1 where pop: "spsc_try_pop mv out q = Done (fst (fst (fifo_try_pop out (spsc_view q)))) (q1, snd (fst (fifo_try_pop out (spsc_view q))))"
      "spsc_view q1 = snd (fifo_try_pop out (spsc_view q))" "spsc_wf q1"
    using spsc_try_pop_refines [OF wf, of out] by blast
  show "\<exists>q'. spsc_push_at mv k css v q = Done False q' \<and> spsc_view q' = spsc_view q \<and> spsc_wf q'"
    if "shut (spsc_view q)"
    using that wf by (simp add: spsc_push_at_def spsc_push_loop.simps [of _ _ _ q])
  show "\<exists>q'. spsc_push_at mv k css v q = Done True q' \<and>
      spsc_view q' = (spsc_view q)\<lparr>items := items (spsc_view q) @ [v]\<rparr> \<and> spsc_wf q'"
    if "\<not> shut (spsc_view q)" "\<not> fifo_full (spsc_view q)"
    using that room spsc_push_at_open [of q _ mv k css v] spsc_try_push_refines [OF wf, of v]
    by (auto simp: fifo_try_push_def)
  show "\<exists>q'. spsc_view q' = spsc_view q \<and> spsc_wf q' \<and> spsc_push_at mv k [] v q = Waiting q' \<and>
      (\<forall>cs css. list_all consumer_call cs \<and> pushes cs \<le> n \<longrightarrow>
        spsc_push_at mv k (cs # css) v q = spsc_push_at mv (Suc k) css v (meanwhile (spsc_ops mv) cs q'))"
    if "\<not> shut (spsc_view q)" "fifo_full (spsc_view q)"
    using that room wfc spsc_push_at_full [where q = q and q' = "q\<lparr>sq_head_cache := c\<rparr>"]
    by (intro exI [of _ "q\<lparr>sq_head_cache := c\<rparr>"]) simp
  show "\<exists>q'. spsc_pop_at mv k css out q = Done True (q', x) \<and>
      spsc_view q' = (spsc_view q)\<lparr>items := xs\<rparr> \<and> spsc_wf q'" if "items (spsc_view q) = x # xs"
    using that pop by (simp add: spsc_pop_at_def spsc_pop_loop.simps [of _ _ _ _ q] fifo_try_pop_def del: spsc_view_sel)
  show "\<exists>q'. spsc_pop_at mv k css out q = Done False (q', out) \<and> spsc_view q' = spsc_view q \<and> spsc_wf q'"
    if emp: "items (spsc_view q) = []" "shut (spsc_view q)"
  proof -
    obtain q1 where q1: "spsc_try_pop mv out q = Done False (q1, out)" "spsc_view q1 = spsc_view q" "spsc_wf q1"
        "sq_closed q1 = sq_closed q"
      using spsc_try_pop_empty [OF wf emp(1) move_assignable_axioms, of out] by blast
    then show ?thesis
      using spsc_try_pop_refines [OF q1(3), of out] emp
      by (auto simp: spsc_pop_at_def spsc_pop_loop.simps [of _ _ _ _ q] fifo_try_pop_def simp del: spsc_view_sel(1))
  qed
  show "\<exists>q'. spsc_view q' = spsc_view q \<and> spsc_wf q' \<and> spsc_pop_at mv k [] out q = Waiting (q', out) \<and>
      (\<forall>cs css. list_all (\<lambda>_. True) cs \<and> pushes cs \<le> n \<longrightarrow>
        spsc_pop_at mv k (cs # css) out q = spsc_pop_at mv (Suc k) css out (meanwhile (spsc_ops mv) cs q'))"
    if "items (spsc_view q) = []" "\<not> shut (spsc_view q)"
    using spsc_try_pop_empty [OF wf that(1) move_assignable_axioms, of out] that(2)
    by (auto simp: spsc_pop_at_def spsc_pop_loop.simps [of _ _ _ _ q] spsc_others_def backoff_wait_at)
qed

context nothrow_move_assignable
begin

lemmas spsc_push_refines = spsc_blocking.push_refines
lemmas spsc_pop_refines = spsc_blocking.pop_refines

end

end
