(* ===== verification/Mpmc_Queue.thy ===== *)
theory Mpmc_Queue
  imports Blocking Backoff
begin

text \<open>
  \<open>MpmcQueue\<close> (include/cq/mpmc_queue.hpp, .ipp): Vyukov's bounded queue with a sequence
  counter per slot and doubled tickets. Positions and sequences are machine words and wrap.
  Here each operation runs as one function of the queue's state (an atomic load reads the
  current value); a weak compare-exchange may still fail spuriously, so every pass of a
  claim loop consumes one element of a schedule that says whether it does. The interleaving
  of many threads is the subject of Mpmc_Concurrent.
\<close>

section \<open>State\<close>

record 'a mpmc_slot =
  slot_sequence :: usize
  slot_value :: 'a

record 'a mpmc_queue =
  pq_slots :: "'a mpmc_slot list"
  pq_mask :: usize
  pq_enqueue_pos :: usize
  pq_dequeue_pos :: usize
  pq_closed :: bool

text \<open>\<^verbatim>\<open>std::has_single_bit\<close>: the argument is an integral power of two.\<close>

definition has_single_bit :: "usize \<Rightarrow> bool" where
  "has_single_bit x \<longleftrightarrow> list_ex (\<lambda>k. x = 2 ^ k) [0..<64]"

definition make_slots :: "nat \<Rightarrow> 'a \<Rightarrow> usize \<Rightarrow> exn + 'a mpmc_slot list" where
  "make_slots sz dflt capacity =
     (if capacity = 0 then Inl Invalid_argument
      else vector_new sz \<lparr>slot_sequence = 0, slot_value = dflt\<rparr> capacity)"

definition init_sequences :: "'a mpmc_slot list \<Rightarrow> 'a mpmc_slot list" where
  "init_sequences slots =
     map (\<lambda>i. (slots ! i)\<lparr>slot_sequence := 2 * of_nat i\<rparr>) [0..<length slots]"

definition mpmc_new :: "nat \<Rightarrow> 'a \<Rightarrow> usize \<Rightarrow> exn + 'a mpmc_queue" where
  "mpmc_new sz dflt capacity =
     (case make_slots sz dflt capacity of
        Inl e \<Rightarrow> Inl e
      | Inr slots \<Rightarrow>
          Inr \<lparr>pq_slots = init_sequences slots,
               pq_mask = (if has_single_bit capacity then capacity - 1 else 0),
               pq_enqueue_pos = 0, pq_dequeue_pos = 0, pq_closed = False\<rparr>)"

section \<open>Claim and publish\<close>

definition slot_index :: "'a mpmc_queue \<Rightarrow> usize \<Rightarrow> usize" where
  "slot_index q ticket =
     (if pq_mask q \<noteq> 0 then ticket AND pq_mask q else ticket mod vector_size (pq_slots q))"

text \<open>
  \<^verbatim>\<open>pos.compare_exchange_weak(ticket, ticket + 1)\<close> against the current value \<open>pos\<close>: whether
  it succeeded, and the value \<^verbatim>\<open>ticket\<close> is left with.
\<close>

definition compare_exchange_weak :: "bool \<Rightarrow> usize \<Rightarrow> usize \<Rightarrow> bool \<times> usize" where
  "compare_exchange_weak spurious pos ticket =
     (if pos = ticket \<and> \<not> spurious then (True, ticket) else (False, pos))"

text \<open>The signed difference that classifies a slot.\<close>

definition sequence_dif :: "usize \<Rightarrow> usize \<Rightarrow> int" where
  "sequence_dif seq expected = sint (seq - expected)"

fun try_enqueue_loop ::
  "bool list \<Rightarrow> 'a move \<Rightarrow> usize \<Rightarrow> 'a \<Rightarrow> 'a mpmc_queue \<Rightarrow> ('a mpmc_queue \<times> 'a, bool) outcome" where
  "try_enqueue_loop [] mv ticket value q = Waiting (q, value)"
| "try_enqueue_loop (spurious # cas) mv ticket value q =
     (let i = unat (slot_index q ticket) in
      if length (pq_slots q) \<le> i then Crash
      else
        (let slot = pq_slots q ! i; dif = sequence_dif (slot_sequence slot) (2 * ticket) in
         if dif = 0 then
           (let (won, ticket') = compare_exchange_weak spurious (pq_enqueue_pos q) ticket in
            if won then
              (case mv (slot_value slot) value of
                 Move_threw d s \<Rightarrow> Crash
               | Moved d s \<Rightarrow>
                   Done True
                     (q\<lparr>pq_enqueue_pos := ticket + 1,
                        pq_slots := (pq_slots q)[i := \<lparr>slot_sequence = 2 * ticket + 1, slot_value = d\<rparr>]\<rparr>,
                      s))
            else try_enqueue_loop cas mv ticket' value q)
         else if dif < 0 then Done False (q, value)
         else try_enqueue_loop cas mv (pq_enqueue_pos q) value q))"

definition try_enqueue ::
  "bool list \<Rightarrow> 'a move \<Rightarrow> 'a \<Rightarrow> 'a mpmc_queue \<Rightarrow> ('a mpmc_queue \<times> 'a, bool) outcome" where
  "try_enqueue cas mv value q = try_enqueue_loop cas mv (pq_enqueue_pos q) value q"

fun try_dequeue_loop ::
  "bool list \<Rightarrow> 'a move \<Rightarrow> usize \<Rightarrow> 'a \<Rightarrow> 'a mpmc_queue \<Rightarrow> ('a mpmc_queue \<times> 'a, bool) outcome" where
  "try_dequeue_loop [] mv ticket out q = Waiting (q, out)"
| "try_dequeue_loop (spurious # cas) mv ticket out q =
     (let i = unat (slot_index q ticket) in
      if length (pq_slots q) \<le> i then Crash
      else
        (let slot = pq_slots q ! i; dif = sequence_dif (slot_sequence slot) (2 * ticket + 1) in
         if dif = 0 then
           (let (won, ticket') = compare_exchange_weak spurious (pq_dequeue_pos q) ticket in
            if won then
              (case mv out (slot_value slot) of
                 Move_threw d s \<Rightarrow> Crash
               | Moved d s \<Rightarrow>
                   Done True
                     (q\<lparr>pq_dequeue_pos := ticket + 1,
                        pq_slots := (pq_slots q)
                          [i := \<lparr>slot_sequence = 2 * (ticket + vector_size (pq_slots q)), slot_value = s\<rparr>]\<rparr>,
                      d))
            else try_dequeue_loop cas mv ticket' out q)
         else if dif < 0 then Done False (q, out)
         else try_dequeue_loop cas mv (pq_dequeue_pos q) out q))"

definition try_dequeue ::
  "bool list \<Rightarrow> 'a move \<Rightarrow> 'a \<Rightarrow> 'a mpmc_queue \<Rightarrow> ('a mpmc_queue \<times> 'a, bool) outcome" where
  "try_dequeue cas mv out q = try_dequeue_loop cas mv (pq_dequeue_pos q) out q"

section \<open>Public operations\<close>

text \<open>A push takes its argument by value: what is left of it is destroyed with the call.\<close>

definition drop_argument :: "('q \<times> 'a, 'r) outcome \<Rightarrow> ('q, 'r) outcome" where
  "drop_argument x =
     (case x of
        Done r (q, _) \<Rightarrow> Done r q
      | Raised e (q, _) \<Rightarrow> Raised e q
      | Crash \<Rightarrow> Crash
      | Waiting (q, _) \<Rightarrow> Waiting q)"

definition mpmc_try_push ::
  "bool list \<Rightarrow> 'a move \<Rightarrow> 'a \<Rightarrow> 'a mpmc_queue \<Rightarrow> ('a mpmc_queue, bool) outcome" where
  "mpmc_try_push cas mv value q =
     (if pq_closed q then Done False q else drop_argument (try_enqueue cas mv value q))"

definition mpmc_try_pop ::
  "bool list \<Rightarrow> 'a move \<Rightarrow> 'a \<Rightarrow> 'a mpmc_queue \<Rightarrow> ('a mpmc_queue \<times> 'a, bool) outcome" where
  "mpmc_try_pop cas mv out q = try_dequeue cas mv out q"

text \<open>
  The blocking loops: \<open>cas\<close> is the schedule of the next attempt; each element of the list
  is what the other threads do during one pause, with the schedule of the attempt after it;
  \<open>final\<close> is the schedule of the attempt that follows an observed close.
\<close>

fun mpmc_push_loop ::
  "bool list \<Rightarrow> ((pause \<Rightarrow> 'a mpmc_queue \<Rightarrow> 'a mpmc_queue) \<times> bool list) list \<Rightarrow> backoff \<Rightarrow> 'a move \<Rightarrow>
     'a \<Rightarrow> 'a mpmc_queue \<Rightarrow> ('a mpmc_queue \<times> 'a, bool) outcome" where
  "mpmc_push_loop cas es b mv value q =
     (if pq_closed q then Done False (q, value)
      else
        (case try_enqueue cas mv value q of
           Done False (q', value') \<Rightarrow>
             (let (p, b') = backoff_wait b in
              case es of
                [] \<Rightarrow> Waiting (q', value')
              | (e, cas') # es' \<Rightarrow> mpmc_push_loop cas' es' b' mv value' (e p q'))
         | r \<Rightarrow> r))"

definition mpmc_push ::
  "bool list \<Rightarrow> ((pause \<Rightarrow> 'a mpmc_queue \<Rightarrow> 'a mpmc_queue) \<times> bool list) list \<Rightarrow> 'a move \<Rightarrow>
     'a \<Rightarrow> 'a mpmc_queue \<Rightarrow> ('a mpmc_queue, bool) outcome" where
  "mpmc_push cas es mv value q = drop_argument (mpmc_push_loop cas es backoff_new mv value q)"

fun mpmc_pop_loop ::
  "bool list \<Rightarrow> bool list \<Rightarrow> ((pause \<Rightarrow> 'a mpmc_queue \<Rightarrow> 'a mpmc_queue) \<times> bool list) list \<Rightarrow> backoff \<Rightarrow> 'a move \<Rightarrow>
     'a \<Rightarrow> 'a mpmc_queue \<Rightarrow> ('a mpmc_queue \<times> 'a, bool) outcome" where
  "mpmc_pop_loop cas final es b mv out q =
     (case try_dequeue cas mv out q of
        Done False (q', out') \<Rightarrow>
          if pq_closed q' then try_dequeue final mv out' q'
          else
            (let (p, b') = backoff_wait b in
             case es of
               [] \<Rightarrow> Waiting (q', out')
             | (e, cas') # es' \<Rightarrow> mpmc_pop_loop cas' final es' b' mv out' (e p q'))
      | r \<Rightarrow> r)"

definition mpmc_pop ::
  "bool list \<Rightarrow> bool list \<Rightarrow> ((pause \<Rightarrow> 'a mpmc_queue \<Rightarrow> 'a mpmc_queue) \<times> bool list) list \<Rightarrow> 'a move \<Rightarrow>
     'a \<Rightarrow> 'a mpmc_queue \<Rightarrow> ('a mpmc_queue \<times> 'a, bool) outcome" where
  "mpmc_pop cas final es mv out q = mpmc_pop_loop cas final es backoff_new mv out q"

declare mpmc_push_loop.simps [simp del] mpmc_pop_loop.simps [simp del]

definition mpmc_close :: "'a mpmc_queue \<Rightarrow> 'a mpmc_queue" where
  "mpmc_close q = q\<lparr>pq_closed := True\<rparr>"

definition mpmc_closed :: "'a mpmc_queue \<Rightarrow> bool" where
  "mpmc_closed q = pq_closed q"

text \<open>\<^verbatim>\<open>size()\<close> loads the two positions separately and clamps the difference at both ends.\<close>

definition mpmc_size_of :: "usize \<Rightarrow> usize \<Rightarrow> 'a mpmc_queue \<Rightarrow> usize" where
  "mpmc_size_of tail head q =
     (let dif = sint (tail - head) in
      if dif < 0 then 0
      else
        (let queued = tail - head in
         if queued < vector_size (pq_slots q) then queued else vector_size (pq_slots q)))"

definition mpmc_size :: "'a mpmc_queue \<Rightarrow> usize" where
  "mpmc_size q = mpmc_size_of (pq_enqueue_pos q) (pq_dequeue_pos q) q"

definition mpmc_capacity :: "'a mpmc_queue \<Rightarrow> usize" where
  "mpmc_capacity q = vector_size (pq_slots q)"

definition mpmc_ops :: "bool list \<Rightarrow> 'a move \<Rightarrow> ('a mpmc_queue, 'a) queue_ops" where
  "mpmc_ops cas mv =
     \<lparr>op_try_push = mpmc_try_push cas mv, op_try_pop = mpmc_try_pop cas mv, op_close = mpmc_close,
      op_closed = mpmc_closed, op_size = mpmc_size, op_capacity = mpmc_capacity\<rparr>"

section \<open>Slot indexing\<close>

lemma has_single_bit_iff: "has_single_bit x \<longleftrightarrow> (\<exists>k<64. x = 2 ^ k)"
  by (auto simp: has_single_bit_def list_ex_iff)

definition mask_ok :: "'a mpmc_queue \<Rightarrow> bool" where
  "mask_ok q \<longleftrightarrow>
     pq_mask q = (if has_single_bit (vector_size (pq_slots q)) then vector_size (pq_slots q) - 1 else 0)"

lemma slot_index_mod:
  assumes "mask_ok q"
  shows "slot_index q ticket = ticket mod vector_size (pq_slots q)"
proof (cases "pq_mask q = 0")
  case True
  then show ?thesis by (simp add: slot_index_def)
next
  case False
  then obtain k where k: "k < 64" "vector_size (pq_slots q) = (2 ^ k :: usize)"
    using assms by (auto simp: mask_ok_def has_single_bit_iff split: if_splits)
  have "pq_mask q = mask k"
    using False assms k by (simp add: mask_ok_def mask_eq_exp_minus_1 split: if_splits)
  moreover have "(0::usize) < 2 ^ k"
    using k(1) by (simp add: word_gt_0)
  ultimately show ?thesis
    using False k(2) word_mod_2p_is_mask [of k ticket] by (simp add: slot_index_def)
qed

section \<open>Representation invariant and abstraction\<close>

text \<open>
  \<open>E\<close> and \<open>D\<close> are the numbers of tickets handed out to producers and to consumers, as
  unbounded naturals; the stored positions are these modulo \<open>2 ^ 64\<close>. Between calls the
  slots of tickets \<open>D ..< E\<close> hold data (sequence \<open>2 t + 1\<close>) and those of tickets
  \<open>E ..< D + N\<close> are free (sequence \<open>2 t\<close>).
\<close>

definition mpmc_inv :: "nat \<Rightarrow> nat \<Rightarrow> 'a mpmc_queue \<Rightarrow> bool" where
  "mpmc_inv E D q \<longleftrightarrow>
     (let N = length (pq_slots q) in
      0 < N \<and> N < 2 ^ 62 \<and> mask_ok q \<and>
      pq_enqueue_pos q = of_nat E \<and> pq_dequeue_pos q = of_nat D \<and> D \<le> E \<and> E \<le> D + N \<and>
      (\<forall>t. D \<le> t \<and> t < E \<longrightarrow> slot_sequence (pq_slots q ! (t mod N)) = of_nat (2 * t + 1)) \<and>
      (\<forall>t. E \<le> t \<and> t < D + N \<longrightarrow> slot_sequence (pq_slots q ! (t mod N)) = of_nat (2 * t)))"

text \<open>
  The ticket horizon: a power-of-two capacity divides \<open>2 ^ 64\<close>, so its slot indices survive
  the wrap-around of a ticket; any other capacity needs the tickets to stay below \<open>2 ^ 64\<close>.
\<close>

definition ticket_horizon :: "nat \<Rightarrow> nat \<Rightarrow> 'a mpmc_queue \<Rightarrow> bool" where
  "ticket_horizon n E q \<longleftrightarrow> has_single_bit (vector_size (pq_slots q)) \<or> E + n < 2 ^ 64"

definition mpmc_wf :: "nat \<Rightarrow> 'a mpmc_queue \<Rightarrow> bool" where
  "mpmc_wf n q \<longleftrightarrow> (\<exists>E D. mpmc_inv E D q \<and> ticket_horizon n E q)"

definition mpmc_len :: "'a mpmc_queue \<Rightarrow> nat" where
  "mpmc_len q = unat (pq_enqueue_pos q - pq_dequeue_pos q)"

definition mpmc_view :: "'a mpmc_queue \<Rightarrow> 'a fifo" where
  "mpmc_view q =
     \<lparr>items = ring_items (map slot_value (pq_slots q)) (unat (pq_dequeue_pos q)) (mpmc_len q),
      bound = length (pq_slots q), shut = pq_closed q\<rparr>"

lemma mpmc_view_sel [simp]:
  "items (mpmc_view q) = ring_items (map slot_value (pq_slots q)) (unat (pq_dequeue_pos q)) (mpmc_len q)"
  "bound (mpmc_view q) = length (pq_slots q)"
  "shut (mpmc_view q) = pq_closed q"
  by (simp_all add: mpmc_view_def)

lemma unat_of_nat_mod_slots:
  assumes "mask_ok q" and "0 < length (pq_slots q)" and "length (pq_slots q) < 2 ^ 62"
    and "has_single_bit (vector_size (pq_slots q)) \<or> t < 2 ^ 64"
  shows "unat (of_nat t :: usize) mod length (pq_slots q) = t mod length (pq_slots q)"
proof (cases "t < 2 ^ 64")
  case True
  then show ?thesis by (simp add: unat_of_nat_usize)
next
  case False
  then obtain k where k: "k < 64" "vector_size (pq_slots q) = (2 ^ k :: usize)"
    using assms(4) by (auto simp: has_single_bit_iff)
  have "length (pq_slots q) = unat (vector_size (pq_slots q))"
    using assms(3) by (intro unat_vector_size [symmetric]) simp
  also have "\<dots> = 2 ^ k"
    using k unat_of_nat_usize [of "2 ^ k"] power_strict_increasing [OF k(1), of "2::nat"] by simp
  finally have "length (pq_slots q) dvd 2 ^ 64"
    using le_imp_power_dvd [of k 64 "2::nat"] k(1) by simp
  moreover have "unat (of_nat t :: usize) = t mod 2 ^ 64"
    by (simp add: unat_of_nat take_bit_nat_def)
  ultimately show ?thesis
    by (simp add: mod_mod_cancel)
qed

lemma slot_index_of_ticket:
  assumes "mask_ok q" and "0 < length (pq_slots q)" and "length (pq_slots q) < 2 ^ 62"
    and "has_single_bit (vector_size (pq_slots q)) \<or> t < 2 ^ 64"
  shows "unat (slot_index q (of_nat t)) = t mod length (pq_slots q)"
proof -
  have "unat (vector_size (pq_slots q)) = length (pq_slots q)"
    using assms(3) by (intro unat_vector_size) simp
  then show ?thesis
    using unat_of_nat_mod_slots [OF assms] by (simp add: slot_index_mod [OF assms(1)] unat_mod_distrib)
qed

lemma mpmc_invD:
  assumes "mpmc_inv E D q"
  shows "0 < length (pq_slots q)" "length (pq_slots q) < 2 ^ 62" "mask_ok q"
    "pq_enqueue_pos q = of_nat E" "pq_dequeue_pos q = of_nat D" "D \<le> E" "E \<le> D + length (pq_slots q)"
    "\<And>t. D \<le> t \<Longrightarrow> t < E \<Longrightarrow>
      slot_sequence (pq_slots q ! (t mod length (pq_slots q))) = of_nat (2 * t + 1)"
    "\<And>t. E \<le> t \<Longrightarrow> t < D + length (pq_slots q) \<Longrightarrow>
      slot_sequence (pq_slots q ! (t mod length (pq_slots q))) = of_nat (2 * t)"
  using assms by (auto simp: mpmc_inv_def Let_def)

lemma mpmc_inv_len:
  assumes "mpmc_inv E D q"
  shows "mpmc_len q = E - D"
proof -
  note I = mpmc_invD [OF assms]
  have "(of_nat E - of_nat D :: usize) = of_nat (E - D)"
    using I(6) by (simp add: of_nat_diff)
  moreover have "E - D < 2 ^ 64"
    using I(2,7) by simp
  ultimately show ?thesis
    by (simp add: mpmc_len_def I(4,5) unat_of_nat_usize)
qed

text \<open>The items, read at the unbounded tickets.\<close>

lemma mpmc_inv_items:
  assumes inv: "mpmc_inv E D q" and "ticket_horizon n E q"
  shows "items (mpmc_view q) = ring_items (map slot_value (pq_slots q)) D (E - D)"
proof -
  let ?vs = "map slot_value (pq_slots q)"
  have "unat (pq_dequeue_pos q) mod length ?vs = D mod length ?vs"
    using unat_of_nat_mod_slots [of q D] assms
    by (simp add: mpmc_inv_def Let_def ticket_horizon_def) linarith
  then have "ring_items ?vs (unat (pq_dequeue_pos q)) (E - D) = ring_items ?vs D (E - D)"
    by (metis ring_items_mod)
  then show ?thesis
    by (simp add: mpmc_inv_len [OF inv])
qed

section \<open>One claim\<close>

lemma horizon_ticket: "ticket_horizon n E q \<Longrightarrow> t \<le> E \<Longrightarrow> has_single_bit (vector_size (pq_slots q)) \<or> t < 2 ^ 64"
  by (auto simp: ticket_horizon_def)

lemma mpmc_slot_of:
  assumes inv: "mpmc_inv E D q" and hor: "has_single_bit (vector_size (pq_slots q)) \<or> t < 2 ^ 64"
  shows "unat (slot_index q (of_nat t)) = t mod length (pq_slots q)"
    and "t mod length (pq_slots q) < length (pq_slots q)"
  using slot_index_of_ticket [OF mpmc_invD(3,1,2) [OF inv] hor] mpmc_invD(1) [OF inv]
  by simp_all

text \<open>
  How the two sides classify the slot of their next ticket: a free slot (a full slot) gives
  difference zero; a ring that is full (empty) gives a negative one.
\<close>

lemma enqueue_dif_room:
  assumes "mpmc_inv E D q" and "E < D + length (pq_slots q)"
  shows "sequence_dif (slot_sequence (pq_slots q ! (E mod length (pq_slots q)))) (2 * of_nat E) = 0"
  using mpmc_invD(9) [OF assms(1) order_refl assms(2)] by (simp add: sequence_dif_def)

lemma enqueue_dif_full:
  assumes inv: "mpmc_inv E D q" and "E = D + length (pq_slots q)"
  shows "sequence_dif (slot_sequence (pq_slots q ! (E mod length (pq_slots q)))) (2 * of_nat E) < 0"
proof -
  let ?N = "length (pq_slots q)"
  have N: "0 < ?N" "?N < 2 ^ 62"
    using mpmc_invD(1,2) [OF inv] by simp_all
  have "slot_sequence (pq_slots q ! (E mod ?N)) = of_nat (2 * D + 1)"
    using mpmc_invD(8) [OF inv, of D] assms(2) N by simp
  moreover have "(of_nat (2 * D + 1) - 2 * of_nat E :: usize) = - of_nat (2 * ?N - 1)"
  proof -
    have "(of_nat (2 * ?N - 1) :: usize) = of_nat (2 * ?N) - 1"
      using N(1) by (subst of_nat_diff) (linarith, simp)
    then show ?thesis using assms(2) by (simp add: algebra_simps)
  qed
  moreover have "sint (- of_nat (2 * ?N - 1) :: usize) = - int (2 * ?N - 1)"
    using N by (intro sint_neg_of_nat) simp
  ultimately show ?thesis
    using N(1) by (simp only: sequence_dif_def)
qed

lemma dequeue_dif_data:
  assumes "mpmc_inv E D q" and "D < E"
  shows "sequence_dif (slot_sequence (pq_slots q ! (D mod length (pq_slots q)))) (2 * of_nat D + 1) = 0"
  using mpmc_invD(8) [OF assms(1) order_refl assms(2)] by (simp add: sequence_dif_def)

lemma dequeue_dif_empty:
  assumes "mpmc_inv E D q" and "D = E"
  shows "sequence_dif (slot_sequence (pq_slots q ! (D mod length (pq_slots q)))) (2 * of_nat D + 1) < 0"
  using mpmc_invD(9) [OF assms(1), of D] mpmc_invD(1) [OF assms(1)] assms(2) by (simp add: sequence_dif_def)

text \<open>What a won ticket does to the ring, wrapped or not.\<close>

lemma mpmc_enqueue_inv:
  fixes q :: "'a mpmc_queue" and v :: 'a
  assumes inv: "mpmc_inv E D q" and room: "E < D + length (pq_slots q)"
  defines "q' \<equiv> q\<lparr>pq_enqueue_pos := of_nat E + 1,
      pq_slots := (pq_slots q)[E mod length (pq_slots q) := \<lparr>slot_sequence = 2 * of_nat E + 1, slot_value = v\<rparr>]\<rparr>"
  shows "mpmc_inv (Suc E) D q'"
proof -
  let ?N = "length (pq_slots q)"
  note I = mpmc_invD [OF inv]
  have size: "vector_size (pq_slots q') = vector_size (pq_slots q)" "length (pq_slots q') = ?N"
    by (simp_all add: q'_def vector_size_def)
  have other: "pq_slots q' ! (t mod ?N) = pq_slots q ! (t mod ?N)" if "t \<noteq> E" "D \<le> t" "t < D + ?N" for t
  proof -
    have "t mod ?N \<noteq> E mod ?N"
      using that room I(6) mod_neq_within [of t E ?N] mod_neq_within [of E t ?N] by (cases "t < E") auto
    then show ?thesis by (simp add: q'_def)
  qed
  have here: "pq_slots q' ! (E mod ?N) = \<lparr>slot_sequence = 2 * of_nat E + 1, slot_value = v\<rparr>"
    using I(1) by (simp add: q'_def)
  have "slot_sequence (pq_slots q' ! (t mod ?N)) = of_nat (2 * t + 1)" if "D \<le> t" "t < Suc E" for t
    using that other [of t] here I(8) [of t] room by (cases "t = E") simp_all
  moreover have "slot_sequence (pq_slots q' ! (t mod ?N)) = of_nat (2 * t)" if "Suc E \<le> t" "t < D + ?N" for t
    using that other [of t] I(6,9) by simp
  moreover have "mask_ok q'"
    using I(3) size by (simp add: mask_ok_def) (simp add: q'_def)
  ultimately show ?thesis
    using I room size by (simp add: mpmc_inv_def Let_def) (simp add: q'_def)
qed

lemma mpmc_dequeue_inv:
  fixes q :: "'a mpmc_queue" and s :: 'a
  assumes inv: "mpmc_inv E D q" and data: "D < E"
  defines "q' \<equiv> q\<lparr>pq_dequeue_pos := of_nat D + 1,
      pq_slots := (pq_slots q)[D mod length (pq_slots q) :=
        \<lparr>slot_sequence = 2 * (of_nat D + vector_size (pq_slots q)), slot_value = s\<rparr>]\<rparr>"
  shows "mpmc_inv E (Suc D) q'"
proof -
  let ?N = "length (pq_slots q)"
  note I = mpmc_invD [OF inv]
  have size: "vector_size (pq_slots q') = vector_size (pq_slots q)" "length (pq_slots q') = ?N"
    by (simp_all add: q'_def vector_size_def)
  have other: "pq_slots q' ! (t mod ?N) = pq_slots q ! (t mod ?N)" if "D < t" "t < D + ?N" for t
    using mod_neq_within [OF that] by (simp add: q'_def)
  have here: "slot_sequence (pq_slots q' ! ((D + ?N) mod ?N)) = of_nat (2 * (D + ?N))"
    using I(1) by (simp add: q'_def vector_size_def)
  have "slot_sequence (pq_slots q' ! (t mod ?N)) = of_nat (2 * t + 1)" if "Suc D \<le> t" "t < E" for t
    using that other [of t] I(7) I(8) [of t] by simp
  moreover have "slot_sequence (pq_slots q' ! (t mod ?N)) = of_nat (2 * t)" if "E \<le> t" "t < Suc D + ?N" for t
    using that other [of t] here I(9) [of t] data by (cases "t = D + ?N") simp_all
  moreover have "mask_ok q'"
    using I(3) size by (simp add: mask_ok_def) (simp add: q'_def)
  ultimately show ?thesis
    using I data size by (simp add: mpmc_inv_def Let_def) (simp add: q'_def)
qed

lemma mpmc_enqueue_step:
  fixes q :: "'a mpmc_queue" and v :: 'a
  assumes inv: "mpmc_inv E D q" and hor: "ticket_horizon (Suc n) E q" and room: "E < D + length (pq_slots q)"
  defines "q' \<equiv> q\<lparr>pq_enqueue_pos := of_nat E + 1,
      pq_slots := (pq_slots q)[E mod length (pq_slots q) := \<lparr>slot_sequence = 2 * of_nat E + 1, slot_value = v\<rparr>]\<rparr>"
  shows "mpmc_inv (Suc E) D q'" and "ticket_horizon n (Suc E) q'"
    and "mpmc_view q' = (mpmc_view q)\<lparr>items := items (mpmc_view q) @ [v]\<rparr>"
proof -
  let ?N = "length (pq_slots q)"
  note I = mpmc_invD [OF inv]
  show inv': "mpmc_inv (Suc E) D q'"
    unfolding q'_def by (rule mpmc_enqueue_inv [OF inv room])
  have size: "vector_size (pq_slots q') = vector_size (pq_slots q)" "length (pq_slots q') = ?N"
    by (simp_all add: q'_def vector_size_def)
  show hor': "ticket_horizon n (Suc E) q'"
    using hor size by (simp add: ticket_horizon_def)
  have vs: "map slot_value (pq_slots q') = (map slot_value (pq_slots q))[E mod ?N := v]"
    by (simp add: q'_def map_update)
  have "items (mpmc_view q') = ring_items (map slot_value (pq_slots q')) D (Suc (E - D))"
    using mpmc_inv_items [OF inv' hor'] I(6) by (simp only: Suc_diff_le)
  also have "\<dots> = items (mpmc_view q) @ [v]"
    using ring_items_snoc [of "E - D" "map slot_value (pq_slots q)" D v] I(6) room vs
      mpmc_inv_items [OF inv hor] by (simp add: add_diff_inverse_nat del: mpmc_view_sel)
  finally show "mpmc_view q' = (mpmc_view q)\<lparr>items := items (mpmc_view q) @ [v]\<rparr>"
    by (simp add: mpmc_view_def size) (simp add: q'_def)
qed

lemma mpmc_dequeue_step:
  fixes q :: "'a mpmc_queue" and s :: 'a
  assumes inv: "mpmc_inv E D q" and hor: "ticket_horizon n E q" and data: "D < E"
  defines "q' \<equiv> q\<lparr>pq_dequeue_pos := of_nat D + 1,
      pq_slots := (pq_slots q)[D mod length (pq_slots q) :=
        \<lparr>slot_sequence = 2 * (of_nat D + vector_size (pq_slots q)), slot_value = s\<rparr>]\<rparr>"
  shows "mpmc_inv E (Suc D) q'" and "ticket_horizon n E q'"
    and "items (mpmc_view q) = slot_value (pq_slots q ! (D mod length (pq_slots q))) # items (mpmc_view q')"
    and "mpmc_view q' = (mpmc_view q)\<lparr>items := items (mpmc_view q')\<rparr>"
proof -
  let ?N = "length (pq_slots q)"
  note I = mpmc_invD [OF inv]
  show inv': "mpmc_inv E (Suc D) q'"
    unfolding q'_def by (rule mpmc_dequeue_inv [OF inv data])
  have size: "vector_size (pq_slots q') = vector_size (pq_slots q)" "length (pq_slots q') = ?N"
    by (simp_all add: q'_def vector_size_def)
  show hor': "ticket_horizon n E q'"
    using hor size by (simp add: ticket_horizon_def)
  have vs: "map slot_value (pq_slots q') = (map slot_value (pq_slots q))[D mod ?N := s]"
    by (simp add: q'_def map_update)
  have "items (mpmc_view q) = ring_items (map slot_value (pq_slots q)) D (Suc (E - Suc D))"
    using mpmc_inv_items [OF inv hor] data by (simp only: Suc_diff_Suc)
  also have "\<dots> = slot_value (pq_slots q ! (D mod ?N)) # ring_items (map slot_value (pq_slots q)) (D + 1) (E - Suc D)"
    using I(1) by (subst ring_items_Suc_any) simp_all
  also have "ring_items (map slot_value (pq_slots q)) (D + 1) (E - Suc D) = items (mpmc_view q')"
  proof -
    have "D + 1 + (?N - 1) = D + ?N"
      using I(1) by simp
    then have "(D + 1 + (?N - 1)) mod ?N = D mod ?N"
      by (simp only: mod_add_self2)
    then show ?thesis
      using ring_items_update_outside [of "E - Suc D" "?N - 1" "map slot_value (pq_slots q)" "D + 1" s]
        mpmc_inv_items [OF inv' hor'] I(1,7) vs by simp
  qed
  finally show "items (mpmc_view q) = slot_value (pq_slots q ! (D mod ?N)) # items (mpmc_view q')" .
  show "mpmc_view q' = (mpmc_view q)\<lparr>items := items (mpmc_view q')\<rparr>"
    by (simp add: mpmc_view_def size) (simp add: q'_def)
qed

section \<open>Construction\<close>

lemma length_init_sequences [simp]: "length (init_sequences slots) = length slots"
  by (simp add: init_sequences_def)

text \<open>
  \<open>sz\<close> is \<^verbatim>\<open>sizeof(Slot)\<close>, which holds an 8-byte sequence and a value; that keeps the
  capacity small enough for doubled tickets of one lap to stay within half the word.
\<close>

lemma mpmc_new_inv:
  assumes "mpmc_new sz dflt capacity = Inr q" and "8 < sz"
  shows "mpmc_inv 0 0 q" and "vector_size (pq_slots q) = capacity"
    and "mpmc_view q = \<lparr>items = [], bound = unat capacity, shut = False\<rparr>"
    and "capacity \<noteq> 0" and "unat capacity \<le> vector_max_size sz"
proof -
  obtain slots where slots: "vector_new sz \<lparr>slot_sequence = 0, slot_value = dflt\<rparr> capacity = Inr slots"
      and c: "capacity \<noteq> 0"
      and q: "q = \<lparr>pq_slots = init_sequences slots,
               pq_mask = (if has_single_bit capacity then capacity - 1 else 0),
               pq_enqueue_pos = 0, pq_dequeue_pos = 0, pq_closed = False\<rparr>"
    using assms(1) by (auto simp: mpmc_new_def make_slots_def split: sum.splits if_splits)
  note B = vector_new_Inr [OF slots]
  have N: "length (pq_slots q) = unat capacity"
    by (simp add: q B(1))
  then show vs: "vector_size (pq_slots q) = capacity"
    by (simp add: vector_size_def)
  have "unat capacity * 2 \<le> unat capacity * sz"
    using assms(2) by (intro mult_le_mono2) simp
  moreover have "unat capacity * sz < 2 ^ 63"
    using vector_max_size_less [OF _ B(2)] assms(2) by simp
  ultimately have "unat capacity * 2 < 2 ^ 63"
    by (rule le_less_trans)
  then have less: "unat capacity < 2 ^ 62"
    by simp
  have "slot_sequence (pq_slots q ! (t mod unat capacity)) = of_nat (2 * t)" if "t < unat capacity" for t
    using that by (simp add: q init_sequences_def B(1))
  moreover have "mask_ok q"
    using vs by (simp add: mask_ok_def) (simp add: q)
  ultimately show "mpmc_inv 0 0 q"
    using c less N by (simp add: mpmc_inv_def Let_def unat_gt_0) (simp add: q)
  show "mpmc_view q = \<lparr>items = [], bound = unat capacity, shut = False\<rparr>"
    using N by (simp add: mpmc_view_def mpmc_len_def) (simp add: q)
  show "capacity \<noteq> 0" "unat capacity \<le> vector_max_size sz"
    by (rule c, rule B)
qed

lemma mpmc_new_wf:
  assumes "mpmc_new sz dflt capacity = Inr q" and "8 < sz" and "has_single_bit capacity \<or> n < 2 ^ 64"
  shows "mpmc_wf n q"
  using mpmc_new_inv(1,2) [OF assms(1,2)] assms(3) by (auto simp: mpmc_wf_def ticket_horizon_def)

section \<open>The claim loops\<close>

text \<open>
  With no interference the loops end at the first pass whose compare-exchange does not fail
  spuriously, or at once when the ring is full (empty).
\<close>

lemma try_enqueue_full:
  assumes inv: "mpmc_inv E D q" and hor: "ticket_horizon n E q" and full: "E = D + length (pq_slots q)"
  shows "try_enqueue (c # cas) mv v q = Done False (q, v)"
  using enqueue_dif_full [OF inv full] mpmc_slot_of [OF inv horizon_ticket [OF hor order_refl]] mpmc_invD(4) [OF inv]
  by (simp add: try_enqueue_def Let_def)

lemma try_dequeue_empty:
  assumes inv: "mpmc_inv E D q" and hor: "ticket_horizon n E q" and emp: "D = E"
  shows "try_dequeue (c # cas) mv out q = Done False (q, out)"
  using dequeue_dif_empty [OF inv emp] mpmc_slot_of [OF inv horizon_ticket [OF hor], of D] mpmc_invD(5) [OF inv] emp
  by (simp add: try_dequeue_def Let_def)

lemma try_enqueue_loop_room:
  assumes inv: "mpmc_inv E D q" and hor: "has_single_bit (vector_size (pq_slots q)) \<or> E < 2 ^ 64"
    and room: "E < D + length (pq_slots q)" and mv: "mv (slot_value (pq_slots q ! (E mod length (pq_slots q)))) v = Moved v s"
    and cas: "False \<in> set cas"
  shows "try_enqueue_loop cas mv (of_nat E) v q =
    Done True
      (q\<lparr>pq_enqueue_pos := of_nat E + 1,
         pq_slots := (pq_slots q)[E mod length (pq_slots q) :=
           \<lparr>slot_sequence = 2 * of_nat E + 1, slot_value = v\<rparr>]\<rparr>, s)"
  using cas
proof (induction cas)
  case Nil
  then show ?case by simp
next
  case (Cons c cas)
  then show ?case
    using enqueue_dif_room [OF inv room] mpmc_slot_of [OF inv hor] mpmc_invD(4) [OF inv] mv
    by (cases c) (simp_all add: compare_exchange_weak_def Let_def)
qed

lemma try_dequeue_loop_data:
  assumes inv: "mpmc_inv E D q" and hor: "has_single_bit (vector_size (pq_slots q)) \<or> D < 2 ^ 64" and data: "D < E"
    and x: "slot_value (pq_slots q ! (D mod length (pq_slots q))) = x" and mv: "mv out x = Moved x s"
    and cas: "False \<in> set cas"
  shows "try_dequeue_loop cas mv (of_nat D) out q =
    Done True
      (q\<lparr>pq_dequeue_pos := of_nat D + 1,
         pq_slots := (pq_slots q)[D mod length (pq_slots q) :=
           \<lparr>slot_sequence = 2 * (of_nat D + vector_size (pq_slots q)), slot_value = s\<rparr>]\<rparr>, x)"
  using cas
proof (induction cas)
  case Nil
  then show ?case by simp
next
  case (Cons c cas)
  then show ?case
    using dequeue_dif_data [OF inv data] mpmc_slot_of [OF inv hor]
      mpmc_invD(5) [OF inv] mv x
    by (cases c) (simp_all add: compare_exchange_weak_def Let_def)
qed

section \<open>MpmcQueue provides the contract\<close>

text \<open>
  The weak compare-exchange: an attempt's schedule must let some pass through, or the loop
  would spin forever.
\<close>

locale weak_cas = nothrow_move_assignable mv for mv :: "'a move" +
  fixes cas :: "bool list"
  assumes eventually: "False \<in> set cas"
begin

lemma cas_Cons: "\<exists>c cs. cas = c # cs"
  using eventually by (cases cas) auto

lemma try_enqueue_refines:
  assumes wf: "mpmc_wf (Suc n) q"
  shows "\<exists>q' v'. try_enqueue cas mv v q = Done (\<not> fifo_full (mpmc_view q)) (q', v') \<and> mpmc_wf n q' \<and>
    mpmc_view q' = (if fifo_full (mpmc_view q) then mpmc_view q
      else (mpmc_view q)\<lparr>items := items (mpmc_view q) @ [v]\<rparr>) \<and>
    (fifo_full (mpmc_view q) \<longrightarrow> q' = q \<and> v' = v)"
proof -
  obtain E D where inv: "mpmc_inv E D q" and hor: "ticket_horizon (Suc n) E q"
    using wf by (auto simp: mpmc_wf_def)
  have hor': "ticket_horizon n E q"
    using hor by (auto simp: ticket_horizon_def)
  have full: "fifo_full (mpmc_view q) \<longleftrightarrow> E = D + length (pq_slots q)"
    using mpmc_inv_len [OF inv] mpmc_invD(6) [OF inv] by (auto simp: fifo_full_def)
  show ?thesis
  proof (cases "fifo_full (mpmc_view q)")
    case True
    then have "try_enqueue cas mv v q = Done False (q, v)"
      using try_enqueue_full [OF inv hor] full cas_Cons by metis
    with True inv hor' show ?thesis by (auto simp: mpmc_wf_def)
  next
    case False
    then have room: "E < D + length (pq_slots q)"
      using full mpmc_invD(7) [OF inv] by simp
    obtain s where s: "mv (slot_value (pq_slots q ! (E mod length (pq_slots q)))) v = Moved v s"
      using moved by blast
    show ?thesis
      using try_enqueue_loop_room [where mv = mv and v = v, OF inv horizon_ticket [OF hor order_refl] room s eventually] mpmc_enqueue_step [OF inv hor room, of v]
        False mpmc_invD(4) [OF inv]
      by (auto simp: try_enqueue_def mpmc_wf_def simp del: mpmc_view_sel)
  qed
qed

lemma try_dequeue_refines:
  assumes wf: "mpmc_wf n q"
  shows "\<exists>q'. try_dequeue cas mv out q =
      Done (fst (fst (fifo_try_pop out (mpmc_view q)))) (q', snd (fst (fifo_try_pop out (mpmc_view q)))) \<and>
    mpmc_view q' = snd (fifo_try_pop out (mpmc_view q)) \<and> mpmc_wf n q' \<and>
    (items (mpmc_view q) = [] \<longrightarrow> q' = q)"
proof -
  obtain E D where inv: "mpmc_inv E D q" and hor: "ticket_horizon n E q"
    using wf by (auto simp: mpmc_wf_def)
  have emp: "items (mpmc_view q) = [] \<longleftrightarrow> D = E"
    using mpmc_inv_len [OF inv] mpmc_invD(6) [OF inv] by auto
  show ?thesis
  proof (cases "items (mpmc_view q)")
    case Nil
    then have "try_dequeue cas mv out q = Done False (q, out)"
      using try_dequeue_empty [OF inv hor] emp cas_Cons by metis
    with Nil wf show ?thesis by (auto simp: fifo_try_pop_def simp del: mpmc_view_sel)
  next
    case (Cons x xs)
    then have data: "D < E"
      using emp mpmc_invD(6) [OF inv] by (simp del: mpmc_view_sel)
    obtain s where s: "mv out x = Moved x s"
      using moved by blast
    note st = mpmc_dequeue_step [OF inv hor data, where s = s]
    have x: "slot_value (pq_slots q ! (D mod length (pq_slots q))) = x"
      using st(3) Cons by (simp del: mpmc_view_sel)
    show ?thesis
      using try_dequeue_loop_data [where mv = mv and out = out, OF inv horizon_ticket [OF hor less_imp_le [OF data]] data x s eventually] st Cons mpmc_invD(5) [OF inv]
      by (auto simp: try_dequeue_def mpmc_wf_def fifo_try_pop_def simp del: mpmc_view_sel)
  qed
qed

end

lemma mpmc_close_view: "mpmc_view (mpmc_close q) = fifo_close (mpmc_view q)"
  by (simp add: mpmc_close_def mpmc_view_def fifo_close_def mpmc_len_def)

lemma mpmc_close_wf [simp]: "mpmc_wf n (mpmc_close q) = mpmc_wf n q"
  by (simp add: mpmc_close_def mpmc_wf_def mpmc_inv_def ticket_horizon_def mask_ok_def)

lemma mpmc_view_ok: "mpmc_wf n q \<Longrightarrow> fifo_ok (mpmc_view q)"
  using mpmc_invD(1,7) mpmc_inv_len by (fastforce simp: mpmc_wf_def fifo_ok_def)

lemma mpmc_wf_less: "mpmc_wf (Suc n) q \<Longrightarrow> mpmc_wf n q"
  by (auto simp: mpmc_wf_def ticket_horizon_def)

lemma unat_mpmc_size:
  assumes "mpmc_wf n q"
  shows "unat (mpmc_size q) = mpmc_len q"
proof -
  obtain E D where inv: "mpmc_inv E D q"
    using assms by (auto simp: mpmc_wf_def)
  note I = mpmc_invD [OF inv]
  have dif: "pq_enqueue_pos q - pq_dequeue_pos q = of_nat (E - D)"
    using I(6) by (simp add: I(4,5) of_nat_diff)
  have len: "E - D \<le> length (pq_slots q)"
    using I(7) by simp
  have "sint (of_nat (E - D) :: usize) = int (E - D)"
    using len I(2) by (intro sint_of_nat) simp
  moreover have "(of_nat (E - D) :: usize) < vector_size (pq_slots q) \<longleftrightarrow> E - D < length (pq_slots q)"
    using len I(2) unat_of_nat_usize [of "E - D"] unat_vector_size [of "pq_slots q"]
    by (simp add: word_less_nat_alt)
  ultimately show ?thesis
    using len I(2) mpmc_inv_len [OF inv] unat_of_nat_usize [of "E - D"] unat_vector_size [of "pq_slots q"]
    by (simp add: mpmc_size_def mpmc_size_of_def dif Let_def)
qed

lemma unat_mpmc_capacity:
  assumes "mpmc_wf n q"
  shows "unat (mpmc_capacity q) = length (pq_slots q)"
proof -
  obtain E D where "mpmc_inv E D q"
    using assms by (auto simp: mpmc_wf_def)
  then have "length (pq_slots q) < 2 ^ 62"
    by (rule mpmc_invD)
  then show ?thesis
    by (simp add: mpmc_capacity_def unat_vector_size)
qed

sublocale weak_cas \<subseteq> mpmc: bounded_fifo "mpmc_ops cas mv" mpmc_wf mpmc_view
proof unfold_locales
  fix n :: nat and q :: "'a mpmc_queue" and v out :: 'a
  show "mpmc_wf (Suc n) q \<Longrightarrow> mpmc_wf n q"
    by (rule mpmc_wf_less)
  show "\<exists>q'. op_try_push (mpmc_ops cas mv) v q = Done (fst (fifo_try_push v (mpmc_view q))) q' \<and>
      mpmc_view q' = snd (fifo_try_push v (mpmc_view q)) \<and> mpmc_wf n q'" if "mpmc_wf (Suc n) q"
    using try_enqueue_refines [OF that, of v] mpmc_wf_less [OF that]
    by (auto simp: mpmc_ops_def mpmc_try_push_def fifo_try_push_def drop_argument_def)
  assume wf: "mpmc_wf n q"
  show "fifo_ok (mpmc_view q)"
    by (rule mpmc_view_ok [OF wf])
  show "\<exists>q'. op_try_pop (mpmc_ops cas mv) out q =
        Done (fst (fst (fifo_try_pop out (mpmc_view q)))) (q', snd (fst (fifo_try_pop out (mpmc_view q)))) \<and>
      mpmc_view q' = snd (fifo_try_pop out (mpmc_view q)) \<and> mpmc_wf n q'"
    using try_dequeue_refines [OF wf, of out] by (auto simp: mpmc_ops_def mpmc_try_pop_def)
  show "mpmc_view (op_close (mpmc_ops cas mv) q) = fifo_close (mpmc_view q) \<and>
      mpmc_wf n (op_close (mpmc_ops cas mv) q)"
    using wf by (simp add: mpmc_ops_def mpmc_close_view)
  show "op_closed (mpmc_ops cas mv) q = shut (mpmc_view q)"
    by (simp add: mpmc_ops_def mpmc_closed_def)
  show "unat (op_size (mpmc_ops cas mv) q) = length (items (mpmc_view q))"
    using unat_mpmc_size [OF wf] by (simp add: mpmc_ops_def)
  show "unat (op_capacity (mpmc_ops cas mv) q) = bound (mpmc_view q)"
    using unat_mpmc_capacity [OF wf] by (simp add: mpmc_ops_def)
qed

interpretation scalar_cas: weak_cas scalar_move "[True, False]"
  by unfold_locales simp

text \<open>What the interface gives every client of this queue.\<close>

context weak_cas
begin

lemmas mpmc_run_refines = mpmc.run_refines
lemmas mpmc_bounded_fifo = mpmc.bounded_fifo_axioms
lemmas mpmc_drain_closed = mpmc.drain_closed
lemmas mpmc_offer_outcome = mpmc.offer_outcome

end

section \<open>MpmcQueue provides the blocking calls\<close>

definition mpmc_others ::
  "bool list \<Rightarrow> 'a move \<Rightarrow> 'a call list list \<Rightarrow> ((pause \<Rightarrow> 'a mpmc_queue \<Rightarrow> 'a mpmc_queue) \<times> bool list) list" where
  "mpmc_others cas mv css = map (\<lambda>cs. (\<lambda>p. meanwhile (mpmc_ops cas mv) cs, cas)) css"

definition mpmc_push_at ::
  "bool list \<Rightarrow> 'a move \<Rightarrow> nat \<Rightarrow> 'a call list list \<Rightarrow> 'a \<Rightarrow> 'a mpmc_queue \<Rightarrow> ('a mpmc_queue, bool) outcome" where
  "mpmc_push_at cas mv k css value q =
     drop_argument (mpmc_push_loop cas (mpmc_others cas mv css) (backoff_at k) mv value q)"

definition mpmc_pop_at ::
  "bool list \<Rightarrow> 'a move \<Rightarrow> nat \<Rightarrow> 'a call list list \<Rightarrow> 'a \<Rightarrow> 'a mpmc_queue \<Rightarrow> ('a mpmc_queue \<times> 'a, bool) outcome" where
  "mpmc_pop_at cas mv k css out q = mpmc_pop_loop cas cas (mpmc_others cas mv css) (backoff_at k) mv out q"

lemma mpmc_push_at_0: "mpmc_push cas (mpmc_others cas mv css) mv v q = mpmc_push_at cas mv 0 css v q"
  by (simp add: mpmc_push_def mpmc_push_at_def)

lemma mpmc_pop_at_0: "mpmc_pop cas cas (mpmc_others cas mv css) mv out q = mpmc_pop_at cas mv 0 css out q"
  by (simp add: mpmc_pop_def mpmc_pop_at_def)

sublocale weak_cas \<subseteq> mpmc_blocking: blocking_fifo "mpmc_ops cas mv" mpmc_wf mpmc_view
  "mpmc_push_at cas mv" "mpmc_pop_at cas mv" "\<lambda>_. True" "\<lambda>_. True"
proof unfold_locales
  fix n k :: nat and q :: "'a mpmc_queue" and v out x :: 'a and css and xs :: "'a list"
  note push_simps = mpmc_push_at_def mpmc_push_loop.simps [of _ _ _ _ _ q] drop_argument_def mpmc_others_def backoff_wait_at
  note pop_simps = mpmc_pop_at_def mpmc_pop_loop.simps [of _ _ _ _ _ _ q] mpmc_others_def backoff_wait_at
  show "\<exists>q'. mpmc_push_at cas mv k css v q = Done False q' \<and> mpmc_view q' = mpmc_view q \<and> mpmc_wf n q'"
    if "mpmc_wf (Suc n) q" "shut (mpmc_view q)"
    using that mpmc_wf_less [OF that(1)] by (simp add: push_simps)
  show "\<exists>q'. mpmc_push_at cas mv k css v q = Done True q' \<and>
      mpmc_view q' = (mpmc_view q)\<lparr>items := items (mpmc_view q) @ [v]\<rparr> \<and> mpmc_wf n q'"
    if "mpmc_wf (Suc n) q" "\<not> shut (mpmc_view q)" "\<not> fifo_full (mpmc_view q)"
    using that try_enqueue_refines [OF that(1), of v] by (auto simp: push_simps)
  show "\<exists>q'. mpmc_view q' = mpmc_view q \<and> mpmc_wf (Suc n) q' \<and> mpmc_push_at cas mv k [] v q = Waiting q' \<and>
      (\<forall>cs css. list_all (\<lambda>_. True) cs \<and> pushes cs \<le> n \<longrightarrow>
        mpmc_push_at cas mv k (cs # css) v q = mpmc_push_at cas mv (Suc k) css v (meanwhile (mpmc_ops cas mv) cs q'))"
    if "mpmc_wf (Suc n) q" "\<not> shut (mpmc_view q)" "fifo_full (mpmc_view q)"
    using that try_enqueue_refines [OF that(1), of v] by (intro exI [of _ q]) (auto simp: push_simps)
  show "\<exists>q'. mpmc_pop_at cas mv k css out q = Done True (q', x) \<and>
      mpmc_view q' = (mpmc_view q)\<lparr>items := xs\<rparr> \<and> mpmc_wf n q'"
    if "mpmc_wf n q" "items (mpmc_view q) = x # xs"
    using that(2) try_dequeue_refines [OF that(1), of out] by (auto simp: pop_simps fifo_try_pop_def simp del: mpmc_view_sel)
  show "\<exists>q'. mpmc_pop_at cas mv k css out q = Done False (q', out) \<and> mpmc_view q' = mpmc_view q \<and> mpmc_wf n q'"
    if "mpmc_wf n q" "items (mpmc_view q) = []" "shut (mpmc_view q)"
  proof -
    have "try_dequeue cas mv out q = Done False (q, out)"
      using that(2) try_dequeue_refines [OF that(1), of out] by (auto simp: fifo_try_pop_def simp del: mpmc_view_sel)
    then show ?thesis
      using that by (simp add: pop_simps)
  qed
  show "\<exists>q'. mpmc_view q' = mpmc_view q \<and> mpmc_wf n q' \<and> mpmc_pop_at cas mv k [] out q = Waiting (q', out) \<and>
      (\<forall>cs css. list_all (\<lambda>_. True) cs \<and> pushes cs \<le> n \<longrightarrow>
        mpmc_pop_at cas mv k (cs # css) out q = mpmc_pop_at cas mv (Suc k) css out (meanwhile (mpmc_ops cas mv) cs q'))"
    if "mpmc_wf n q" "items (mpmc_view q) = []" "\<not> shut (mpmc_view q)"
  proof -
    have "try_dequeue cas mv out q = Done False (q, out)"
      using that(2) try_dequeue_refines [OF that(1), of out] by (auto simp: fifo_try_pop_def simp del: mpmc_view_sel)
    then show ?thesis
      using that by (intro exI [of _ q]) (simp add: pop_simps)
  qed
qed

context weak_cas
begin

lemmas mpmc_push_refines = mpmc_blocking.push_refines
lemmas mpmc_pop_refines = mpmc_blocking.pop_refines

end

end
