(* ===== verification/Queue_Typing.thy ===== *)
theory Queue_Typing
  imports Mutex_Queue Spsc_Queue Mpmc_Queue
begin

text \<open>
  The public members of the three classes as one language of calls, what the compiler accepts
  of it (which class has which member, and the \<^verbatim>\<open>static_assert\<close>s on the element type), and that
  what it accepts does not go wrong when the calls are made one at a time on a live queue: a client
  may catch what a call throws, leave a call waiting, come back to it after other calls, and never
  indexes outside a buffer or reaches \<^verbatim>\<open>std::terminate\<close>. What calls do that run at the same time is
  the subject of the concurrent theories; breaking the thread limits of a class, or destroying a
  queue in use, compiles and is undefined behaviour.
\<close>

section \<open>Calls\<close>

text \<open>
  \<open>Push_for\<close> and \<open>Pop_for\<close> carry whether the timeout has elapsed when the predicate does not
  hold; \<open>Push_n\<close> and \<open>Pop_n\<close> the span.
\<close>

datatype 'a member_call =
    Push 'a | Push_try 'a | Push_for bool 'a | Push_n "'a list"
  | Pop 'a | Pop_try 'a | Pop_for bool 'a | Pop_n "'a list" | Shut

definition forget :: "('s \<Rightarrow> 'q) \<Rightarrow> ('s, 'r) outcome \<Rightarrow> ('q, unit) outcome" where
  "forget f r = map_outcome f (\<lambda>_. ()) r"

text \<open>
  A call that waits leaves the queue to the others; calling it again is its next wake-up. A
  member the class does not have is no call at all.
\<close>

fun mutex_call :: "'a move \<Rightarrow> 'a member_call \<Rightarrow> 'a mutex_queue \<Rightarrow> ('a mutex_queue, unit) outcome" where
  "mutex_call mv (Push v) q = forget id (mutex_push [] mv v q)"
| "mutex_call mv (Push_try v) q = forget id (mutex_try_push mv v q)"
| "mutex_call mv (Push_for elapsed v) q = forget id (mutex_try_push_for (if elapsed then [Timed_out id] else []) mv v q)"
| "mutex_call mv (Push_n xs) q = Crash"
| "mutex_call mv (Pop out) q = forget fst (mutex_pop [] mv out q)"
| "mutex_call mv (Pop_try out) q = forget fst (mutex_try_pop mv out q)"
| "mutex_call mv (Pop_for elapsed out) q = forget fst (mutex_try_pop_for (if elapsed then [Timed_out id] else []) mv out q)"
| "mutex_call mv (Pop_n xs) q = Crash"
| "mutex_call mv Shut q = Done () (mutex_close q)"

fun spsc_call :: "'a move \<Rightarrow> 'a member_call \<Rightarrow> 'a spsc_queue \<Rightarrow> ('a spsc_queue, unit) outcome" where
  "spsc_call mv (Push v) q = forget id (spsc_push [] mv v q)"
| "spsc_call mv (Push_try v) q = forget id (spsc_try_push mv v q)"
| "spsc_call mv (Push_for elapsed v) q = Crash"
| "spsc_call mv (Push_n xs) q = forget fst (try_push_n mv xs q)"
| "spsc_call mv (Pop out) q = forget fst (spsc_pop [] mv out q)"
| "spsc_call mv (Pop_try out) q = forget fst (spsc_try_pop mv out q)"
| "spsc_call mv (Pop_for elapsed out) q = Crash"
| "spsc_call mv (Pop_n out) q = forget fst (try_pop_n mv out q)"
| "spsc_call mv Shut q = Done () (spsc_close q)"

fun mpmc_call :: "bool list \<Rightarrow> 'a move \<Rightarrow> 'a member_call \<Rightarrow> 'a mpmc_queue \<Rightarrow> ('a mpmc_queue, unit) outcome" where
  "mpmc_call cas mv (Push v) q = forget id (mpmc_push cas [] mv v q)"
| "mpmc_call cas mv (Push_try v) q = forget id (mpmc_try_push cas mv v q)"
| "mpmc_call cas mv (Pop out) q = forget fst (mpmc_pop cas cas [] mv out q)"
| "mpmc_call cas mv (Pop_try out) q = forget fst (mpmc_try_pop cas mv out q)"
| "mpmc_call cas mv Shut q = Done () (mpmc_close q)"
| "mpmc_call cas mv _ q = Crash"

section \<open>What compiles\<close>

text \<open>
  \<open>nothrow\<close> is \<^verbatim>\<open>std::is_nothrow_move_assignable_v<T>\<close>: \<open>MutexQueue\<close> does not ask for it, \<open>SpscQueue\<close>
  in the bulk members only, \<open>MpmcQueue\<close> for the whole class. The size of a span is a
  \<^verbatim>\<open>std::size_t\<close>.
\<close>

fun mutex_typed :: "'a member_call \<Rightarrow> bool" where
  "mutex_typed (Push_n xs) = False"
| "mutex_typed (Pop_n xs) = False"
| "mutex_typed _ = True"

fun spsc_typed :: "bool \<Rightarrow> 'a member_call \<Rightarrow> bool" where
  "spsc_typed nothrow (Push_n xs) = (nothrow \<and> length xs < 2 ^ 64)"
| "spsc_typed nothrow (Pop_n xs) = (nothrow \<and> length xs < 2 ^ 64)"
| "spsc_typed nothrow (Push_for elapsed v) = False"
| "spsc_typed nothrow (Pop_for elapsed out) = False"
| "spsc_typed nothrow _ = True"

fun mpmc_typed :: "bool \<Rightarrow> 'a member_call \<Rightarrow> bool" where
  "mpmc_typed nothrow (Push_n xs) = False"
| "mpmc_typed nothrow (Pop_n xs) = False"
| "mpmc_typed nothrow (Push_for elapsed v) = False"
| "mpmc_typed nothrow (Pop_for elapsed out) = False"
| "mpmc_typed nothrow _ = nothrow"

fun pushes_item :: "'a member_call \<Rightarrow> nat" where
  "pushes_item (Push v) = 1"
| "pushes_item (Push_try v) = 1"
| "pushes_item _ = 0"

section \<open>Clients\<close>

text \<open>A client catches every exception and goes on; only undefined behaviour stops it.\<close>

fun run_client :: "('c \<Rightarrow> 'q \<Rightarrow> ('q, unit) outcome) \<Rightarrow> 'c list \<Rightarrow> 'q \<Rightarrow> 'q option" where
  "run_client call [] q = Some q"
| "run_client call (c # cs) q =
     (case call c q of
        Done _ q' \<Rightarrow> run_client call cs q'
      | Raised e q' \<Rightarrow> run_client call cs q'
      | Crash \<Rightarrow> None
      | Waiting q' \<Rightarrow> run_client call cs q')"

fun settled :: "('q \<Rightarrow> bool) \<Rightarrow> ('q, 'r) outcome \<Rightarrow> bool" where
  "settled ok (Done r q) = ok q"
| "settled ok (Raised e q) = ok q"
| "settled ok Crash = False"
| "settled ok (Waiting q) = ok q"

lemma settled_forget [simp]: "settled ok (forget f r) = settled (\<lambda>s. ok (f s)) r"
  by (cases r) (simp_all add: forget_def)

text \<open>Progress and preservation of one call give both for every client.\<close>

locale typed_queue =
  fixes call :: "'c \<Rightarrow> 'q \<Rightarrow> ('q, unit) outcome" and typed :: "'c \<Rightarrow> bool" and wf :: "nat \<Rightarrow> 'q \<Rightarrow> bool"
    and cost :: "'c \<Rightarrow> nat"
  assumes sound: "typed c \<Longrightarrow> wf (n + cost c) q \<Longrightarrow> settled (wf n) (call c q)"
begin

lemma client_sound:
  "list_all typed cs \<Longrightarrow> wf (n + sum_list (map cost cs)) q \<Longrightarrow> \<exists>q'. run_client call cs q = Some q' \<and> wf n q'"
proof (induction cs arbitrary: q)
  case (Cons c cs)
  then have "settled (wf (n + sum_list (map cost cs))) (call c q)"
    by (intro sound) (simp_all add: ac_simps)
  then show ?case
    using Cons.IH Cons.prems(1) by (cases "call c q") simp_all
qed simp

end

section \<open>The three classes are sound\<close>

context move_assignable
begin

lemma finish_push_settled:
  "mutex_wf q \<Longrightarrow> \<not> fifo_full (mutex_view q) \<Longrightarrow> settled mutex_wf (finish_push (enqueue_locked mv v q))"
  using mutex_finish_push [OF _ _ move_assignable_axioms, of q v] by auto

lemma finish_pop_settled:
  assumes "mutex_wf q" and "mq_size q \<noteq> 0"
  shows "settled (\<lambda>s. mutex_wf (fst s)) (finish_pop (dequeue_locked mv out q))"
proof -
  obtain x xs where its: "items (mutex_view q) = x # xs"
    using assms(2) mutex_empty_iff [of q] by (cases "items (mutex_view q)") auto
  show ?thesis
    using mutex_finish_pop [OF assms(1) its move_assignable_axioms, of out] by (auto simp del: mutex_view_sel)
qed

lemma mutex_push_settled:
  assumes "mutex_wf q"
  shows "settled mutex_wf (mutex_push [] mv v q)" "settled mutex_wf (mutex_try_push mv v q)"
    "settled mutex_wf (mutex_try_push_for [] mv v q)" "settled mutex_wf (mutex_try_push_for [Timed_out id] mv v q)"
  using finish_push_settled [OF assms] assms
  by (auto simp: mutex_push_step mutex_try_push_for_step mutex_try_push_pred not_full_or_closed_iff)

lemma mutex_pop_settled:
  assumes "mutex_wf q"
  shows "settled (\<lambda>s. mutex_wf (fst s)) (mutex_pop [] mv out q)" "settled (\<lambda>s. mutex_wf (fst s)) (mutex_try_pop mv out q)"
    "settled (\<lambda>s. mutex_wf (fst s)) (mutex_try_pop_for [] mv out q)"
    "settled (\<lambda>s. mutex_wf (fst s)) (mutex_try_pop_for [Timed_out id] mv out q)"
  using finish_pop_settled [OF assms] assms
  by (simp_all add: mutex_pop_step mutex_try_pop_for_step mutex_try_pop_pred)

lemma mutex_call_settled:
  assumes "mutex_typed c" and "mutex_wf q"
  shows "settled mutex_wf (mutex_call mv c q)"
  using assms mutex_push_settled [OF assms(2)] mutex_pop_settled [OF assms(2)] by (cases c) simp_all

lemma spsc_try_settled:
  assumes "spsc_wf q"
  shows "settled spsc_wf (spsc_try_push mv v q)" and "settled (\<lambda>s. spsc_wf (fst s)) (spsc_try_pop mv out q)"
  using spsc_try_push_result [OF assms move_assignable_axioms, of v]
    spsc_try_pop_result [OF assms move_assignable_axioms, of out] by auto

text \<open>A blocking call whose first pass goes through is an attempt; otherwise it waits.\<close>

lemma spsc_push_once:
  "settled ok (spsc_push [] mv v q) = settled ok (spsc_try_push mv v q)"
  by (auto simp: spsc_push_def spsc_push_loop.simps spsc_try_push_def Let_def split: prod.splits)

lemma spsc_pop_settled:
  assumes "spsc_wf q"
  shows "settled (\<lambda>s. spsc_wf (fst s)) (spsc_pop [] mv out q)"
  using spsc_try_pop_result [OF assms move_assignable_axioms, of out] spsc_try_settled(2)
  by (auto simp: spsc_pop_def spsc_pop_loop.simps split: prod.splits)

lemma spsc_call_settled:
  assumes "spsc_typed nothrow c" and "nothrow \<Longrightarrow> nothrow_move_assignable mv" and "spsc_wf q"
  shows "settled spsc_wf (spsc_call mv c q)"
  using assms(1,2) spsc_try_settled [OF assms(3)] spsc_pop_settled [OF assms(3)] assms(3)
    nothrow_move_assignable.try_push_n_result [of mv q] nothrow_move_assignable.try_pop_n_result [of mv q]
  by (cases c) (fastforce simp: spsc_push_once)+

end

context weak_cas
begin

lemma mpmc_push_settled:
  assumes "mpmc_wf (Suc n) q"
  shows "settled (mpmc_wf n) (mpmc_try_push cas mv v q)" and "settled (mpmc_wf n) (mpmc_push cas [] mv v q)"
  using try_enqueue_refines [OF assms, of v] mpmc_wf_less [OF assms]
  by (auto simp: mpmc_try_push_def mpmc_push_def mpmc_push_loop.simps drop_argument_def split: bool.splits prod.splits)

lemma mpmc_pop_settled:
  assumes "mpmc_wf n q"
  shows "settled (\<lambda>s. mpmc_wf n (fst s)) (mpmc_try_pop cas mv out q)"
    and "settled (\<lambda>s. mpmc_wf n (fst s)) (mpmc_pop cas cas [] mv out q)"
proof -
  have attempt: "settled (\<lambda>s. mpmc_wf n (fst s)) (try_dequeue cas mv out q)" if "mpmc_wf n q" for out q
    using try_dequeue_refines [OF that, of out] by auto
  then show "settled (\<lambda>s. mpmc_wf n (fst s)) (mpmc_try_pop cas mv out q)"
    using assms by (simp add: mpmc_try_pop_def)
  show "settled (\<lambda>s. mpmc_wf n (fst s)) (mpmc_pop cas cas [] mv out q)"
    using attempt [OF assms, of out] attempt
    by (cases "try_dequeue cas mv out q") (auto simp: mpmc_pop_def mpmc_pop_loop.simps split: bool.splits prod.splits)
qed

lemma mpmc_call_settled:
  assumes "mpmc_typed nothrow c" and "mpmc_wf (n + pushes_item c) q"
  shows "settled (mpmc_wf n) (mpmc_call cas mv c q)"
  using assms mpmc_push_settled mpmc_pop_settled by (cases c) simp_all

end

sublocale move_assignable \<subseteq> mutex_client: typed_queue "mutex_call mv" mutex_typed "\<lambda>_. mutex_wf" "\<lambda>_. 0"
  by unfold_locales (rule mutex_call_settled)

sublocale move_assignable \<subseteq> spsc_client: typed_queue "spsc_call mv" "spsc_typed False" "\<lambda>_. spsc_wf" "\<lambda>_. 0"
  by unfold_locales (rule spsc_call_settled [of False], simp_all)

sublocale nothrow_move_assignable \<subseteq> spsc_bulk_client: typed_queue "spsc_call mv" "spsc_typed True" "\<lambda>_. spsc_wf" "\<lambda>_. 0"
  by unfold_locales (rule spsc_call_settled [OF _ nothrow_move_assignable_axioms])

sublocale weak_cas \<subseteq> mpmc_client: typed_queue "mpmc_call cas mv" "mpmc_typed True" mpmc_wf pushes_item
  by unfold_locales (rule mpmc_call_settled)

context move_assignable
begin

lemmas mutex_client_sound = mutex_client.client_sound
lemmas spsc_client_sound = spsc_client.client_sound

end

context nothrow_move_assignable
begin

lemmas spsc_bulk_client_sound = spsc_bulk_client.client_sound

end

context weak_cas
begin

lemmas mpmc_client_sound = mpmc_client.client_sound

end

section \<open>Sequential clients\<close>

text \<open>An element type whose move assignment throws on negative values, as the tests' \<^verbatim>\<open>ThrowingMove\<close> can be made to.\<close>

definition fragile_move :: "int move" where
  "fragile_move d s = (if s < 0 then Move_threw d s else Moved s s)"

interpretation fragile: move_assignable fragile_move
  by unfold_locales (simp add: fragile_move_def split: if_splits)

text \<open>
  C9. Clients that make their calls one at a time, on a newly built queue that is not destroyed
  meanwhile: if every call compiles (it is a member of its class, and the bulk members of
  \<open>SpscQueue\<close> and \<open>MpmcQueue\<close> as a whole are used only with an element type whose move assignment
  is \<^verbatim>\<open>noexcept\<close>), then no sequence of calls reaches undefined behaviour or \<^verbatim>\<open>std::terminate\<close>,
  even where the client catches what a throwing move assignment throws or goes on with another
  call while a blocking one waits; and the queue it ends with is well formed.
  (\<open>MpmcQueue\<close>: within its ticket horizon, and if some compare-exchange attempt goes through.)
  Calls that run at the same time are outside this claim: a second producer of an \<open>SpscQueue\<close>
  compiles too, and is undefined behaviour.
\<close>

theorem sequential_clients_safe:
  assumes "move_assignable mv" and "nothrow \<Longrightarrow> nothrow_move_assignable mv" and "0 < sz" and "8 < slot"
    and "False \<in> set cas"
  shows "(\<forall>q. mutex_new sz dflt capacity = Inr q \<and> list_all mutex_typed cs \<longrightarrow>
      (\<exists>q'. run_client (mutex_call mv) cs q = Some q' \<and> mutex_wf q')) \<and>
    (\<forall>q. spsc_new sz dflt capacity = Inr q \<and> list_all (spsc_typed nothrow) cs \<longrightarrow>
      (\<exists>q'. run_client (spsc_call mv) cs q = Some q' \<and> spsc_wf q')) \<and>
    (\<forall>q. mpmc_new slot dflt capacity = Inr q \<and> nothrow \<and> list_all (mpmc_typed nothrow) cs \<and>
      (has_single_bit capacity \<or> sum_list (map pushes_item cs) < 2 ^ 64) \<longrightarrow>
      (\<exists>q'. run_client (mpmc_call cas mv) cs q = Some q' \<and> mpmc_wf 0 q'))"
proof (intro conjI allI impI, goal_cases)
  case (1 q)
  then have "mutex_wf q"
    by (auto intro: mutex_new_wf(1) [OF _ assms(3)])
  then show ?case
    using 1 move_assignable.mutex_client_sound [OF assms(1), of cs q] by simp
next
  case (2 q)
  then have "spsc_wf q"
    by (auto intro: spsc_new_wf(1) [OF _ assms(3)])
  then show ?case
    using 2 move_assignable.spsc_client_sound [OF assms(1), of cs q]
      nothrow_move_assignable.spsc_bulk_client_sound [OF assms(2), of cs q]
    by (cases nothrow) simp_all
next
  case (3 q)
  then have "weak_cas mv cas"
    using assms(2,5) by (simp add: weak_cas_def weak_cas_axioms_def)
  moreover have "mpmc_wf (0 + sum_list (map pushes_item cs)) q"
    using 3 by (auto intro!: mpmc_new_wf [OF _ assms(4)])
  ultimately show ?case
    using weak_cas.mpmc_client_sound [of mv cas cs 0 q] 3 by metis
qed

theorem sequential_clients_safe_witness:
  "\<exists>q'. run_client (spsc_call fragile_move) [Push 4, Push_try (- 1), Shut, Push 5, Pop 0, Pop 0]
      \<lparr>sq_buffer = [0, 0], sq_head = 0, sq_tail_cache = 0, sq_tail = 0, sq_head_cache = 0, sq_closed = False\<rparr> =
      Some q' \<and> spsc_wf q'"
proof -
  let ?cs = "[Push 4, Push_try (- 1), Shut, Push 5, Pop 0, Pop (0::int)]"
  have new: "spsc_new 4 (0::int) 1 =
      Inr \<lparr>sq_buffer = [0, 0], sq_head = 0, sq_tail_cache = 0, sq_tail = 0, sq_head_cache = 0, sq_closed = False\<rparr>"
    by (simp add: spsc_new_def ring_slots_def vector_new_def vector_max_size_def replicate_small)
  have typed: "list_all (spsc_typed False) ?cs"
    by simp
  show ?thesis
    using sequential_clients_safe [where mv = fragile_move and nothrow = False and sz = 4 and slot = 16 and cas = "[False]"
        and dflt = 0 and capacity = 1 and cs = ?cs, OF fragile.move_assignable_axioms]
      new typed by fastforce
qed

end
