(* ===== verification/Exception_Safety.thy ===== *)
theory Exception_Safety
  imports Mutex_Queue Spsc_Queue
begin

text \<open>
  What a call that moves one element does when the move assignment may throw, for \<open>MutexQueue\<close> and
  \<open>SpscQueue\<close> and for the non-blocking, the blocking and the timed calls alike: the state in which
  a call stops waiting is computed from its schedule (\<open>wake_state\<close>), and \<open>push_effect\<close> and
  \<open>pop_effect\<close> say what the call has done to that state on each of its outcomes.
\<close>

section \<open>Where a waiting call stops\<close>

text \<open>
  \<open>es\<close> is what other threads do at each wait, \<open>refresh\<close> what the failed pass before the wait leaves
  of the queue (\<open>SpscQueue\<close> has re-read the index of the other side).
\<close>

fun wake_state :: "('q \<Rightarrow> bool) \<Rightarrow> ('q \<Rightarrow> 'q) \<Rightarrow> 'q others list \<Rightarrow> 'q \<Rightarrow> 'q" where
  "wake_state ready refresh [] q = q"
| "wake_state ready refresh (e # es) q = (if ready q then q else wake_state ready refresh es (e (refresh q)))"

definition can_push :: "'a fifo \<Rightarrow> bool" where
  "can_push f \<longleftrightarrow> shut f \<or> \<not> fifo_full f"

definition can_pop :: "'a fifo \<Rightarrow> bool" where
  "can_pop f \<longleftrightarrow> shut f \<or> items f \<noteq> []"

text \<open>A timed call looks at the queue for the last time when its time is up.\<close>

fun until_timeout :: "'q wakeup list \<Rightarrow> 'q others list" where
  "until_timeout [] = []"
| "until_timeout (Woken e # es) = e # until_timeout es"
| "until_timeout (Timed_out e # es) = [e]"

fun times_out :: "'q wakeup list \<Rightarrow> bool" where
  "times_out [] = False"
| "times_out (Woken e # es) = times_out es"
| "times_out (Timed_out e # es) = True"

text \<open>The waits of \<open>SpscQueue\<close> from the \<open>k\<close>-th on, with the pauses that \<open>Backoff\<close> makes.\<close>

fun paused :: "nat \<Rightarrow> 'q meanwhile list \<Rightarrow> 'q others list" where
  "paused k [] = []"
| "paused k (e # es) = e (pause_at k) # paused (Suc k) es"

definition push_refresh :: "'a spsc_queue \<Rightarrow> 'a spsc_queue" where
  "push_refresh q = snd (has_room (spsc_next q (sq_tail q)) q)"

definition pop_refresh :: "'a spsc_queue \<Rightarrow> 'a spsc_queue" where
  "pop_refresh q = snd (has_data (sq_head q) q)"

text \<open>
  Other threads leave a well-formed queue. While the producer of \<open>SpscQueue\<close> waits they do not
  push, so the tail index is as it was; and nobody resizes the ring.
\<close>

definition keeps :: "('q \<Rightarrow> bool) \<Rightarrow> 'q others \<Rightarrow> bool" where
  "keeps ok e \<longleftrightarrow> (\<forall>q. ok q \<longrightarrow> ok (e q))"

definition no_producer :: "'a spsc_queue meanwhile \<Rightarrow> bool" where
  "no_producer e \<longleftrightarrow> (\<forall>p q. spsc_wf q \<longrightarrow>
     spsc_wf (e p q) \<and> sq_tail (e p q) = sq_tail q \<and> length (sq_buffer (e p q)) = length (sq_buffer q))"

section \<open>What a call has done\<close>

text \<open>
  \<open>q\<close> is the state found at the last look. \<open>waits\<close>: the call may not give up. \<open>note\<close> is the
  notification a successful call owes.
\<close>

definition push_effect :: "bool \<Rightarrow> ('q \<Rightarrow> bool) \<Rightarrow> ('q \<Rightarrow> 'a fifo) \<Rightarrow> ('q \<Rightarrow> signal list) \<Rightarrow> signal list \<Rightarrow>
    'a move \<Rightarrow> 'a \<Rightarrow> 'q \<Rightarrow> ('q, bool) outcome \<Rightarrow> bool" where
  "push_effect waits ok view sigs note mv v q r =
     (case r of
        Done b q' \<Rightarrow> ok q' \<and> (b, view q') = fifo_try_push v (view q) \<and>
          sigs q' = sigs q @ (if b then note else []) \<and> (waits \<and> \<not> b \<longrightarrow> shut (view q))
      | Raised e q' \<Rightarrow> e = Move_assignment_failed \<and> (\<exists>slot d s. mv slot v = Move_threw d s) \<and>
          \<not> shut (view q) \<and> \<not> fifo_full (view q) \<and> ok q' \<and> view q' = view q \<and> sigs q' = sigs q
      | Crash \<Rightarrow> False
      | Waiting q' \<Rightarrow> waits \<and> \<not> can_push (view q) \<and> ok q' \<and> view q' = view q \<and> sigs q' = sigs q)"

definition pop_effect :: "bool \<Rightarrow> ('q \<Rightarrow> bool) \<Rightarrow> ('q \<Rightarrow> 'a fifo) \<Rightarrow> ('q \<Rightarrow> signal list) \<Rightarrow> signal list \<Rightarrow>
    'a move \<Rightarrow> 'a \<Rightarrow> 'q \<Rightarrow> ('q \<times> 'a, bool) outcome \<Rightarrow> bool" where
  "pop_effect waits ok view sigs note mv out q r =
     (case r of
        Done b (q', x) \<Rightarrow> ok q' \<and> ((b, x), view q') = fifo_try_pop out (view q) \<and>
          sigs q' = sigs q @ (if b then note else []) \<and> (waits \<and> \<not> b \<longrightarrow> shut (view q))
      | Raised e (q', d) \<Rightarrow> e = Move_assignment_failed \<and> ok q' \<and> sigs q' = sigs q \<and>
          (\<exists>x xs s. items (view q) = x # xs \<and> mv out x = Move_threw d s \<and> view q' = (view q)\<lparr>items := s # xs\<rparr>)
      | Crash \<Rightarrow> False
      | Waiting (q', x) \<Rightarrow> waits \<and> \<not> can_pop (view q) \<and> x = out \<and> ok q' \<and> view q' = view q \<and> sigs q' = sigs q)"

abbreviation mutex_push_effect where
  "mutex_push_effect waits \<equiv> push_effect waits mutex_wf mutex_view mq_signals [Notify_one_not_empty]"

abbreviation mutex_pop_effect where
  "mutex_pop_effect waits \<equiv> pop_effect waits mutex_wf mutex_view mq_signals [Notify_one_not_full]"

abbreviation spsc_push_effect where
  "spsc_push_effect waits \<equiv> push_effect waits spsc_wf spsc_view (\<lambda>_. []) []"

abbreviation spsc_pop_effect where
  "spsc_pop_effect waits \<equiv> pop_effect waits spsc_wf spsc_view (\<lambda>_. []) []"

text \<open>A push that would have to wait and may not, or that may and does.\<close>

lemma push_effect_blocked:
  assumes "ok q'" and "view q' = view q" and "sigs q' = sigs q" and "\<not> can_push (view q)"
  shows "push_effect True ok view sigs note mv v q (Waiting q')" and "push_effect False ok view sigs note mv v q (Done False q')"
  using assms by (simp_all add: push_effect_def can_push_def fifo_try_push_def)

lemma pop_effect_blocked:
  assumes "ok q'" and "view q' = view q" and "sigs q' = sigs q" and "\<not> can_pop (view q)"
  shows "pop_effect True ok view sigs note mv out q (Waiting (q', out))"
    and "pop_effect False ok view sigs note mv out q (Done False (q', out))"
  using assms by (simp_all add: pop_effect_def can_pop_def fifo_try_pop_def)

section \<open>MutexQueue\<close>

lemmas mutex_blocked =
  push_effect_blocked [where ok = mutex_wf and view = mutex_view and sigs = mq_signals, OF _ refl refl]
  pop_effect_blocked [where ok = mutex_wf and view = mutex_view and sigs = mq_signals, OF _ refl refl]

lemma mutex_can_push: "mutex_wf q \<Longrightarrow> not_full_or_closed_locked q \<longleftrightarrow> can_push (mutex_view q)"
  by (simp add: not_full_or_closed_iff can_push_def)

lemma mutex_can_pop: "not_empty_or_closed_locked q \<longleftrightarrow> can_pop (mutex_view q)"
  by (simp add: not_empty_or_closed_iff can_pop_def)

context move_assignable
begin

lemma throws: "mv slot v = Move_threw d s \<Longrightarrow> \<exists>slot d s. mv slot v = Move_threw d s"
  by blast

text \<open>The critical section after the wait.\<close>

lemma mutex_push_section:
  assumes "mutex_wf q" and "can_push (mutex_view q)"
  shows "mutex_push_effect waits mv v q (if mq_closed q then Done False q else finish_push (enqueue_locked mv v q))"
  using assms mutex_finish_push [OF assms(1) _ move_assignable_axioms, of v]
  by (fastforce simp: push_effect_def can_push_def fifo_try_push_def intro: throws simp del: mutex_view_sel(1,2))

lemma mutex_pop_section:
  assumes "mutex_wf q" and "can_pop (mutex_view q)"
  shows "mutex_pop_effect waits mv out q (if mq_size q = 0 then Done False (q, out) else finish_pop (dequeue_locked mv out q))"
proof (cases "items (mutex_view q)")
  case Nil
  then have "mq_size q = 0" by (simp only: mutex_empty_iff)
  then show ?thesis using Nil assms by (simp add: pop_effect_def can_pop_def fifo_try_pop_def)
next
  case (Cons x xs)
  then have "mq_size q \<noteq> 0" by (simp only: mutex_empty_iff) simp
  then show ?thesis
    using mutex_finish_pop [OF assms(1) Cons move_assignable_axioms, of out] Cons
    by (auto simp: pop_effect_def fifo_try_pop_def simp del: mutex_view_sel)
qed

lemma mutex_try_effect:
  assumes "mutex_wf q"
  shows "mutex_push_effect False mv v q (mutex_try_push mv v q)"
    and "mutex_pop_effect False mv out q (mutex_try_pop mv out q)"
  using mutex_push_section [OF assms, of False v] mutex_pop_section [OF assms, of False out] assms
  by (cases "can_push (mutex_view q)"; cases "can_pop (mutex_view q)";
      simp add: mutex_try_push_pred mutex_try_pop_pred mutex_can_push mutex_can_pop mutex_blocked del: mutex_view_sel)+

lemma mutex_push_effect:
  assumes "mutex_wf q" and "list_all (keeps mutex_wf) es"
  shows "mutex_push_effect True mv v (wake_state (can_push \<circ> mutex_view) id es q) (mutex_push es mv v q)"
  using assms
proof (induction es arbitrary: q)
  case Nil
  then show ?case
    using mutex_push_section [of q True v]
    by (simp add: mutex_push_step [of _ mv v q] mutex_can_push mutex_blocked del: mutex_view_sel)
next
  case (Cons e es)
  then show ?case
    using mutex_push_section [of q True v] Cons.IH [of "e q"]
    by (simp add: mutex_push_step [of _ mv v q] mutex_can_push keeps_def mutex_blocked del: mutex_view_sel)
qed

lemma mutex_pop_effect:
  assumes "mutex_wf q" and "list_all (keeps mutex_wf) es"
  shows "mutex_pop_effect True mv out (wake_state (can_pop \<circ> mutex_view) id es q) (mutex_pop es mv out q)"
  using assms
proof (induction es arbitrary: q)
  case Nil
  then show ?case
    using mutex_pop_section [of q True out]
    by (simp add: mutex_pop_step [of _ mv out q] mutex_can_pop mutex_blocked del: mutex_view_sel)
next
  case (Cons e es)
  then show ?case
    using mutex_pop_section [of q True out] Cons.IH [of "e q"]
    by (simp add: mutex_pop_step [of _ mv out q] mutex_can_pop keeps_def mutex_blocked del: mutex_view_sel)
qed

lemma mutex_try_push_for_effect:
  assumes "mutex_wf q" and "list_all (keeps mutex_wf) (until_timeout ts)"
  shows "mutex_push_effect (\<not> times_out ts) mv v (wake_state (can_push \<circ> mutex_view) id (until_timeout ts) q)
    (mutex_try_push_for ts mv v q)"
  using assms
proof (induction ts arbitrary: q rule: until_timeout.induct)
  case 1
  then show ?case
    using mutex_push_section [of q True v]
    by (simp add: mutex_try_push_for_step [of _ mv v q] mutex_can_push mutex_blocked del: mutex_view_sel)
next
  case (2 e ts)
  then show ?case
    using mutex_push_section [of q _ v] "2.IH" [of "e q"]
    by (simp add: mutex_try_push_for_step [of _ mv v q] mutex_can_push keeps_def mutex_blocked del: mutex_view_sel)
next
  case (3 e ts)
  then show ?case
    using mutex_push_section [of q False v] mutex_push_section [of "e q" False v]
    by (simp add: mutex_try_push_for_step [of _ mv v q] mutex_can_push keeps_def mutex_blocked del: mutex_view_sel)
qed

lemma mutex_try_pop_for_effect:
  assumes "mutex_wf q" and "list_all (keeps mutex_wf) (until_timeout ts)"
  shows "mutex_pop_effect (\<not> times_out ts) mv out (wake_state (can_pop \<circ> mutex_view) id (until_timeout ts) q)
    (mutex_try_pop_for ts mv out q)"
  using assms
proof (induction ts arbitrary: q rule: until_timeout.induct)
  case 1
  then show ?case
    using mutex_pop_section [of q True out]
    by (simp add: mutex_try_pop_for_step [of _ mv out q] mutex_can_pop mutex_blocked del: mutex_view_sel)
next
  case (2 e ts)
  then show ?case
    using mutex_pop_section [of q _ out] "2.IH" [of "e q"]
    by (simp add: mutex_try_pop_for_step [of _ mv out q] mutex_can_pop keeps_def mutex_blocked del: mutex_view_sel)
next
  case (3 e ts)
  then show ?case
    using mutex_pop_section [of q False out] mutex_pop_section [of "e q" False out]
    by (simp add: mutex_try_pop_for_step [of _ mv out q] mutex_can_pop keeps_def mutex_blocked del: mutex_view_sel)
qed

end

section \<open>SpscQueue\<close>

context move_assignable
begin

lemma spsc_try_effect:
  assumes "spsc_wf q"
  shows "spsc_push_effect False mv v q (spsc_try_push mv v q)"
    and "spsc_pop_effect False mv out q (spsc_try_pop mv out q)"
  using spsc_try_push_result [OF assms move_assignable_axioms, of v] spsc_try_pop_result [OF assms move_assignable_axioms, of out]
  by (auto simp: push_effect_def pop_effect_def fifo_try_push_def fifo_try_pop_def intro: throws simp del: spsc_view_sel)

text \<open>An attempt that finds the queue ready cannot fail, unless the queue is closed.\<close>

lemma push_effect_ready:
  "push_effect False ok view sigs note mv v q r \<Longrightarrow> can_push (view q) \<Longrightarrow> push_effect True ok view sigs note mv v q r"
  by (auto simp: push_effect_def can_push_def fifo_try_push_def split: outcome.splits if_splits)

lemma pop_effect_ready:
  "pop_effect False ok view sigs note mv out q r \<Longrightarrow> can_pop (view q) \<Longrightarrow> pop_effect True ok view sigs note mv out q r"
  by (auto simp: pop_effect_def can_pop_def fifo_try_pop_def split: outcome.splits list.splits)

text \<open>One pass of the blocking push: it is an attempt if the queue is ready, and otherwise a wait.\<close>

lemma spsc_push_pass:
  assumes "spsc_wf q" and "sq_tail q = tail" and "spsc_next q tail = slot"
  shows "can_push (spsc_view q) \<Longrightarrow>
      (case spsc_push_loop es b slot q of Done True q' \<Rightarrow> returning True (spsc_enqueue mv tail v q') | r \<Rightarrow> r) =
      spsc_try_push mv v q"
    and "\<not> can_push (spsc_view q) \<Longrightarrow> spsc_push_loop [] b slot q = Waiting (push_refresh q)"
    and "\<not> can_push (spsc_view q) \<Longrightarrow> spsc_push_loop (e # es) (backoff_at k) slot q =
      spsc_push_loop es (backoff_at (Suc k)) slot (e (pause_at k) (push_refresh q))"
    and "spsc_wf (push_refresh q)" "spsc_view (push_refresh q) = spsc_view q" "sq_tail (push_refresh q) = tail"
    "length (sq_buffer (push_refresh q)) = length (sq_buffer q)"
proof -
  obtain c where room: "has_room (spsc_next q tail) q = (\<not> fifo_full (spsc_view q), q\<lparr>sq_head_cache := c\<rparr>)"
      "spsc_wf (q\<lparr>sq_head_cache := c\<rparr>)"
    using has_room_spec [OF assms(1)] assms(2) by auto
  have shut: "shut (spsc_view q) = sq_closed q"
    by simp
  note S = assms(2) assms(3) [symmetric] room push_refresh_def can_push_def shut spsc_push_loop.simps [of _ _ _ q] spsc_try_push_def
  show "spsc_wf (push_refresh q)" "spsc_view (push_refresh q) = spsc_view q" "sq_tail (push_refresh q) = tail"
    "length (sq_buffer (push_refresh q)) = length (sq_buffer q)"
    by (simp_all add: S del: spsc_view_sel)
  show "(case spsc_push_loop es b slot q of Done True q' \<Rightarrow> returning True (spsc_enqueue mv tail v q') | r \<Rightarrow> r) =
      spsc_try_push mv v q" if "can_push (spsc_view q)"
    using that by (auto simp add: S simp del: spsc_view_sel)
  show "spsc_push_loop [] b slot q = Waiting (push_refresh q)" if "\<not> can_push (spsc_view q)"
    using that by (auto simp add: S simp del: spsc_view_sel split: prod.splits)
  show "spsc_push_loop (e # es) (backoff_at k) slot q =
      spsc_push_loop es (backoff_at (Suc k)) slot (e (pause_at k) (push_refresh q))" if "\<not> can_push (spsc_view q)"
    using that by (auto simp add: S backoff_wait_at simp del: spsc_view_sel)
qed

lemma spsc_push_loop_effect:
  assumes "spsc_wf q" and "sq_tail q = tail" and "spsc_next q tail = slot" and "list_all no_producer es"
  shows "spsc_push_effect True mv v (wake_state (can_push \<circ> spsc_view) push_refresh (paused k es) q)
    (case spsc_push_loop es (backoff_at k) slot q of
       Done True q' \<Rightarrow> returning True (spsc_enqueue mv tail v q')
     | r \<Rightarrow> r)"
  using assms
proof (induction es arbitrary: k q)
  case Nil
  then show ?case
    using spsc_push_pass [OF Nil(1-3)] push_effect_ready [OF spsc_try_effect(1) [OF Nil(1)], of v]
      push_effect_blocked(1) [where q' = "push_refresh q" and q = q and ok = spsc_wf and view = spsc_view and sigs = "\<lambda>_. []"]
    by (cases "can_push (spsc_view q)") (simp_all del: spsc_view_sel)
next
  case (Cons e es)
  note P = spsc_push_pass [OF Cons.prems(1-3)]
  have e: "spsc_wf (e (pause_at k) (push_refresh q))" "sq_tail (e (pause_at k) (push_refresh q)) = tail"
      "length (sq_buffer (e (pause_at k) (push_refresh q))) = length (sq_buffer q)"
    using Cons.prems(4) P(4,6,7) by (simp_all add: no_producer_def)
  then have "spsc_next (e (pause_at k) (push_refresh q)) tail = slot"
    using Cons.prems(3) by (simp add: spsc_next_def vector_size_def)
  then show ?case
    using Cons.IH [OF e(1,2), of "Suc k"] Cons.prems(4) P(1,3) push_effect_ready [OF spsc_try_effect(1) [OF Cons.prems(1)], of v]
    by (cases "can_push (spsc_view q)") (simp_all del: spsc_view_sel)
qed

lemma spsc_push_effect:
  assumes "spsc_wf q" and "list_all no_producer es"
  shows "spsc_push_effect True mv v (wake_state (can_push \<circ> spsc_view) push_refresh (paused 0 es) q) (spsc_push es mv v q)"
  using spsc_push_loop_effect [OF assms(1) refl refl assms(2), of v 0] by (simp add: spsc_push_def Let_def)

text \<open>The same for the blocking pop, which makes a second attempt once it has seen the queue closed.\<close>

lemma spsc_pop_pass:
  assumes "spsc_wf q"
  shows "can_pop (spsc_view q) \<Longrightarrow> spsc_pop_effect True mv out q (spsc_pop_loop es b mv out q)"
    and "\<not> can_pop (spsc_view q) \<Longrightarrow> spsc_pop_loop [] b mv out q = Waiting (pop_refresh q, out)"
    and "\<not> can_pop (spsc_view q) \<Longrightarrow> spsc_pop_loop (e # es) (backoff_at k) mv out q =
      spsc_pop_loop es (backoff_at (Suc k)) mv out (e (pause_at k) (pop_refresh q))"
    and "spsc_wf (pop_refresh q)" "spsc_view (pop_refresh q) = spsc_view q"
proof -
  obtain c where data: "has_data (sq_head q) q = (items (spsc_view q) \<noteq> [], q\<lparr>sq_tail_cache := c\<rparr>)"
      "spsc_wf (q\<lparr>sq_tail_cache := c\<rparr>)"
    using has_data_spec [OF assms] by auto
  have shut: "shut (spsc_view q) = sq_closed q"
    by simp
  note S = data pop_refresh_def can_pop_def shut spsc_pop_loop.simps [of _ _ _ _ q]
  show wf: "spsc_wf (pop_refresh q)" and view: "spsc_view (pop_refresh q) = spsc_view q"
    by (simp_all add: S del: spsc_view_sel)
  have closed: "sq_closed (pop_refresh q) = sq_closed q"
    using arg_cong [OF view, of shut] by simp
  have emp: "spsc_try_pop mv out q = Done False (pop_refresh q, out)" if "items (spsc_view q) = []"
    using that by (simp add: spsc_try_pop_def data pop_refresh_def del: spsc_view_sel)
  show "spsc_pop_loop [] b mv out q = Waiting (pop_refresh q, out)" if "\<not> can_pop (spsc_view q)"
    using that emp closed by (simp add: can_pop_def spsc_pop_loop.simps [of _ _ _ _ q] split: prod.splits)
  show "spsc_pop_loop (e # es) (backoff_at k) mv out q =
      spsc_pop_loop es (backoff_at (Suc k)) mv out (e (pause_at k) (pop_refresh q))" if "\<not> can_pop (spsc_view q)"
    using that emp closed by (simp add: can_pop_def spsc_pop_loop.simps [of _ _ _ _ q] backoff_wait_at)
  show "spsc_pop_effect True mv out q (spsc_pop_loop es b mv out q)" if ready: "can_pop (spsc_view q)"
  proof (cases "items (spsc_view q)")
    case Nil
    then have "sq_closed q"
      using ready shut by (simp add: can_pop_def del: spsc_view_sel)
    then have "spsc_pop_loop es b mv out q = spsc_try_pop mv out (pop_refresh q)"
      using emp [OF Nil] closed by (simp add: spsc_pop_loop.simps [of _ _ _ _ q])
    then show ?thesis
      using pop_effect_ready [OF spsc_try_effect(2) [OF wf], of out] view ready by (simp only: pop_effect_def)
  next
    case (Cons x xs)
    then have "spsc_pop_loop es b mv out q = spsc_try_pop mv out q"
      using spsc_try_pop_result [OF assms move_assignable_axioms, of out]
      by (auto simp: spsc_pop_loop.simps [of _ _ _ _ q] simp del: spsc_view_sel)
    then show ?thesis
      using pop_effect_ready [OF spsc_try_effect(2) [OF assms] ready, of out] by simp
  qed
qed

lemma spsc_pop_loop_effect:
  assumes "spsc_wf q" and "list_all (\<lambda>e. \<forall>p. keeps spsc_wf (e p)) es"
  shows "spsc_pop_effect True mv out (wake_state (can_pop \<circ> spsc_view) pop_refresh (paused k es) q)
    (spsc_pop_loop es (backoff_at k) mv out q)"
  using assms
proof (induction es arbitrary: k q)
  case Nil
  then show ?case
    using spsc_pop_pass [OF Nil(1)]
      pop_effect_blocked(1) [where q' = "pop_refresh q" and q = q and ok = spsc_wf and view = spsc_view and sigs = "\<lambda>_. []"]
    by (cases "can_pop (spsc_view q)") (simp_all del: spsc_view_sel)
next
  case (Cons e es)
  note P = spsc_pop_pass [OF Cons.prems(1)]
  have "spsc_wf (e (pause_at k) (pop_refresh q))"
    using Cons.prems(2) P(4) by (simp add: keeps_def)
  then show ?case
    using Cons.IH [of "e (pause_at k) (pop_refresh q)" "Suc k"] Cons.prems(2) P(1,3)
    by (cases "can_pop (spsc_view q)") (simp_all del: spsc_view_sel)
qed

lemma spsc_pop_effect:
  assumes "spsc_wf q" and "list_all (\<lambda>e. \<forall>p. keeps spsc_wf (e p)) es"
  shows "spsc_pop_effect True mv out (wake_state (can_pop \<circ> spsc_view) pop_refresh (paused 0 es) q) (spsc_pop es mv out q)"
  using spsc_pop_loop_effect [OF assms, of out 0] by (simp add: spsc_pop_def)

end

section \<open>Other threads making calls\<close>

text \<open>The calls of other threads, as in \<open>mutex_others\<close> and \<open>spsc_others\<close>, are schedules of this kind.\<close>

context nothrow_move_assignable
begin

lemma mutex_others_keep: "list_all (keeps mutex_wf) (mutex_others mv css)"
  using mutex_blocking.meanwhile_view(2) by (auto simp: list_all_iff keeps_def mutex_others_def)

lemma spsc_others_keep: "list_all (\<lambda>e. \<forall>p. keeps spsc_wf (e p)) (spsc_others mv css)"
  using spsc_blocking.meanwhile_view(2) by (auto simp: list_all_iff keeps_def spsc_others_def)

lemma spsc_others_no_producer:
  "list_all (list_all consumer_call) css \<Longrightarrow> list_all no_producer (spsc_others mv css)"
  using spsc_blocking.meanwhile_view(2) spsc_meanwhile_tail [of _ mv]
  by (auto simp: list_all_iff no_producer_def spsc_others_def)

end

end
