(* ===== verification/Mpmc_Wraparound.thy ===== *)
theory Mpmc_Wraparound
  imports Mpmc_Queue
begin

text \<open>
  What \<open>MpmcQueue\<close> does when its tickets wrap around. With a power-of-two capacity the wrap is
  invisible; with any other capacity the ticket after \<open>2 ^ 64 - 1\<close> is 0 again, whose slot is not
  the next one of the ring. The protocol comment of mpmc_queue.ipp puts that point at \<open>2 ^ 63\<close>.
\<close>

section \<open>Capacities that divide the ticket range\<close>

lemma dvd_power_two: "(d::nat) dvd 2 ^ n \<Longrightarrow> \<exists>k\<le>n. d = 2 ^ k"
proof (induction n arbitrary: d)
  case (Suc n)
  show ?case
  proof (cases "even d")
    case True
    then obtain e where e: "d = 2 * e" ..
    with Suc.prems have "e dvd 2 ^ n" by simp
    then obtain k where "k \<le> n" "e = 2 ^ k" using Suc.IH by blast
    with e show ?thesis by (intro exI [of _ "Suc k"]) simp
  next
    case False
    then have "coprime d (2 ^ Suc n)"
      by (simp add: coprime_right_2_iff_odd)
    then have "d dvd 1"
      using Suc.prems coprime_common_divisor [of d "2 ^ Suc n" d] by simp
    then show ?thesis by (intro exI [of _ 0]) simp
  qed
qed simp

lemma wrap_misses:
  assumes "\<not> has_single_bit capacity" and "capacity \<noteq> 0"
  shows "\<not> unat capacity dvd 2 ^ 64"
proof
  assume "unat capacity dvd 2 ^ 64"
  then obtain k where k: "unat capacity = 2 ^ k"
    using dvd_power_two by blast
  have "unat capacity < 2 ^ 64"
    using unsigned_less [of capacity] by simp
  then have "k < 64"
    unfolding k by (rule power_less_imp_less_exp [rotated]) simp
  moreover have "capacity = 2 ^ k"
    using arg_cong [OF k, of "of_nat :: nat \<Rightarrow> usize"] by simp
  ultimately show False
    using assms(1) by (auto simp: has_single_bit_iff)
qed

section \<open>Rounds of a push and a pop\<close>

context weak_cas
begin

lemma round_trip:
  assumes inv: "mpmc_inv E E q" and E: "E < 2 ^ 64" and opn: "\<not> pq_closed q"
  shows "\<exists>q'. run_calls (mpmc_ops cas mv) [Try_push v, Try_pop out] q = Some ([Flag True, Got True v], q') \<and>
    mpmc_inv (Suc E) (Suc E) q' \<and> \<not> pq_closed q' \<and> length (pq_slots q') = length (pq_slots q)"
proof -
  let ?N = "length (pq_slots q)"
  have room: "E < E + ?N"
    using mpmc_invD(1) [OF inv] by simp
  obtain s where s: "mv (slot_value (pq_slots q ! (E mod ?N))) v = Moved v s"
    using moved by blast
  define q1 where "q1 = q\<lparr>pq_enqueue_pos := of_nat E + 1,
      pq_slots := (pq_slots q)[E mod ?N := \<lparr>slot_sequence = 2 * of_nat E + 1, slot_value = v\<rparr>]\<rparr>"
  have inv1: "mpmc_inv (Suc E) E q1"
    unfolding q1_def by (rule mpmc_enqueue_inv [OF inv room])
  have push: "mpmc_try_push cas mv v q = Done True q1"
    using try_enqueue_loop_room [where mv = mv and v = v, OF inv disjI2 [OF E] room s eventually] mpmc_invD(4) [OF inv] opn
    by (simp add: mpmc_try_push_def try_enqueue_def drop_argument_def q1_def)
  have x: "slot_value (pq_slots q1 ! (E mod length (pq_slots q1))) = v"
    using mpmc_invD(1) [OF inv] by (simp add: q1_def)
  obtain s' where s': "mv out v = Moved v s'"
    using moved by blast
  define q2 where "q2 = q1\<lparr>pq_dequeue_pos := of_nat E + 1,
      pq_slots := (pq_slots q1)[E mod length (pq_slots q1) :=
        \<lparr>slot_sequence = 2 * (of_nat E + vector_size (pq_slots q1)), slot_value = s'\<rparr>]\<rparr>"
  have "mpmc_inv (Suc E) (Suc E) q2"
    unfolding q2_def by (rule mpmc_dequeue_inv [OF inv1]) simp
  moreover have "mpmc_try_pop cas mv out q1 = Done True (q2, v)"
    using try_dequeue_loop_data [where mv = mv and out = out, OF inv1 disjI2 [OF E] lessI x s' eventually] mpmc_invD(5) [OF inv1]
    by (simp add: mpmc_try_pop_def try_dequeue_def q2_def)
  ultimately show ?thesis
    using push opn by (simp add: mpmc_ops_def) (simp add: q1_def q2_def)
qed

lemma rounds:
  "mpmc_inv E E q \<Longrightarrow> \<not> pq_closed q \<Longrightarrow> E + n \<le> 2 ^ 64 \<Longrightarrow>
    \<exists>q'. run_calls (mpmc_ops cas mv) (concat (replicate n [Try_push v, Try_pop out])) q =
      Some (concat (replicate n [Flag True, Got True v]), q') \<and>
    mpmc_inv (E + n) (E + n) q' \<and> \<not> pq_closed q' \<and> length (pq_slots q') = length (pq_slots q)"
proof (induction n arbitrary: E q)
  case (Suc n)
  then obtain q1 where q1: "run_calls (mpmc_ops cas mv) [Try_push v, Try_pop out] q = Some ([Flag True, Got True v], q1)"
      "mpmc_inv (Suc E) (Suc E) q1" "\<not> pq_closed q1" "length (pq_slots q1) = length (pq_slots q)"
    using round_trip [of E q v out] by auto
  obtain q2 where q2: "run_calls (mpmc_ops cas mv) (concat (replicate n [Try_push v, Try_pop out])) q1 =
        Some (concat (replicate n [Flag True, Got True v]), q2)"
      "mpmc_inv (Suc E + n) (Suc E + n) q2" "\<not> pq_closed q2" "length (pq_slots q2) = length (pq_slots q1)"
    using Suc.IH [OF q1(2,3)] Suc.prems(3) by auto
  show ?case
    using run_calls_append [of "mpmc_ops cas mv", OF q1(1) q2(1)] q2(2-4) q1(4) by (intro exI [of _ q2]) (simp del: run_calls.simps)
qed simp

end

section \<open>The ticket after the last one\<close>

text \<open>
  At the wrap the slot of ticket 0 is free for a ticket of the running lap that is up to one lap
  ahead: the signed difference is positive, so the attempt takes its ticket for lost and reloads
  the counter, which has not moved.
\<close>

lemma wrapped_sequence:
  assumes inv: "mpmc_inv T T q" and T: "(of_nat T :: usize) = 0" and N: "\<not> length (pq_slots q) dvd T"
  shows "pq_enqueue_pos q = 0" and "0 < sequence_dif (slot_sequence (pq_slots q ! 0)) 0"
proof -
  note I = mpmc_invD [OF inv]
  show "pq_enqueue_pos q = 0"
    using I(4) T by simp
  let ?N = "length (pq_slots q)"
  define d where "d = ?N - T mod ?N"
  have d: "0 < d" "d < ?N"
    using N I(1) mod_less_divisor [of ?N T] by (auto simp: d_def dvd_eq_mod_eq_0)
  have "(T mod ?N + d) mod ?N = 0"
    using mod_less_divisor [OF I(1), of T] by (simp add: d_def)
  then have "(T + d) mod ?N = 0"
    by (simp add: mod_add_left_eq)
  then have "slot_sequence (pq_slots q ! 0) = of_nat (2 * (T + d))"
    using I(9) [of "T + d"] d(2) by simp
  also have "\<dots> = of_nat (2 * d)"
    using T by simp
  finally show "0 < sequence_dif (slot_sequence (pq_slots q ! 0)) 0"
    using d I(2) sint_of_nat [of "2 * d"] by (simp add: sequence_dif_def)
qed

lemma wrapped_push_spins:
  assumes "0 < length (pq_slots q)" and "pq_enqueue_pos q = 0" and "0 < sequence_dif (slot_sequence (pq_slots q ! 0)) 0"
    and "unat (slot_index q 0) = 0"
  shows "try_enqueue_loop cas mv 0 v q = Waiting (q, v)"
  by (induction cas) (use assms in \<open>simp_all add: Let_def\<close>)

text \<open>
  C33. The limit of a capacity that is no power of two is \<open>2 ^ 64\<close> pushes exactly. That many rounds
  of a push and a pop all succeed, so the queue is then open and empty, with its whole capacity
  free; and from then on \<^verbatim>\<open>try_push\<close> no longer returns: however its compare-exchange attempts would
  go, it finds a slot that is ahead of its ticket and starts again.
\<close>

theorem mpmc_wraparound_spins:
  assumes "weak_cas mv cas" and "mpmc_new sz dflt capacity = Inr q" and "8 < sz" and "\<not> has_single_bit capacity"
  shows "\<exists>q'. run_calls (mpmc_ops cas mv) (concat (replicate (2 ^ 64) [Try_push v, Try_pop out])) q =
      Some (concat (replicate (2 ^ 64) [Flag True, Got True v]), q') \<and>
    mpmc_view q' = \<lparr>items = [], bound = unat capacity, shut = False\<rparr> \<and>
    (\<forall>schedule w. mpmc_try_push schedule mv w q' = Waiting q')"
proof -
  note N = mpmc_new_inv [OF assms(2,3)]
  have "\<not> pq_closed q" and len: "length (pq_slots q) = unat capacity"
    using N(3) by (simp_all add: mpmc_view_def)
  then obtain q' where r: "run_calls (mpmc_ops cas mv) (concat (replicate (2 ^ 64) [Try_push v, Try_pop out])) q =
        Some (concat (replicate (2 ^ 64) [Flag True, Got True v]), q')"
      "mpmc_inv (2 ^ 64) (2 ^ 64) q'" "\<not> pq_closed q'" "length (pq_slots q') = unat capacity"
    using weak_cas.rounds [OF assms(1) N(1), of "2 ^ 64" v out] by auto
  have miss: "\<not> length (pq_slots q') dvd 2 ^ 64"
    using wrap_misses [OF assms(4) N(4)] by (simp only: r(4) not_False_eq_True)
  have zero: "(of_nat (2 ^ 64) :: usize) = 0"
    by simp
  note W = wrapped_sequence [OF r(2) zero miss]
  have "mpmc_try_push schedule mv w q' = Waiting q'" for schedule w
    using wrapped_push_spins [OF mpmc_invD(1) [OF r(2)] W, of schedule mv w] r(3) W(1)
      slot_index_of_ticket [OF mpmc_invD(3,1,2) [OF r(2)], of 0]
    by (simp add: mpmc_try_push_def try_enqueue_def drop_argument_def)
  moreover have "mpmc_view q' = \<lparr>items = [], bound = unat capacity, shut = False\<rparr>"
    using mpmc_inv_len [OF r(2)] r(3,4) by (simp add: mpmc_view_def)
  ultimately show ?thesis
    using r(1) by blast
qed

lemma three_no_power: "\<not> has_single_bit 3"
  by (simp add: has_single_bit_def upt_rec)

theorem mpmc_wraparound_spins_witness:
  "\<exists>q q'. mpmc_new 16 (0::int) 3 = Inr q \<and>
    run_calls (mpmc_ops [True, False] scalar_move) (concat (replicate (2 ^ 64) [Try_push 7, Try_pop 0])) q =
      Some (concat (replicate (2 ^ 64) [Flag True, Got True 7]), q') \<and>
    mpmc_view q' = \<lparr>items = [], bound = 3, shut = False\<rparr> \<and> mpmc_try_push [False, False] scalar_move 8 q' = Waiting q'"
proof -
  obtain q where new: "mpmc_new 16 (0::int) 3 = Inr q"
    by (simp add: mpmc_new_def make_slots_def vector_new_def vector_max_size_def)
  have "unat (3 :: usize) = 3" and "8 < (16::nat)"
    by simp_all
  then show ?thesis
    using mpmc_wraparound_spins [OF scalar_cas.weak_cas_axioms new _ three_no_power, of 7 0] new by metis
qed

end
