(* ===== verification/Ra_Memory.thy ===== *)
theory Ra_Memory
  imports Cq_Prelude
begin

text \<open>
  The part of the C++ memory model the lock-free queues rely on, as an operational model
  with views. Every atomic location keeps its modification order, a list of messages; a
  position in it is a timestamp. A thread's view says, for every location, the oldest
  message it may still read. A load may return any message from its view on, so it may be
  stale; an acquire load also takes over the view that the message's writer had when it
  stored it with release. Non-atomic locations only count their accesses: an access is
  ordered after all earlier ones exactly if the thread's view has reached that count, and
  is a data race otherwise. (Every access of a queue slot, the move out of it included,
  modifies the slot, so two unordered accesses always race.)
\<close>

type_synonym 'l view = "'l \<Rightarrow> nat"

record 'l message =
  mval :: usize
  mview :: "'l view"

type_synonym 'l atomics = "'l \<Rightarrow> 'l message list"

definition view_join :: "'l view \<Rightarrow> 'l view \<Rightarrow> 'l view" where
  "view_join u v = (\<lambda>l. max (u l) (v l))"

text \<open>Message \<open>i\<close> of location \<open>l\<close> may be read by a thread with view \<open>V\<close>.\<close>

definition readable :: "'l view \<Rightarrow> 'l atomics \<Rightarrow> 'l \<Rightarrow> nat \<Rightarrow> bool" where
  "readable V m l i \<longleftrightarrow> V l \<le> i \<and> i < length (m l)"

definition load_relaxed :: "'l view \<Rightarrow> 'l \<Rightarrow> nat \<Rightarrow> 'l view" where
  "load_relaxed V l i = V(l := i)"

definition load_acquire :: "'l view \<Rightarrow> 'l atomics \<Rightarrow> 'l \<Rightarrow> nat \<Rightarrow> 'l view" where
  "load_acquire V m l i = view_join (V(l := i)) (mview (m l ! i))"

text \<open>A store appends to the modification order; a release store publishes the view it ends with.\<close>

definition store_view :: "'l view \<Rightarrow> 'l atomics \<Rightarrow> 'l \<Rightarrow> 'l view" where
  "store_view V m l = V(l := length (m l))"

definition store_release :: "'l view \<Rightarrow> 'l atomics \<Rightarrow> 'l \<Rightarrow> usize \<Rightarrow> 'l atomics" where
  "store_release V m l w = m(l := m l @ [\<lparr>mval = w, mview = store_view V m l\<rparr>])"

text \<open>An access of a non-atomic location that has been accessed \<open>n\<close> times before.\<close>

definition races :: "'l view \<Rightarrow> 'l \<Rightarrow> nat \<Rightarrow> bool" where
  "races V l n \<longleftrightarrow> V l \<noteq> n"

definition access_view :: "'l view \<Rightarrow> 'l \<Rightarrow> nat \<Rightarrow> 'l view" where
  "access_view V l n = V(l := Suc n)"

section \<open>Laws\<close>

lemmas ra_defs = view_join_def load_relaxed_def load_acquire_def store_view_def store_release_def
  access_view_def

lemma view_join_le [simp]: "u l \<le> view_join u v l" "v l \<le> view_join u v l"
  by (simp_all add: view_join_def)

lemma load_relaxed_mono: "readable V m l i \<Longrightarrow> V l' \<le> load_relaxed V l i l'"
  by (simp add: load_relaxed_def readable_def)

lemma load_acquire_mono: "readable V m l i \<Longrightarrow> V l' \<le> load_acquire V m l i l'"
  by (simp add: load_acquire_def readable_def view_join_def le_max_iff_disj)

lemma store_release_same [simp]:
  "store_release V m l w l = m l @ [\<lparr>mval = w, mview = store_view V m l\<rparr>]"
  by (simp add: store_release_def)

lemma store_release_other [simp]: "l' \<noteq> l \<Longrightarrow> store_release V m l w l' = m l'"
  by (simp add: store_release_def)

end
