(* ===== verification/Spsc_Concurrent.thy ===== *)
theory Spsc_Concurrent
  imports Spsc_Queue Ra_Memory
begin

text \<open>
  \<open>SpscQueue\<close> used by one producer thread and one consumer thread at the same time, one
  atomic or slot access per step, under the release/acquire memory of Ra_Memory. A third
  thread, the owner, may join the producer and close the queue. The state keeps the queue
  of Spsc_Queue (its indices are the newest values of the atomics, its caches belong to
  the two sides) beside the modification orders, the views and the program counters.
  The fields after \<open>finished\<close> are history: no step depends on them.

  \<open>noexcept_type\<close> is \<^verbatim>\<open>std::is_nothrow_move_assignable_v<T>\<close>. If it does not hold, any move into
  or out of a slot may throw, which ends the call; the bulk calls then do not exist (they
  assert it).
\<close>

section \<open>Threads\<close>

datatype spsc_loc = L_head | L_tail | L_closed | L_slot nat

datatype 'a push_call = Push 'a | Try_push_one 'a | Try_push_n "'a list"

datatype pop_call = Pop | Try_pop_one | Try_pop_n nat

text \<open>
  Where the producer is: idle (with the number of items its last call enqueued), about to
  load \<^verbatim>\<open>closed_\<close>, about to load \<^verbatim>\<open>tail_\<close>, about to consult its cache, about to refresh it,
  or moving items into slots (the index of the next slot, the items still to move, the
  items moved); with nothing left to move it publishes.
\<close>

datatype 'a producer_pc =
    P_idle nat
  | P_closed "'a push_call" "usize option"
  | P_tail "'a push_call"
  | P_room "'a push_call" usize
  | P_refresh "'a push_call" usize
  | P_write "'a push_call" usize "'a list" "'a list"

text \<open>
  The same for the consumer. The flag of a \<open>Pop\<close> says that the attempt is the final one,
  made after \<^verbatim>\<open>closed_\<close> was seen set.
\<close>

datatype 'a consumer_pc =
    C_idle "(pop_call \<times> 'a list) option"
  | C_head pop_call bool
  | C_data pop_call bool usize
  | C_refresh pop_call bool usize
  | C_read pop_call bool usize nat "'a list"
  | C_closed pop_call

record 'a spsc_sys =
  queue :: "'a spsc_queue"
  noexcept_type :: bool
  mem :: "spsc_loc atomics"
  acc :: "nat \<Rightarrow> nat"
  pview :: "spsc_loc view"
  cview :: "spsc_loc view"
  oview :: "spsc_loc view"
  ppc :: "'a producer_pc"
  cpc :: "'a consumer_pc"
  finished :: bool
  tail_counts :: "nat list"
  head_counts :: "nat list"
  head_seen :: nat
  tail_seen :: nat
  pushed :: "'a list"
  offered :: "'a list"
  spoilt :: "nat set"
  popped :: "'a list"
  orderly :: bool

fun items_of :: "'a push_call \<Rightarrow> 'a list" where
  "items_of (Push v) = [v]"
| "items_of (Try_push_one v) = [v]"
| "items_of (Try_push_n vs) = vs"

text \<open>
  How many items a call may move, judged by the cached index: \<^verbatim>\<open>has_room\<close>/\<^verbatim>\<open>has_data\<close> for the
  single-element calls, \<^verbatim>\<open>std::min(items.size(), free_slots())\<close> for the bulk ones.
\<close>

fun room :: "'a push_call \<Rightarrow> usize \<Rightarrow> 'a spsc_queue \<Rightarrow> nat" where
  "room (Try_push_n vs) tail q = unat (min (vector_size vs) (free_slots tail q))"
| "room c tail q = (if spsc_next q tail \<noteq> sq_head_cache q then 1 else 0)"

fun stock :: "pop_call \<Rightarrow> usize \<Rightarrow> 'a spsc_queue \<Rightarrow> nat" where
  "stock (Try_pop_n n) head q = unat (min (of_nat n) (available head q))"
| "stock c head q = (if head \<noteq> sq_tail_cache q then 1 else 0)"

text \<open>Where a call goes when it may move \<open>k\<close> items, and when it may move none.\<close>

definition proceed_push :: "'a push_call \<Rightarrow> usize \<Rightarrow> nat \<Rightarrow> 'a producer_pc \<Rightarrow> 'a producer_pc" where
  "proceed_push c tail k otherwise =
     (if k = 0 then otherwise else P_write c tail (take k (items_of c)) [])"

definition proceed_pop :: "pop_call \<Rightarrow> bool \<Rightarrow> usize \<Rightarrow> nat \<Rightarrow> 'a consumer_pc \<Rightarrow> 'a consumer_pc" where
  "proceed_pop c final head k otherwise =
     (if k = 0 then otherwise else C_read c final head k [])"

fun push_blocked :: "'a push_call \<Rightarrow> usize \<Rightarrow> 'a producer_pc" where
  "push_blocked (Push v) tail = P_closed (Push v) (Some tail)"
| "push_blocked c tail = P_idle 0"

fun pop_blocked :: "pop_call \<Rightarrow> bool \<Rightarrow> 'a consumer_pc" where
  "pop_blocked Pop final = (if final then C_idle (Some (Pop, [])) else C_closed Pop)"
| "pop_blocked c final = C_idle (Some (c, []))"

section \<open>Steps of the producer\<close>

inductive p_step :: "'a spsc_sys \<Rightarrow> 'a spsc_sys \<Rightarrow> bool" where
  call_push: "ppc s = P_idle r \<Longrightarrow> \<not> finished s \<Longrightarrow> p_step s (s\<lparr>ppc := P_tail (Push v)\<rparr>)"
| call_try_push: "ppc s = P_idle r \<Longrightarrow> \<not> finished s \<Longrightarrow>
    p_step s (s\<lparr>ppc := P_closed (Try_push_one v) None\<rparr>)"
| call_try_push_n: "ppc s = P_idle r \<Longrightarrow> \<not> finished s \<Longrightarrow> noexcept_type s \<Longrightarrow> length vs < 2 ^ 64 \<Longrightarrow>
    p_step s (s\<lparr>ppc := (if vs = [] then P_idle 0 else P_closed (Try_push_n vs) None)\<rparr>)"
| load_tail: "ppc s = P_tail c \<Longrightarrow> readable (pview s) (mem s) L_tail i \<Longrightarrow>
    tail = mval (mem s L_tail ! i) \<Longrightarrow>
    p_step s (s\<lparr>pview := load_relaxed (pview s) L_tail i,
                ppc := (case c of Push v \<Rightarrow> P_closed c (Some tail) | _ \<Rightarrow> P_room c tail)\<rparr>)"
| load_closed: "ppc s = P_closed c t \<Longrightarrow> readable (pview s) (mem s) L_closed i \<Longrightarrow>
    p_step s (s\<lparr>pview := load_relaxed (pview s) L_closed i,
                ppc := (if mval (mem s L_closed ! i) \<noteq> 0 then P_idle 0
                        else (case t of None \<Rightarrow> P_tail c | Some tail \<Rightarrow> P_room c tail))\<rparr>)"
| check_cache: "ppc s = P_room c tail \<Longrightarrow>
    p_step s (s\<lparr>ppc := proceed_push c tail (room c tail (queue s)) (P_refresh c tail)\<rparr>)"
| refresh_cache: "ppc s = P_refresh c tail \<Longrightarrow> readable (pview s) (mem s) L_head i \<Longrightarrow>
    q = (queue s)\<lparr>sq_head_cache := mval (mem s L_head ! i)\<rparr> \<Longrightarrow>
    p_step s (s\<lparr>queue := q, pview := load_acquire (pview s) (mem s) L_head i,
                head_seen := head_counts s ! i,
                ppc := proceed_push c tail (room c tail q) (push_blocked c tail)\<rparr>)"
| write_slot: "ppc s = P_write c tail (v # todo) moved \<Longrightarrow> k = unat tail \<Longrightarrow>
    p_step s (s\<lparr>queue := (queue s)\<lparr>sq_buffer := (sq_buffer (queue s))[k := v]\<rparr>,
                acc := (acc s)(k := Suc (acc s k)),
                pview := access_view (pview s) (L_slot k) (acc s k),
                ppc := P_write c (spsc_next (queue s) tail) todo (moved @ [v])\<rparr>)"
| write_throws: "ppc s = P_write c tail [v] [] \<Longrightarrow> \<not> noexcept_type s \<Longrightarrow> k = unat tail \<Longrightarrow>
    p_step s (s\<lparr>queue := (queue s)\<lparr>sq_buffer := (sq_buffer (queue s))[k := junk]\<rparr>,
                acc := (acc s)(k := Suc (acc s k)),
                pview := access_view (pview s) (L_slot k) (acc s k),
                ppc := P_idle 0\<rparr>)"
| publish_tail: "ppc s = P_write c tail [] moved \<Longrightarrow>
    p_step s (s\<lparr>queue := (queue s)\<lparr>sq_tail := tail\<rparr>,
                mem := store_release (pview s) (mem s) L_tail tail,
                pview := store_view (pview s) (mem s) L_tail,
                tail_counts := tail_counts s @ [last (tail_counts s) + length moved],
                pushed := pushed s @ moved, offered := offered s @ moved,
                ppc := P_idle (length moved)\<rparr>)"
| p_close: "ppc s = P_idle r \<Longrightarrow> \<not> finished s \<Longrightarrow>
    p_step s (s\<lparr>queue := (queue s)\<lparr>sq_closed := True\<rparr>,
                mem := store_release (pview s) (mem s) L_closed 1,
                pview := store_view (pview s) (mem s) L_closed\<rparr>)"
| p_observe_closed: "ppc s = P_idle r \<Longrightarrow> \<not> finished s \<Longrightarrow> readable (pview s) (mem s) L_closed i \<Longrightarrow>
    p_step s (s\<lparr>pview := load_acquire (pview s) (mem s) L_closed i\<rparr>)"

section \<open>Steps of the consumer\<close>

text \<open>
  Moving an element out leaves its slot valid but unspecified: any value \<open>junk\<close>. If the move
  throws, the element stays queued with whatever value it has then: \<open>pushed\<close> follows the value,
  \<open>offered\<close> keeps the one the producer gave, and \<open>spoilt\<close> collects the positions where they may
  differ. The call ends with no result.
\<close>

inductive c_step :: "'a spsc_sys \<Rightarrow> 'a spsc_sys \<Rightarrow> bool" where
  call_pop: "cpc s = C_idle r \<Longrightarrow> c \<noteq> Try_pop_n 0 \<Longrightarrow>
    (\<forall>n. c = Try_pop_n n \<longrightarrow> n < 2 ^ 64 \<and> noexcept_type s) \<Longrightarrow>
    c_step s (s\<lparr>cpc := C_head c False\<rparr>)"
| call_pop_none: "cpc s = C_idle r \<Longrightarrow> noexcept_type s \<Longrightarrow> c_step s (s\<lparr>cpc := C_idle (Some (Try_pop_n 0, []))\<rparr>)"
| load_head: "cpc s = C_head c final \<Longrightarrow> readable (cview s) (mem s) L_head i \<Longrightarrow>
    c_step s (s\<lparr>cview := load_relaxed (cview s) L_head i,
                cpc := C_data c final (mval (mem s L_head ! i))\<rparr>)"
| check_tail_cache: "cpc s = C_data c final head \<Longrightarrow>
    c_step s (s\<lparr>cpc := proceed_pop c final head (stock c head (queue s)) (C_refresh c final head)\<rparr>)"
| refresh_tail_cache: "cpc s = C_refresh c final head \<Longrightarrow> readable (cview s) (mem s) L_tail i \<Longrightarrow>
    q = (queue s)\<lparr>sq_tail_cache := mval (mem s L_tail ! i)\<rparr> \<Longrightarrow>
    c_step s (s\<lparr>queue := q, cview := load_acquire (cview s) (mem s) L_tail i,
                tail_seen := tail_counts s ! i,
                cpc := proceed_pop c final head (stock c head q) (pop_blocked c final)\<rparr>)"
| read_slot: "cpc s = C_read c final head (Suc n) taken \<Longrightarrow> k = unat head \<Longrightarrow>
    c_step s (s\<lparr>queue := (queue s)\<lparr>sq_buffer := (sq_buffer (queue s))[k := junk]\<rparr>,
                acc := (acc s)(k := Suc (acc s k)),
                cview := access_view (cview s) (L_slot k) (acc s k),
                cpc := C_read c final (spsc_next (queue s) head) n
                         (taken @ [sq_buffer (queue s) ! k])\<rparr>)"
| read_throws: "cpc s = C_read c final head (Suc 0) [] \<Longrightarrow> \<not> noexcept_type s \<Longrightarrow> k = unat head \<Longrightarrow>
    c_step s (s\<lparr>queue := (queue s)\<lparr>sq_buffer := (sq_buffer (queue s))[k := junk]\<rparr>,
                acc := (acc s)(k := Suc (acc s k)),
                cview := access_view (cview s) (L_slot k) (acc s k),
                pushed := (pushed s)[last (head_counts s) := junk],
                spoilt := insert (last (head_counts s)) (spoilt s),
                cpc := C_idle None\<rparr>)"
| publish_head: "cpc s = C_read c final head 0 taken \<Longrightarrow>
    c_step s (s\<lparr>queue := (queue s)\<lparr>sq_head := head\<rparr>,
                mem := store_release (cview s) (mem s) L_head head,
                cview := store_view (cview s) (mem s) L_head,
                head_counts := head_counts s @ [last (head_counts s) + length taken],
                popped := popped s @ taken,
                cpc := C_idle (Some (c, taken))\<rparr>)"
| pop_load_closed: "cpc s = C_closed c \<Longrightarrow> readable (cview s) (mem s) L_closed i \<Longrightarrow>
    c_step s (s\<lparr>cview := load_acquire (cview s) (mem s) L_closed i,
                cpc := C_head c (mval (mem s L_closed ! i) \<noteq> 0)\<rparr>)"
| c_close: "cpc s = C_idle r \<Longrightarrow>
    c_step s (s\<lparr>queue := (queue s)\<lparr>sq_closed := True\<rparr>,
                mem := store_release (cview s) (mem s) L_closed 1,
                cview := store_view (cview s) (mem s) L_closed,
                orderly := False\<rparr>)"
| c_observe_closed: "cpc s = C_idle r \<Longrightarrow> readable (cview s) (mem s) L_closed i \<Longrightarrow>
    c_step s (s\<lparr>cview := load_acquire (cview s) (mem s) L_closed i\<rparr>)"

section \<open>Steps of the owner, and reachable states\<close>

text \<open>
  The owner joins the producer thread (which then makes no further calls) and closes. A
  close is orderly if it comes from the producer itself or from the owner after the join.
\<close>

inductive o_step :: "'a spsc_sys \<Rightarrow> 'a spsc_sys \<Rightarrow> bool" where
  join_producer: "ppc s = P_idle r \<Longrightarrow>
    o_step s (s\<lparr>finished := True, oview := view_join (oview s) (pview s)\<rparr>)"
| o_close:
    "o_step s (s\<lparr>queue := (queue s)\<lparr>sq_closed := True\<rparr>,
                mem := store_release (oview s) (mem s) L_closed 1,
                oview := store_view (oview s) (mem s) L_closed,
                orderly := (orderly s \<and> finished s)\<rparr>)"
| o_observe_closed: "readable (oview s) (mem s) L_closed i \<Longrightarrow>
    o_step s (s\<lparr>oview := load_acquire (oview s) (mem s) L_closed i\<rparr>)"

definition spsc_start :: "'a spsc_queue \<Rightarrow> 'a spsc_sys" where
  "spsc_start q =
     \<lparr>queue = q, noexcept_type = True, mem = (\<lambda>_. [\<lparr>mval = 0, mview = (\<lambda>_. 0)\<rparr>]), acc = (\<lambda>_. 0),
      pview = (\<lambda>_. 0), cview = (\<lambda>_. 0), oview = (\<lambda>_. 0),
      ppc = P_idle 0, cpc = C_idle None, finished = False,
      tail_counts = [0], head_counts = [0], head_seen = 0, tail_seen = 0,
      pushed = [], offered = [], spoilt = {}, popped = [], orderly = True\<rparr>"

inductive spsc_reachable :: "'a spsc_sys \<Rightarrow> bool" where
  start: "spsc_new sz dflt capacity = Inr q \<Longrightarrow> 0 < sz \<Longrightarrow> spsc_reachable ((spsc_start q)\<lparr>noexcept_type := b\<rparr>)"
| producer: "spsc_reachable s \<Longrightarrow> p_step s t \<Longrightarrow> spsc_reachable t"
| consumer: "spsc_reachable s \<Longrightarrow> c_step s t \<Longrightarrow> spsc_reachable t"
| owner: "spsc_reachable s \<Longrightarrow> o_step s t \<Longrightarrow> spsc_reachable t"

end
