(* ===== verification/Spsc_Invariant.thy ===== *)
theory Spsc_Invariant
  imports Spsc_Concurrent
begin

text \<open>
  The invariant of the two-thread \<open>SpscQueue\<close> and that every step keeps it: what the
  histories of the indices hold, how far each cached index may lag, who may touch which
  slot without a race, and which items the slots hold.
\<close>

section \<open>Invariant\<close>

abbreviation ring_size :: "'a spsc_sys \<Rightarrow> nat" where
  "ring_size s \<equiv> length (sq_buffer (queue s))"

text \<open>Items published and handed back so far; items moved in (out) but not yet published.\<close>

abbreviation tcount :: "'a spsc_sys \<Rightarrow> nat" where
  "tcount s \<equiv> last (tail_counts s)"

abbreviation hcount :: "'a spsc_sys \<Rightarrow> nat" where
  "hcount s \<equiv> last (head_counts s)"

definition pend :: "'a spsc_sys \<Rightarrow> 'a list" where
  "pend s = (case ppc s of P_write c tail todo moved \<Rightarrow> moved | _ \<Rightarrow> [])"

definition taken :: "'a spsc_sys \<Rightarrow> 'a list" where
  "taken s = (case cpc s of C_read c final head n xs \<Rightarrow> xs | _ \<Rightarrow> [])"

text \<open>The index word of an unbounded position, and the slot it names.\<close>

abbreviation index_of :: "'a spsc_sys \<Rightarrow> nat \<Rightarrow> usize" where
  "index_of s j \<equiv> of_nat (j mod ring_size s)"

abbreviation slot_of :: "'a spsc_sys \<Rightarrow> nat \<Rightarrow> nat" where
  "slot_of s j \<equiv> j mod ring_size s"

definition inv_mem :: "'a spsc_sys \<Rightarrow> bool" where
  "inv_mem s \<longleftrightarrow>
     2 \<le> ring_size s \<and> ring_size s < 2 ^ 63 \<and>
     tail_counts s \<noteq> [] \<and> length (mem s L_tail) = length (tail_counts s) \<and> sorted (tail_counts s) \<and>
     (\<forall>i < length (tail_counts s). mval (mem s L_tail ! i) = index_of s (tail_counts s ! i)) \<and>
     head_counts s \<noteq> [] \<and> length (mem s L_head) = length (head_counts s) \<and> sorted (head_counts s) \<and>
     (\<forall>i < length (head_counts s). mval (mem s L_head ! i) = index_of s (head_counts s ! i)) \<and>
     mem s L_closed \<noteq> []"

definition inv_count :: "'a spsc_sys \<Rightarrow> bool" where
  "inv_count s \<longleftrightarrow>
     head_seen s \<le> hcount s \<and> hcount s + length (taken s) \<le> tail_seen s \<and> tail_seen s \<le> tcount s \<and>
     tcount s + length (pend s) < head_seen s + ring_size s \<and>
     tcount s = length (pushed s) \<and> hcount s = length (popped s) \<and>
     sq_head_cache (queue s) = index_of s (head_seen s) \<and>
     sq_tail_cache (queue s) = index_of s (tail_seen s) \<and>
     sq_tail (queue s) = index_of s (tcount s) \<and> sq_head (queue s) = index_of s (hcount s)"

definition bounded :: "'a spsc_sys \<Rightarrow> spsc_loc view \<Rightarrow> bool" where
  "bounded s V \<longleftrightarrow>
     V L_head < length (mem s L_head) \<and> V L_tail < length (mem s L_tail) \<and>
     V L_closed < length (mem s L_closed) \<and> (\<forall>k. V (L_slot k) \<le> acc s k)"

definition inv_view :: "'a spsc_sys \<Rightarrow> bool" where
  "inv_view s \<longleftrightarrow>
     Suc (pview s L_tail) = length (mem s L_tail) \<and> Suc (cview s L_head) = length (mem s L_head) \<and>
     head_seen s \<le> head_counts s ! pview s L_head \<and> tail_seen s \<le> tail_counts s ! cview s L_tail \<and>
     bounded s (pview s) \<and> bounded s (cview s) \<and> bounded s (oview s) \<and>
     (\<forall>m \<in> set (mem s L_head) \<union> set (mem s L_tail) \<union> set (mem s L_closed). bounded s (mview m))"

text \<open>
  Who knows what about the slots. A slot's last access is in the view of one of the two
  sides; of the slots the producer may still fill judging by its cached (or by any
  published) head, it knows the last access (or learns it with that message); and the same
  for the consumer and the slots it may empty.
\<close>

definition inv_own :: "'a spsc_sys \<Rightarrow> bool" where
  "inv_own s \<longleftrightarrow>
     (\<forall>k. pview s (L_slot k) = acc s k \<or> cview s (L_slot k) = acc s k) \<and>
     (\<forall>j. tcount s \<le> j \<and> j < head_seen s + ring_size s \<longrightarrow>
        pview s (L_slot (slot_of s j)) = acc s (slot_of s j)) \<and>
     (\<forall>j. hcount s \<le> j \<and> j < tail_seen s \<longrightarrow>
        cview s (L_slot (slot_of s j)) = acc s (slot_of s j)) \<and>
     (\<forall>i < length (head_counts s). \<forall>j. tcount s \<le> j \<and> j < head_counts s ! i + ring_size s \<longrightarrow>
        mview (mem s L_head ! i) (L_slot (slot_of s j)) = acc s (slot_of s j) \<or>
        pview s (L_slot (slot_of s j)) = acc s (slot_of s j)) \<and>
     (\<forall>i < length (tail_counts s). \<forall>j. hcount s \<le> j \<and> j < tail_counts s ! i \<longrightarrow>
        mview (mem s L_tail ! i) (L_slot (slot_of s j)) = acc s (slot_of s j) \<or>
        cview s (L_slot (slot_of s j)) = acc s (slot_of s j))"

definition inv_data :: "'a spsc_sys \<Rightarrow> bool" where
  "inv_data s \<longleftrightarrow>
     (\<forall>j. hcount s + length (taken s) \<le> j \<and> j < tcount s + length (pend s) \<longrightarrow>
        sq_buffer (queue s) ! slot_of s j = (pushed s @ pend s) ! j) \<and>
     popped s @ taken s = take (hcount s + length (taken s)) (pushed s)"

fun ppc_ok :: "'a spsc_sys \<Rightarrow> 'a producer_pc \<Rightarrow> bool" where
  "ppc_ok s (P_closed c (Some tail)) = (tail = index_of s (tcount s))"
| "ppc_ok s (P_room c tail) = (tail = index_of s (tcount s))"
| "ppc_ok s (P_refresh c tail) = (tail = index_of s (tcount s))"
| "ppc_ok s (P_write c tail todo moved) =
     (tail = index_of s (tcount s + length moved) \<and>
      tcount s + length moved + length todo < head_seen s + ring_size s)"
| "ppc_ok s pc = True"

fun cpc_ok :: "'a spsc_sys \<Rightarrow> 'a consumer_pc \<Rightarrow> bool" where
  "cpc_ok s (C_data c final head) = (head = index_of s (hcount s))"
| "cpc_ok s (C_refresh c final head) = (head = index_of s (hcount s))"
| "cpc_ok s (C_read c final head n xs) =
     (head = index_of s (hcount s + length xs) \<and> hcount s + length xs + n \<le> tail_seen s)"
| "cpc_ok s pc = True"

definition spsc_inv :: "'a spsc_sys \<Rightarrow> bool" where
  "spsc_inv s \<longleftrightarrow> inv_mem s \<and> inv_count s \<and> inv_view s \<and> inv_own s \<and> inv_data s \<and>
     ppc_ok s (ppc s) \<and> cpc_ok s (cpc s)"

lemma spsc_invD:
  assumes "spsc_inv s"
  shows "inv_mem s" "inv_count s" "inv_view s" "inv_own s" "inv_data s" "ppc_ok s (ppc s)" "cpc_ok s (cpc s)"
  using assms by (simp_all add: spsc_inv_def)

section \<open>Consequences of the invariant\<close>

lemma inv_memD:
  assumes "inv_mem s"
  shows "2 \<le> ring_size s" "ring_size s < 2 ^ 63" "0 < ring_size s"
    "tail_counts s \<noteq> []" "length (mem s L_tail) = length (tail_counts s)" "sorted (tail_counts s)"
    "\<And>i. i < length (tail_counts s) \<Longrightarrow> mval (mem s L_tail ! i) = index_of s (tail_counts s ! i)"
    "head_counts s \<noteq> []" "length (mem s L_head) = length (head_counts s)" "sorted (head_counts s)"
    "\<And>i. i < length (head_counts s) \<Longrightarrow> mval (mem s L_head ! i) = index_of s (head_counts s ! i)"
    "mem s L_closed \<noteq> []"
  using assms unfolding inv_mem_def by (blast, blast, linarith, blast+)

lemma unat_index_of: "inv_mem s \<Longrightarrow> unat (index_of s j) = slot_of s j"
  using inv_memD(2) [of s] mod_less_divisor [OF inv_memD(3), of s j] by (intro unat_of_nat_usize) simp

lemma slot_of_less: "inv_mem s \<Longrightarrow> slot_of s j < ring_size s"
  by (rule mod_less_divisor [OF inv_memD(3)])

lemma next_index_of:
  assumes "inv_mem s"
  shows "spsc_next (queue s) (index_of s j) = index_of s (Suc j)"
proof -
  have N: "ring_size s < 2 ^ 64"
    using assms by (simp add: inv_mem_def)
  have "unat (spsc_next (queue s) (index_of s j)) = slot_of s (Suc j)"
    using unat_ring_next [OF _ N, of "index_of s j"] slot_of_less [OF assms, of j] unat_index_of [OF assms, of j]
    by (simp add: spsc_next_def vector_size_def mod_Suc_eq)
  then show ?thesis
    using unat_index_of [OF assms, of "Suc j"] by (simp add: word_unat_eq_iff)
qed

lemma index_of_eq_iff:
  assumes "inv_mem s" and "a \<le> b" and "b < a + ring_size s"
  shows "index_of s a = index_of s b \<longleftrightarrow> a = b"
  using unat_index_of [OF assms(1), of a] unat_index_of [OF assms(1), of b] mod_eq_counts [OF assms(2,3)]
  by (metis word_unat_eq_iff)

text \<open>What the cached checks admit stays within what the cached index licenses.\<close>

lemma room_bound:
  fixes s :: "'a spsc_sys"
  assumes mem: "inv_mem s" and "sq_head_cache q = index_of s h" and "length (sq_buffer q) = ring_size s"
    and "h \<le> t" and "t < h + ring_size s"
  shows "t + room c (index_of s t) q < h + ring_size s"
proof -
  have N: "2 \<le> ring_size s" "ring_size s < 2 ^ 63"
    using mem by (simp_all add: inv_mem_def)
  have next_eq: "spsc_next q (index_of s t) = spsc_next (queue s) (index_of s t)"
    using assms(3) by (simp add: spsc_next_def vector_size_def)
  have free: "unat (free_slots (index_of s t) q) = ring_size s - 1 - (t - h)"
    using unat_free_slots_at [of "index_of s t" q] ring_dist_counts [OF assms(4,5)] assms(2,3) N
      unat_index_of [OF mem] slot_of_less [OF mem] by simp
  have ne: "Suc t < h + ring_size s" if "index_of s (Suc t) \<noteq> index_of s h"
    using that assms(5) by (cases "Suc t = h + ring_size s") simp_all
  show ?thesis
  proof (cases c)
    case (Try_push_n vs)
    have "room c (index_of s t) q \<le> unat (free_slots (index_of s t) q)"
      by (simp add: Try_push_n min_def word_le_nat_alt)
    then show ?thesis using free assms(4,5) by simp
  qed (use assms(2,5) ne next_eq next_index_of [OF mem, of t] in simp_all)
qed

lemma stock_bound:
  fixes s :: "'a spsc_sys"
  assumes mem: "inv_mem s" and "sq_tail_cache q = index_of s t" and "length (sq_buffer q) = ring_size s"
    and "h \<le> t" and "t < h + ring_size s"
  shows "h + stock c (index_of s h) q \<le> t"
proof -
  have N: "ring_size s < 2 ^ 63"
    using mem by (simp add: inv_mem_def)
  have av: "unat (available (index_of s h) q) = t - h"
    using unat_available_at [of "index_of s h" q] ring_dist_counts [OF assms(4,5)] assms(2,3) N
      unat_index_of [OF mem] slot_of_less [OF mem] by simp
  have ne: "Suc h \<le> t" if "index_of s h \<noteq> index_of s t"
    using that assms(4) by (cases "h = t") simp_all
  show ?thesis
  proof (cases c)
    case (Try_pop_n n)
    have "stock c (index_of s h) q \<le> unat (available (index_of s h) q)"
      by (simp add: Try_pop_n min_def word_le_nat_alt)
    then show ?thesis using av assms(4) by simp
  qed (use assms(2,4) ne in simp_all)
qed

section \<open>Growing views\<close>

definition atomic_locs :: "spsc_loc set" where
  "atomic_locs = {L_head, L_tail, L_closed}"

lemma bounded_load_relaxed:
  "bounded s V \<Longrightarrow> readable V (mem s) l i \<Longrightarrow> l \<in> atomic_locs \<Longrightarrow> bounded s (load_relaxed V l i)"
  by (auto simp: bounded_def readable_def load_relaxed_def atomic_locs_def)

lemma bounded_view_join: "bounded s V \<Longrightarrow> bounded s W \<Longrightarrow> bounded s (view_join V W)"
  by (auto simp: bounded_def view_join_def)

lemma bounded_message:
  "inv_view s \<Longrightarrow> readable V (mem s) l i \<Longrightarrow> l \<in> atomic_locs \<Longrightarrow> bounded s (mview (mem s l ! i))"
  by (auto simp: inv_view_def readable_def atomic_locs_def)

lemma bounded_load_acquire:
  assumes "bounded s V" and "inv_view s" and "readable V (mem s) l i" and "l \<in> atomic_locs"
  shows "bounded s (load_acquire V (mem s) l i)"
  using bounded_view_join [OF bounded_load_relaxed [OF assms(1,3,4)] bounded_message [OF assms(2,3,4)]]
  by (simp add: load_acquire_def load_relaxed_def)

lemma sorted_nth_le: "sorted xs \<Longrightarrow> i \<le> j \<Longrightarrow> j < length xs \<Longrightarrow> xs ! i \<le> xs ! j"
  by (simp add: sorted_iff_nth_mono)

lemma sorted_nth_le_last: "sorted xs \<Longrightarrow> i < length xs \<Longrightarrow> xs ! i \<le> last xs"
  using sorted_nth_le [of xs i "length xs - 1"] by (cases xs rule: rev_cases) (auto simp: last_conv_nth)

lemma slot_known_grows:
  fixes V W :: "spsc_loc view"
  assumes "bounded s W" and "\<And>l. V l \<le> W l" and "V (L_slot k) = acc s k"
  shows "W (L_slot k) = acc s k"
  using assms by (metis bounded_def le_antisym)

text \<open>A thread that learns more about the past breaks nothing.\<close>

lemma pview_grows:
  assumes inv: "spsc_inv s" and W: "bounded s W" "\<And>l. pview s l \<le> W l"
  shows "spsc_inv (s\<lparr>pview := W\<rparr>)"
proof -
  note I = spsc_invD [OF inv]
  let ?t = "s\<lparr>pview := W\<rparr>"
  have same: "pend ?t = pend s" "taken ?t = taken s" "bounded ?t = bounded s"
    by (simp_all add: pend_def taken_def bounded_def fun_eq_iff)
  have known: "pview s (L_slot k) = acc s k \<Longrightarrow> W (L_slot k) = acc s k" for k
    by (rule slot_known_grows [OF W])
  have "Suc (W L_tail) = length (mem s L_tail)"
    using I(3) W(1) W(2) [of L_tail] by (simp add: inv_view_def bounded_def)
  moreover have "head_seen s \<le> head_counts s ! W L_head"
  proof -
    have "head_counts s ! pview s L_head \<le> head_counts s ! W L_head"
      using inv_memD(9,10) [OF I(1)] W(1) W(2) [of L_head] by (intro sorted_nth_le) (simp_all add: bounded_def)
    then show ?thesis using I(3) by (simp add: inv_view_def)
  qed
  ultimately have "inv_view ?t"
    using I(3) W(1) by (simp add: inv_view_def same)
  moreover have "inv_mem ?t" "inv_count ?t" "inv_data ?t"
    using I(1,2,5) by (simp_all add: inv_mem_def inv_count_def inv_data_def same)
  moreover have "inv_own ?t"
    using I(4) known unfolding inv_own_def by simp blast
  moreover have "ppc_ok ?t pc = ppc_ok s pc" "cpc_ok ?t cc = cpc_ok s cc" for pc cc
    by (cases "(s, pc)" rule: ppc_ok.cases; simp) (cases "(s, cc)" rule: cpc_ok.cases; simp)
  ultimately show ?thesis
    using I(6,7) by (simp add: spsc_inv_def)
qed

lemma cview_grows:
  assumes inv: "spsc_inv s" and W: "bounded s W" "\<And>l. cview s l \<le> W l"
  shows "spsc_inv (s\<lparr>cview := W\<rparr>)"
proof -
  note I = spsc_invD [OF inv]
  let ?t = "s\<lparr>cview := W\<rparr>"
  have same: "pend ?t = pend s" "taken ?t = taken s" "bounded ?t = bounded s"
    by (simp_all add: pend_def taken_def bounded_def fun_eq_iff)
  have known: "cview s (L_slot k) = acc s k \<Longrightarrow> W (L_slot k) = acc s k" for k
    by (rule slot_known_grows [OF W])
  have "Suc (W L_head) = length (mem s L_head)"
    using I(3) W(1) W(2) [of L_head] by (simp add: inv_view_def bounded_def)
  moreover have "tail_seen s \<le> tail_counts s ! W L_tail"
  proof -
    have "tail_counts s ! cview s L_tail \<le> tail_counts s ! W L_tail"
      using inv_memD(5,6) [OF I(1)] W(1) W(2) [of L_tail] by (intro sorted_nth_le) (simp_all add: bounded_def)
    then show ?thesis using I(3) by (simp add: inv_view_def)
  qed
  ultimately have "inv_view ?t"
    using I(3) W(1) by (simp add: inv_view_def same)
  moreover have "inv_mem ?t" "inv_count ?t" "inv_data ?t"
    using I(1,2,5) by (simp_all add: inv_mem_def inv_count_def inv_data_def same)
  moreover have "inv_own ?t"
    using I(4) known unfolding inv_own_def by simp blast
  moreover have "ppc_ok ?t pc = ppc_ok s pc" "cpc_ok ?t cc = cpc_ok s cc" for pc cc
    by (cases "(s, pc)" rule: ppc_ok.cases; simp) (cases "(s, cc)" rule: cpc_ok.cases; simp)
  ultimately show ?thesis
    using I(6,7) by (simp add: spsc_inv_def)
qed

lemma oview_grows:
  assumes inv: "spsc_inv s" and W: "bounded s W"
  shows "spsc_inv (s\<lparr>oview := W\<rparr>)"
proof -
  note I = spsc_invD [OF inv]
  let ?t = "s\<lparr>oview := W\<rparr>"
  have same: "pend ?t = pend s" "taken ?t = taken s" "bounded ?t = bounded s"
    by (simp_all add: pend_def taken_def bounded_def fun_eq_iff)
  have "ppc_ok ?t pc = ppc_ok s pc" "cpc_ok ?t cc = cpc_ok s cc" for pc cc
    by (cases "(s, pc)" rule: ppc_ok.cases; simp) (cases "(s, cc)" rule: cpc_ok.cases; simp)
  then show ?thesis
    using I W by (simp add: spsc_inv_def inv_mem_def inv_count_def inv_data_def inv_view_def inv_own_def same)
qed

section \<open>Steps that keep the invariant\<close>

lemma ppc_ok_cong:
  assumes "ppc_ok s pc" and "tcount t = tcount s" "head_seen s \<le> head_seen t" "ring_size t = ring_size s"
  shows "ppc_ok t pc"
  using assms by (cases "(s, pc)" rule: ppc_ok.cases) auto

lemma cpc_ok_cong:
  assumes "cpc_ok s cc" and "hcount t = hcount s" "tail_seen s \<le> tail_seen t" "ring_size t = ring_size s"
  shows "cpc_ok t cc"
  using assms by (cases "(s, cc)" rule: cpc_ok.cases) auto

lemma set_ppc:
  assumes inv: "spsc_inv s" and "pend (s\<lparr>ppc := pc\<rparr>) = pend s" and "ppc_ok s pc"
  shows "spsc_inv (s\<lparr>ppc := pc\<rparr>)"
proof -
  note I = spsc_invD [OF inv]
  have same: "taken (s\<lparr>ppc := pc\<rparr>) = taken s" "bounded (s\<lparr>ppc := pc\<rparr>) = bounded s"
    by (simp_all add: taken_def bounded_def fun_eq_iff)
  show ?thesis
    using I assms(2) ppc_ok_cong [OF assms(3), of "s\<lparr>ppc := pc\<rparr>"] cpc_ok_cong [OF I(7), of "s\<lparr>ppc := pc\<rparr>"]
    by (simp add: spsc_inv_def inv_mem_def inv_count_def inv_view_def inv_own_def inv_data_def same)
qed

lemma set_cpc:
  assumes inv: "spsc_inv s" and "taken (s\<lparr>cpc := cc\<rparr>) = taken s" and "cpc_ok s cc"
  shows "spsc_inv (s\<lparr>cpc := cc\<rparr>)"
proof -
  note I = spsc_invD [OF inv]
  have same: "pend (s\<lparr>cpc := cc\<rparr>) = pend s" "bounded (s\<lparr>cpc := cc\<rparr>) = bounded s"
    by (simp_all add: pend_def bounded_def fun_eq_iff)
  show ?thesis
    using I assms(2) cpc_ok_cong [OF assms(3), of "s\<lparr>cpc := cc\<rparr>"] ppc_ok_cong [OF I(6), of "s\<lparr>cpc := cc\<rparr>"]
    by (simp add: spsc_inv_def inv_mem_def inv_count_def inv_view_def inv_own_def inv_data_def same)
qed

lemma set_history [simp]:
  "spsc_inv (s\<lparr>orderly := b\<rparr>) = spsc_inv s" "spsc_inv (s\<lparr>finished := b\<rparr>) = spsc_inv s"
proof -
  have ok: "ppc_ok (s\<lparr>orderly := b\<rparr>) (ppc s) = ppc_ok s (ppc s)" "cpc_ok (s\<lparr>orderly := b\<rparr>) (cpc s) = cpc_ok s (cpc s)"
    "ppc_ok (s\<lparr>finished := b\<rparr>) (ppc s) = ppc_ok s (ppc s)" "cpc_ok (s\<lparr>finished := b\<rparr>) (cpc s) = cpc_ok s (cpc s)"
    by (rule iffI; erule ppc_ok_cong cpc_ok_cong; simp)+
  show "spsc_inv (s\<lparr>orderly := b\<rparr>) = spsc_inv s" "spsc_inv (s\<lparr>finished := b\<rparr>) = spsc_inv s"
    by (simp_all add: spsc_inv_def inv_mem_def inv_count_def inv_view_def inv_own_def inv_data_def
        bounded_def pend_def taken_def ok)
qed

text \<open>Acquiring the other side's index licenses the slots up to it.\<close>

lemma acquire_knows:
  assumes "bounded s (load_acquire V (mem s) l i)" and "\<And>l'. V l' \<le> load_acquire V (mem s) l i l'"
    and "mview (mem s l ! i) (L_slot (slot_of s j)) = acc s (slot_of s j) \<or> V (L_slot (slot_of s j)) = acc s (slot_of s j)"
  shows "load_acquire V (mem s) l i (L_slot (slot_of s j)) = acc s (slot_of s j)"
proof -
  have "mview (mem s l ! i) l' \<le> load_acquire V (mem s) l i l'" for l'
    by (simp add: load_acquire_def)
  then show ?thesis
    using slot_known_grows [OF assms(1)] assms(2,3) by blast
qed

lemma head_seen_grows:
  assumes inv: "spsc_inv s" and i: "readable (pview s) (mem s) L_head i"
  shows "spsc_inv (s\<lparr>queue := (queue s)\<lparr>sq_head_cache := mval (mem s L_head ! i)\<rparr>,
    pview := load_acquire (pview s) (mem s) L_head i, head_seen := head_counts s ! i\<rparr>)"
proof -
  note I = spsc_invD [OF inv] and M = inv_memD [OF spsc_invD(1) [OF inv]]
  let ?W = "load_acquire (pview s) (mem s) L_head i"
  let ?s = "s\<lparr>pview := ?W\<rparr>"
  let ?t = "s\<lparr>queue := (queue s)\<lparr>sq_head_cache := mval (mem s L_head ! i)\<rparr>, pview := ?W, head_seen := head_counts s ! i\<rparr>"
  have len: "i < length (head_counts s)" and le: "pview s L_head \<le> i"
    using i M(9) by (simp_all add: readable_def)
  have W: "bounded s ?W" "\<And>l. pview s l \<le> ?W l"
    using bounded_load_acquire [OF _ I(3) i] load_acquire_mono [OF i] I(3)
    by (simp_all add: inv_view_def atomic_locs_def)
  have S: "spsc_inv ?s"
    by (rule pview_grows [OF inv W])
  note J = spsc_invD [OF S]
  have new: "head_seen s \<le> head_counts s ! i" "head_counts s ! i \<le> hcount s"
    using sorted_nth_le [OF M(10) le len] sorted_nth_le_last [OF M(10) len] I(3) by (simp_all add: inv_view_def)
  have hc: "mval (mem s L_head ! i) = index_of s (head_counts s ! i)"
    by (rule M(11) [OF len])
  have same: "pend ?t = pend s" "taken ?t = taken s" "bounded ?t = bounded s" "pend ?s = pend s" "taken ?s = taken s"
      "bounded ?s = bounded s"
    by (simp_all add: pend_def taken_def bounded_def fun_eq_iff)
  have seen: "?W (L_slot (slot_of s j)) = acc s (slot_of s j)" if "tcount s \<le> j" "j < head_counts s ! i + ring_size s" for j
    using I(4) len that unfolding inv_own_def by (intro acquire_knows [OF W]) blast
  have "inv_mem ?t"
    using J(1) by (simp add: inv_mem_def)
  moreover have "inv_count ?t"
    using I(2) new hc by (simp add: inv_count_def pend_def taken_def)
  moreover have "inv_view ?t"
  proof -
    have "?W L_head < length (head_counts s)" "i \<le> ?W L_head"
      using W(1) M(9) by (simp_all add: bounded_def load_acquire_def view_join_def)
    then have "head_counts s ! i \<le> head_counts s ! ?W L_head"
      using sorted_nth_le [OF M(10)] by blast
    then show ?thesis
      using J(3) by (simp add: inv_view_def same)
  qed
  moreover have "inv_own ?t"
    using J(4) seen by (simp add: inv_own_def)
  moreover have "inv_data ?t"
    using J(5) by (simp add: inv_data_def same)
  ultimately show ?thesis
    using new ppc_ok_cong [OF I(6), of ?t] cpc_ok_cong [OF I(7), of ?t] by (simp add: spsc_inv_def)
qed

lemma tail_seen_grows:
  assumes inv: "spsc_inv s" and i: "readable (cview s) (mem s) L_tail i"
  shows "spsc_inv (s\<lparr>queue := (queue s)\<lparr>sq_tail_cache := mval (mem s L_tail ! i)\<rparr>,
    cview := load_acquire (cview s) (mem s) L_tail i, tail_seen := tail_counts s ! i\<rparr>)"
proof -
  note I = spsc_invD [OF inv] and M = inv_memD [OF spsc_invD(1) [OF inv]]
  let ?W = "load_acquire (cview s) (mem s) L_tail i"
  let ?s = "s\<lparr>cview := ?W\<rparr>"
  let ?t = "s\<lparr>queue := (queue s)\<lparr>sq_tail_cache := mval (mem s L_tail ! i)\<rparr>, cview := ?W, tail_seen := tail_counts s ! i\<rparr>"
  have len: "i < length (tail_counts s)" and le: "cview s L_tail \<le> i"
    using i M(5) by (simp_all add: readable_def)
  have W: "bounded s ?W" "\<And>l. cview s l \<le> ?W l"
    using bounded_load_acquire [OF _ I(3) i] load_acquire_mono [OF i] I(3)
    by (simp_all add: inv_view_def atomic_locs_def)
  note J = spsc_invD [OF cview_grows [OF inv W]]
  have new: "tail_seen s \<le> tail_counts s ! i" "tail_counts s ! i \<le> tcount s"
    using sorted_nth_le [OF M(6) le len] sorted_nth_le_last [OF M(6) len] I(3) by (simp_all add: inv_view_def)
  have tc: "mval (mem s L_tail ! i) = index_of s (tail_counts s ! i)"
    by (rule M(7) [OF len])
  have same: "pend ?t = pend s" "taken ?t = taken s" "bounded ?t = bounded s" "pend ?s = pend s" "taken ?s = taken s"
      "bounded ?s = bounded s"
    by (simp_all add: pend_def taken_def bounded_def fun_eq_iff)
  have seen: "?W (L_slot (slot_of s j)) = acc s (slot_of s j)" if "hcount s \<le> j" "j < tail_counts s ! i" for j
    using I(4) len that unfolding inv_own_def by (intro acquire_knows [OF W]) blast
  have "inv_mem ?t"
    using J(1) by (simp add: inv_mem_def)
  moreover have "inv_count ?t"
    using I(2) new tc by (simp add: inv_count_def pend_def taken_def)
  moreover have "inv_view ?t"
  proof -
    have "?W L_tail < length (tail_counts s)" "i \<le> ?W L_tail"
      using W(1) M(5) by (simp_all add: bounded_def load_acquire_def view_join_def)
    then have "tail_counts s ! i \<le> tail_counts s ! ?W L_tail"
      using sorted_nth_le [OF M(6)] by blast
    then show ?thesis
      using J(3) by (simp add: inv_view_def same)
  qed
  moreover have "inv_own ?t"
    using J(4) seen by (simp add: inv_own_def)
  moreover have "inv_data ?t"
    using J(5) by (simp add: inv_data_def same)
  ultimately show ?thesis
    using new ppc_ok_cong [OF I(6), of ?t] cpc_ok_cong [OF I(7), of ?t] by (simp add: spsc_inv_def)
qed

text \<open>A close only appends to the history of \<^verbatim>\<open>closed_\<close>.\<close>

lemma bounded_mono:
  assumes "bounded s U" and "\<And>l. l \<in> atomic_locs \<Longrightarrow> length (mem s l) \<le> length (mem t l)" and "\<And>k. acc s k \<le> acc t k"
  shows "bounded t U"
proof -
  have "U l < length (mem t l)" if "l \<in> atomic_locs" for l
  proof -
    have "U l < length (mem s l)"
      using assms(1) that by (auto simp: bounded_def atomic_locs_def)
    then show ?thesis using assms(2) [OF that] by simp
  qed
  moreover have "U (L_slot k) \<le> acc t k" for k
    using assms(1) assms(3) [of k] order_trans by (fastforce simp: bounded_def)
  ultimately show ?thesis
    by (simp add: bounded_def atomic_locs_def)
qed

lemma inv_view_extend:
  assumes inv: "inv_view s"
    and mono: "\<And>l. l \<in> atomic_locs \<Longrightarrow> length (mem s l) \<le> length (mem t l)" "\<And>k. acc s k \<le> acc t k"
    and own: "Suc (pview t L_tail) = length (mem t L_tail)" "Suc (cview t L_head) = length (mem t L_head)"
    and seen: "head_seen t \<le> head_counts t ! pview t L_head" "tail_seen t \<le> tail_counts t ! cview t L_tail"
    and views: "bounded t (pview t)" "bounded t (cview t)" "oview t = oview s"
    and msgs: "\<And>m l. l \<in> atomic_locs \<Longrightarrow> m \<in> set (mem t l) \<Longrightarrow> m \<in> set (mem s l) \<or> bounded t (mview m)"
  shows "inv_view t"
proof -
  have old: "bounded t (mview m)" if "m \<in> set (mem s l)" "l \<in> atomic_locs" for m l
    using bounded_mono [OF _ mono] inv that by (auto simp: inv_view_def atomic_locs_def)
  have "bounded t (mview m)" if "m \<in> set (mem t l)" "l \<in> atomic_locs" for m l
    using msgs [OF that(2,1)] old that(2) by blast
  then have "bounded t (mview m)" if "m \<in> set (mem t L_head) \<union> set (mem t L_tail) \<union> set (mem t L_closed)" for m
    using that by (auto simp: atomic_locs_def)
  moreover have "bounded t (oview t)"
    using bounded_mono [OF _ mono] inv views(3) by (simp add: inv_view_def)
  ultimately show ?thesis
    using own seen views by (simp add: inv_view_def)
qed

lemma close_store:
  assumes inv: "spsc_inv s" and V: "bounded s V"
  shows "spsc_inv (s\<lparr>queue := (queue s)\<lparr>sq_closed := True\<rparr>, mem := store_release V (mem s) L_closed 1\<rparr>)" (is "spsc_inv ?t")
    and "bounded (s\<lparr>queue := (queue s)\<lparr>sq_closed := True\<rparr>, mem := store_release V (mem s) L_closed 1\<rparr>) (store_view V (mem s) L_closed)"
proof -
  note I = spsc_invD [OF inv]
  have mono: "length (mem s l) \<le> length (mem ?t l)" for l
    by (simp add: store_release_def)
  show new: "bounded ?t (store_view V (mem s) L_closed)"
    using V by (simp add: bounded_def store_view_def)
  have "inv_view ?t"
  proof (rule inv_view_extend [OF I(3) mono])
    show "bounded ?t (pview ?t)" "bounded ?t (cview ?t)"
      using I(3) by (auto intro: bounded_mono [OF _ mono] simp: inv_view_def)
    show "m \<in> set (mem s l) \<or> bounded ?t (mview m)" if "m \<in> set (mem ?t l)" for m l
      using that new by (auto simp: store_release_def split: if_splits)
  qed (use I(3) in \<open>simp_all add: inv_view_def\<close>)
  then show "spsc_inv ?t"
    using I ppc_ok_cong [OF I(6), of ?t] cpc_ok_cong [OF I(7), of ?t]
    by (simp add: spsc_inv_def inv_mem_def inv_count_def inv_own_def inv_data_def pend_def taken_def)
qed

lemma inv_ownD:
  assumes "inv_own s"
  shows "pview s (L_slot k) = acc s k \<or> cview s (L_slot k) = acc s k"
    and "tcount s \<le> j \<Longrightarrow> j < head_seen s + ring_size s \<Longrightarrow> pview s (L_slot (slot_of s j)) = acc s (slot_of s j)"
    and "hcount s \<le> j \<Longrightarrow> j < tail_seen s \<Longrightarrow> cview s (L_slot (slot_of s j)) = acc s (slot_of s j)"
    and "i < length (head_counts s) \<Longrightarrow> tcount s \<le> j \<Longrightarrow> j < head_counts s ! i + ring_size s \<Longrightarrow>
      mview (mem s L_head ! i) (L_slot (slot_of s j)) = acc s (slot_of s j) \<or>
      pview s (L_slot (slot_of s j)) = acc s (slot_of s j)"
    and "i < length (tail_counts s) \<Longrightarrow> hcount s \<le> j \<Longrightarrow> j < tail_counts s ! i \<Longrightarrow>
      mview (mem s L_tail ! i) (L_slot (slot_of s j)) = acc s (slot_of s j) \<or>
      cview s (L_slot (slot_of s j)) = acc s (slot_of s j)"
  using assms unfolding inv_own_def by blast+

text \<open>
  Accessing a slot the producer may fill (the consumer may empty): no slot the other side may
  still access is touched. \<open>unmoved s t\<close>: indices, caches and histories are as they were.
\<close>

definition unmoved :: "'a spsc_sys \<Rightarrow> 'a spsc_sys \<Rightarrow> bool" where
  "unmoved s t \<longleftrightarrow> mem t = mem s \<and> oview t = oview s \<and> tail_counts t = tail_counts s \<and> head_counts t = head_counts s \<and>
     head_seen t = head_seen s \<and> tail_seen t = tail_seen s \<and> ring_size t = ring_size s"

lemma write_access:
  assumes inv: "spsc_inv s" and j: "tcount s \<le> j" "j < head_seen s + ring_size s" and same: "unmoved s t"
    and t: "acc t = (acc s)(slot_of s j := Suc (acc s (slot_of s j)))" "cview t = cview s"
      "pview t = access_view (pview s) (L_slot (slot_of s j)) (acc s (slot_of s j))"
  shows "inv_view t" and "inv_own t"
proof -
  note I = spsc_invD [OF inv] and U = same [unfolded unmoved_def]
  show "inv_view t"
  proof (rule inv_view_extend [OF I(3)])
    show "bounded t (pview t)" "bounded t (cview t)"
      using I(3) U by (auto simp: inv_view_def bounded_def access_view_def t le_SucI)
  qed (use I(3) U in \<open>simp_all add: inv_view_def access_view_def t\<close>)
  note O = inv_ownD [OF I(4)]
  have p: "pview t (L_slot m) = acc t m" if "m = slot_of s j \<or> pview s (L_slot m) = acc s m" for m
    using that by (auto simp: access_view_def t)
  have c: "acc t m = acc s m" if "m \<noteq> slot_of s j" for m
    using that by (simp add: t)
  have other: "slot_of s i \<noteq> slot_of s j" if "hcount s \<le> i" "i < tcount s" for i
    using mod_neq_within [of i j "ring_size s"] that j I(2) by (simp add: inv_count_def)
  have last: "tail_counts s ! i \<le> tcount s" if "i < length (tail_counts s)" for i
    by (rule sorted_nth_le_last [OF inv_memD(6) [OF I(1)] that])
  have seen: "tail_seen s \<le> tcount s"
    using I(2) by (simp add: inv_count_def)
  show "inv_own t"
    unfolding inv_own_def
  proof (intro conjI allI impI, goal_cases)
    case (1 m)
    then show ?case using O(1) [of m] p [of m] c [of m] by (cases "m = slot_of s j") (auto simp: t(2))
  next
    case (2 i)
    then show ?case using O(2) [of i] U p [of "slot_of s i"] by simp
  next
    case (3 i)
    then show ?case using O(3) [of i] c [OF other, of i] seen U by (simp add: t(2))
  next
    case (4 i l)
    then show ?case using O(4) [of i l] p [of "slot_of s l"] c [of "slot_of s l"] U
      by (cases "slot_of s l = slot_of s j") auto
  next
    case (5 i l)
    then show ?case using O(5) [of i l] c [OF other, of l] last [of i] U by (simp add: t(2))
  qed
qed

lemma read_access:
  assumes inv: "spsc_inv s" and j: "hcount s \<le> j" "j < tail_seen s" and same: "unmoved s t"
    and t: "acc t = (acc s)(slot_of s j := Suc (acc s (slot_of s j)))" "pview t = pview s"
      "cview t = access_view (cview s) (L_slot (slot_of s j)) (acc s (slot_of s j))"
  shows "inv_view t" and "inv_own t"
proof -
  note I = spsc_invD [OF inv] and U = same [unfolded unmoved_def]
  have C: "head_seen s \<le> hcount s" "tail_seen s \<le> tcount s"
    using I(2) by (simp_all add: inv_count_def)
  show "inv_view t"
  proof (rule inv_view_extend [OF I(3)])
    show "bounded t (pview t)" "bounded t (cview t)"
      using I(3) U by (auto simp: inv_view_def bounded_def access_view_def t le_SucI)
  qed (use I(3) U in \<open>simp_all add: inv_view_def access_view_def t\<close>)
  note O = inv_ownD [OF I(4)]
  have p: "cview t (L_slot m) = acc t m" if "m = slot_of s j \<or> cview s (L_slot m) = acc s m" for m
    using that by (auto simp: access_view_def t)
  have c: "acc t m = acc s m" if "m \<noteq> slot_of s j" for m
    using that by (simp add: t)
  have other: "slot_of s i \<noteq> slot_of s j" if "tcount s \<le> i" "i < hcount s + ring_size s" for i
    using mod_neq_within [of j i "ring_size s"] that j C by simp
  have last: "head_counts s ! i \<le> hcount s" if "i < length (head_counts s)" for i
    by (rule sorted_nth_le_last [OF inv_memD(10) [OF I(1)] that])
  show "inv_own t"
    unfolding inv_own_def
  proof (intro conjI allI impI, goal_cases)
    case (1 m)
    then show ?case using O(1) [of m] p [of m] c [of m] by (cases "m = slot_of s j") (auto simp: t(2))
  next
    case (2 i)
    then show ?case using O(2) [of i] c [OF other, of i] C U by (simp add: t(2))
  next
    case (3 i)
    then show ?case using O(3) [of i] U p [of "slot_of s i"] by simp
  next
    case (4 i l)
    then show ?case using O(4) [of i l] c [OF other, of l] last [of i] U by (simp add: t(2))
  next
    case (5 i l)
    then show ?case using O(5) [of i l] p [of "slot_of s l"] c [of "slot_of s l"] U
      by (cases "slot_of s l = slot_of s j") auto
  qed
qed

text \<open>Where the producer (the consumer) is about to access, and which slots hold queued items.\<close>

lemma writing_at:
  assumes inv: "spsc_inv s" and pc: "ppc s = P_write c tail (v # todo) moved"
  shows "unat tail = slot_of s (length (pushed s) + length moved)"
    and "tcount s = length (pushed s)" "pend s = moved"
    and "length (pushed s) + length moved + Suc (length todo) < head_seen s + ring_size s"
    and "hcount s + length (taken s) \<le> i \<Longrightarrow> i < length (pushed s) + length moved \<Longrightarrow>
      slot_of s (length (pushed s) + length moved) \<noteq> slot_of s i"
proof -
  note I = spsc_invD [OF inv]
  show C: "tcount s = length (pushed s)" and P: "pend s = moved"
    using I(2) by (simp_all add: inv_count_def pend_def pc)
  show room: "length (pushed s) + length moved + Suc (length todo) < head_seen s + ring_size s"
    using I(6) pc C by simp
  show "unat tail = slot_of s (length (pushed s) + length moved)"
    using I(6) pc C unat_index_of [OF I(1)] by simp
  show "slot_of s (length (pushed s) + length moved) \<noteq> slot_of s i"
    if "hcount s + length (taken s) \<le> i" "i < length (pushed s) + length moved"
    using not_sym [OF mod_neq_within [OF that(2), of "ring_size s"]] room that I(2) by (simp add: inv_count_def)
qed

lemma reading_at:
  assumes inv: "spsc_inv s" and pc: "cpc s = C_read c final head (Suc n) xs"
  shows "unat head = slot_of s (hcount s + length xs)" and "taken s = xs" and "hcount s + length xs + Suc n \<le> tail_seen s"
    and "sq_buffer (queue s) ! slot_of s (hcount s + length xs) = pushed s ! (hcount s + length xs)"
    and "hcount s + length xs < length (pushed s)"
    and "hcount s + length xs < i \<Longrightarrow> i < tcount s + length (pend s) \<Longrightarrow> slot_of s (hcount s + length xs) \<noteq> slot_of s i"
proof -
  note I = spsc_invD [OF inv]
  show T: "taken s = xs"
    by (simp add: taken_def pc)
  show data: "hcount s + length xs + Suc n \<le> tail_seen s"
    using I(7) pc by simp
  show "unat head = slot_of s (hcount s + length xs)"
    using I(7) pc unat_index_of [OF I(1)] by simp
  show lt: "hcount s + length xs < length (pushed s)"
    using data I(2) by (simp add: inv_count_def)
  show "sq_buffer (queue s) ! slot_of s (hcount s + length xs) = pushed s ! (hcount s + length xs)"
    using I(2,5) T lt by (simp add: inv_data_def inv_count_def nth_append)
  show "slot_of s (hcount s + length xs) \<noteq> slot_of s i" if "hcount s + length xs < i" "i < tcount s + length (pend s)"
    using mod_neq_within [OF that(1), of "ring_size s"] that I(2) by (simp add: inv_count_def)
qed

text \<open>Moving an item into a slot, and a move that throws.\<close>

lemma write_keeps:
  assumes inv: "spsc_inv s" and pc: "ppc s = P_write c tail (v # todo) moved"
  shows "spsc_inv (s\<lparr>queue := (queue s)\<lparr>sq_buffer := (sq_buffer (queue s))[unat tail := v]\<rparr>,
    acc := (acc s)(unat tail := Suc (acc s (unat tail))),
    pview := access_view (pview s) (L_slot (unat tail)) (acc s (unat tail)),
    ppc := P_write c (spsc_next (queue s) tail) todo (moved @ [v])\<rparr>)" (is "spsc_inv ?t")
proof -
  note I = spsc_invD [OF inv] and W = writing_at [OF inv pc]
  let ?j = "length (pushed s) + length moved"
  have pt: "pend ?t = moved @ [v]" "taken ?t = taken s"
    by (simp_all add: pend_def taken_def)
  have "inv_view ?t" "inv_own ?t"
    using W(1-4) by (intro write_access [OF inv, of ?j]; simp add: unmoved_def)+
  moreover have "inv_count ?t"
    using I(2) W(4) by (simp add: inv_count_def pend_def taken_def pc)
  moreover have "inv_data ?t"
  proof -
    have "(sq_buffer (queue s))[slot_of s ?j := v] ! slot_of s i = (pushed s @ moved @ [v]) ! i"
      if "hcount s + length (taken s) \<le> i" "i < Suc ?j" for i
    proof (cases "i = ?j")
      case False
      then have "slot_of s ?j \<noteq> slot_of s i" "i < length (pushed s @ moved)"
        using W(5) [of i] that by simp_all
      then show ?thesis
        using I(5) that False W(2,3) append_assoc [of "pushed s" moved "[v]"]
        by (auto simp: inv_data_def nth_append simp del: append_assoc)
    qed (use slot_of_less [OF I(1)] in \<open>simp add: nth_append\<close>)
    then show ?thesis
      unfolding inv_data_def pt using I(5) W(1,2,3) by (simp add: inv_data_def)
  qed
  moreover have "ppc_ok ?t (ppc ?t)"
    using I(6) W(4) next_index_of [OF I(1), of ?j] pc W(2) by simp
  ultimately show ?thesis
    using I(1) cpc_ok_cong [OF I(7), of ?t] by (simp add: spsc_inv_def inv_mem_def)
qed

lemma write_throws_keeps:
  assumes inv: "spsc_inv s" and pc: "ppc s = P_write c tail [v] []"
  shows "spsc_inv (s\<lparr>queue := (queue s)\<lparr>sq_buffer := (sq_buffer (queue s))[unat tail := junk]\<rparr>,
    acc := (acc s)(unat tail := Suc (acc s (unat tail))),
    pview := access_view (pview s) (L_slot (unat tail)) (acc s (unat tail)), ppc := P_idle 0\<rparr>)" (is "spsc_inv ?t")
proof -
  note I = spsc_invD [OF inv] and W = writing_at [OF inv pc, simplified]
  have pt: "pend ?t = []" "taken ?t = taken s"
    by (simp_all add: pend_def taken_def)
  have "inv_view ?t" "inv_own ?t"
    using W(1-4) by (intro write_access [OF inv, of "length (pushed s)"]; simp add: unmoved_def)+
  moreover have "inv_count ?t"
    using I(2) by (simp add: inv_count_def pend_def taken_def pc)
  moreover have "inv_data ?t"
    unfolding inv_data_def pt using I(5) W by (auto simp: inv_data_def)
  ultimately show ?thesis
    using I(1) cpc_ok_cong [OF I(7), of ?t] by (simp add: spsc_inv_def inv_mem_def)
qed

text \<open>The same for moving an item out of a slot.\<close>

lemma read_keeps:
  assumes inv: "spsc_inv s" and pc: "cpc s = C_read c final head (Suc n) xs"
  shows "spsc_inv (s\<lparr>queue := (queue s)\<lparr>sq_buffer := (sq_buffer (queue s))[unat head := junk]\<rparr>,
    acc := (acc s)(unat head := Suc (acc s (unat head))),
    cview := access_view (cview s) (L_slot (unat head)) (acc s (unat head)),
    cpc := C_read c final (spsc_next (queue s) head) n (xs @ [sq_buffer (queue s) ! unat head])\<rparr>)" (is "spsc_inv ?t")
proof -
  note I = spsc_invD [OF inv] and R = reading_at [OF inv pc]
  let ?j = "hcount s + length xs"
  have pt: "taken ?t = xs @ [pushed s ! ?j]" "pend ?t = pend s"
    using R(1,4) by (simp_all add: pend_def taken_def)
  have "inv_view ?t" "inv_own ?t"
    using R(1,3) by (intro read_access [OF inv, of ?j]; simp add: unmoved_def)+
  moreover have "inv_count ?t"
    using I(2) R(3) by (simp add: inv_count_def pend_def taken_def pc)
  moreover have "inv_data ?t"
    unfolding inv_data_def pt using I(5) R(1,2,5,6)
    by (auto simp: inv_data_def take_Suc_conv_app_nth simp flip: append_assoc)
  moreover have "cpc_ok ?t (cpc ?t)"
    using I(7) R(3) next_index_of [OF I(1), of ?j] pc by simp
  ultimately show ?thesis
    using I(1) ppc_ok_cong [OF I(6), of ?t] by (simp add: spsc_inv_def inv_mem_def)
qed

lemma read_throws_keeps:
  assumes inv: "spsc_inv s" and pc: "cpc s = C_read c final head (Suc 0) []"
  shows "spsc_inv (s\<lparr>queue := (queue s)\<lparr>sq_buffer := (sq_buffer (queue s))[unat head := junk]\<rparr>,
    acc := (acc s)(unat head := Suc (acc s (unat head))),
    cview := access_view (cview s) (L_slot (unat head)) (acc s (unat head)),
    pushed := (pushed s)[hcount s := junk], spoilt := B, cpc := C_idle None\<rparr>)" (is "spsc_inv ?t")
proof -
  note I = spsc_invD [OF inv] and R = reading_at [OF inv pc, simplified]
  have pt: "taken ?t = []" "pend ?t = pend s"
    by (simp_all add: pend_def taken_def)
  have "inv_view ?t" "inv_own ?t"
    using R(1,3) by (intro read_access [OF inv, of "hcount s"]; simp add: unmoved_def)+
  moreover have "inv_count ?t"
    using I(2) by (simp add: inv_count_def pend_def taken_def pc)
  moreover have "inv_data ?t"
  proof -
    have "(sq_buffer (queue s))[slot_of s (hcount s) := junk] ! slot_of s i = ((pushed s)[hcount s := junk] @ pend s) ! i"
      if "hcount s \<le> i" "i < tcount s + length (pend s)" for i
    proof (cases "i = hcount s")
      case False
      then show ?thesis
        using that I(5) R(2) R(6) [of i] by (simp add: inv_data_def nth_append)
    qed (use slot_of_less [OF I(1)] R(5) in \<open>simp add: nth_append\<close>)
    then show ?thesis
      unfolding inv_data_def pt using I(5) R(1,2) by (simp add: inv_data_def)
  qed
  ultimately show ?thesis
    using I(1) ppc_ok_cong [OF I(6), of ?t] by (simp add: spsc_inv_def inv_mem_def)
qed

text \<open>Publishing hands over everything the writer knows, the items it has moved included.\<close>

lemma sorted_snoc:
  fixes xs :: "nat list"
  assumes "sorted xs" and "xs \<noteq> []"
  shows "sorted (xs @ [last xs + n])"
proof -
  have "x \<le> last xs + n" if "x \<in> set xs" for x
    using that sorted_nth_le_last [OF assms(1)] by (metis in_set_conv_nth trans_le_add1)
  then show ?thesis
    using assms(1) by (simp add: sorted_append)
qed

lemma publish_tail_keeps:
  assumes inv: "spsc_inv s" and pc: "ppc s = P_write c tail [] moved"
  shows "spsc_inv (s\<lparr>queue := (queue s)\<lparr>sq_tail := tail\<rparr>,
    mem := store_release (pview s) (mem s) L_tail tail, pview := store_view (pview s) (mem s) L_tail,
    tail_counts := tail_counts s @ [last (tail_counts s) + length moved],
    pushed := pushed s @ moved, offered := F, ppc := P_idle (length moved)\<rparr>)" (is "spsc_inv ?t")
proof -
  note I = spsc_invD [OF inv] and M = inv_memD [OF spsc_invD(1) [OF inv]]
  have C: "hcount s + length (taken s) \<le> tail_seen s" "tail_seen s \<le> tcount s" "tcount s = length (pushed s)"
    using I(2) by (simp_all add: inv_count_def)
  have tail: "tail = index_of s (tcount s + length moved)"
    using I(6) pc by simp
  have pend: "pend s = moved" "pend ?t = []" and taken: "taken ?t = taken s"
    by (simp_all add: pend_def taken_def pc)
  have "inv_mem ?t"
    using I(1) tail M(4,5) sorted_snoc [OF M(6,4), of "length moved"]
    by (simp add: inv_mem_def nth_append less_Suc_eq)
  moreover have "inv_count ?t"
    using I(2) tail by (simp add: inv_count_def pend_def taken_def pc)
  moreover have "inv_view ?t"
  proof (rule inv_view_extend [OF I(3)])
    show "bounded ?t (pview ?t)" "bounded ?t (cview ?t)"
      using I(3) by (auto simp: inv_view_def bounded_def store_view_def)
    show "m \<in> set (mem s l) \<or> bounded ?t (mview m)" if "m \<in> set (mem ?t l)" for m l
      using that I(3) by (auto simp: store_release_def store_view_def inv_view_def bounded_def split: if_splits)
    show "tail_seen ?t \<le> tail_counts ?t ! cview ?t L_tail"
      using I(3) M(5) by (simp add: inv_view_def bounded_def nth_append)
  qed (use I(3) in \<open>simp_all add: inv_view_def store_view_def store_release_def\<close>)
  moreover have "inv_own ?t"
  proof -
    note O = inv_ownD [OF I(4)]
    have P: "pview ?t (L_slot m) = pview s (L_slot m)" for m
      by (simp add: store_view_def)
    show ?thesis
      unfolding inv_own_def P
    proof (intro conjI allI impI, goal_cases)
      case (5 i l)
      then show ?case
        using O(5) [of i l] O(1) [of "slot_of s l"] M(5)
        by (cases "i < length (tail_counts s)") (auto simp: nth_append store_view_def less_Suc_eq)
    qed (use O in \<open>auto\<close>)
  qed
  moreover have "inv_data ?t"
    using I(5) C by (simp add: inv_data_def pend_def taken_def pc)
  ultimately show ?thesis
    using cpc_ok_cong [OF I(7), of ?t] by (simp add: spsc_inv_def)
qed

lemma publish_head_keeps:
  assumes inv: "spsc_inv s" and pc: "cpc s = C_read c final head 0 xs"
  shows "spsc_inv (s\<lparr>queue := (queue s)\<lparr>sq_head := head\<rparr>,
    mem := store_release (cview s) (mem s) L_head head, cview := store_view (cview s) (mem s) L_head,
    head_counts := head_counts s @ [last (head_counts s) + length xs],
    popped := popped s @ xs, cpc := C_idle (Some (c, xs))\<rparr>)" (is "spsc_inv ?t")
proof -
  note I = spsc_invD [OF inv] and M = inv_memD [OF spsc_invD(1) [OF inv]]
  have C: "hcount s + length (taken s) \<le> tail_seen s" "tail_seen s \<le> tcount s" "tcount s = length (pushed s)"
    using I(2) by (simp_all add: inv_count_def)
  have head: "head = index_of s (hcount s + length xs)"
    using I(7) pc by simp
  have "inv_mem ?t"
    using I(1) head M(8,9) sorted_snoc [OF M(10,8), of "length xs"]
    by (simp add: inv_mem_def nth_append less_Suc_eq)
  moreover have "inv_count ?t"
    using I(2) head by (simp add: inv_count_def pend_def taken_def pc)
  moreover have "inv_view ?t"
  proof (rule inv_view_extend [OF I(3)])
    show "bounded ?t (pview ?t)" "bounded ?t (cview ?t)"
      using I(3) by (auto simp: inv_view_def bounded_def store_view_def)
    show "m \<in> set (mem s l) \<or> bounded ?t (mview m)" if "m \<in> set (mem ?t l)" for m l
      using that I(3) by (auto simp: store_release_def store_view_def inv_view_def bounded_def split: if_splits)
    show "head_seen ?t \<le> head_counts ?t ! pview ?t L_head"
      using I(3) M(9) by (simp add: inv_view_def bounded_def nth_append)
  qed (use I(3) in \<open>simp_all add: inv_view_def store_view_def store_release_def\<close>)
  moreover have "inv_own ?t"
  proof -
    note O = inv_ownD [OF I(4)]
    have P: "cview ?t (L_slot m) = cview s (L_slot m)" for m
      by (simp add: store_view_def)
    show ?thesis
      unfolding inv_own_def P
    proof (intro conjI allI impI, goal_cases)
      case (4 i l)
      then show ?case
        using O(4) [of i l] O(1) [of "slot_of s l"] M(9)
        by (cases "i < length (head_counts s)") (auto simp: nth_append store_view_def less_Suc_eq)
    qed (use O in \<open>auto\<close>)
  qed
  moreover have "inv_data ?t"
    using I(5) C by (simp add: inv_data_def pend_def taken_def pc)
  ultimately show ?thesis
    using ppc_ok_cong [OF I(6), of ?t] by (simp add: spsc_inv_def)
qed

section \<open>Every step keeps the invariant\<close>

lemma pview_bounded: "spsc_inv s \<Longrightarrow> bounded s (pview s)"
  and cview_bounded: "spsc_inv s \<Longrightarrow> bounded s (cview s)"
  and oview_bounded: "spsc_inv s \<Longrightarrow> bounded s (oview s)"
  by (simp_all add: spsc_inv_def inv_view_def)

lemma store_view_mono: "bounded s V \<Longrightarrow> V l \<le> store_view V (mem s) L_closed l"
  by (simp add: store_view_def bounded_def)

lemma p_load_relaxed:
  assumes "spsc_inv s" and "readable (pview s) (mem s) l i" and "l \<in> atomic_locs"
  shows "spsc_inv (s\<lparr>pview := load_relaxed (pview s) l i\<rparr>)"
  using pview_grows [OF assms(1) bounded_load_relaxed [OF pview_bounded [OF assms(1)] assms(2,3)]]
    load_relaxed_mono [OF assms(2)] by blast

lemma p_load_acquire:
  assumes "spsc_inv s" and "readable (pview s) (mem s) l i" and "l \<in> atomic_locs"
  shows "spsc_inv (s\<lparr>pview := load_acquire (pview s) (mem s) l i\<rparr>)"
  using pview_grows [OF assms(1) bounded_load_acquire [OF pview_bounded [OF assms(1)] spsc_invD(3) [OF assms(1)] assms(2,3)]]
    load_acquire_mono [OF assms(2)] by blast

lemma c_load_relaxed:
  assumes "spsc_inv s" and "readable (cview s) (mem s) l i" and "l \<in> atomic_locs"
  shows "spsc_inv (s\<lparr>cview := load_relaxed (cview s) l i\<rparr>)"
  using cview_grows [OF assms(1) bounded_load_relaxed [OF cview_bounded [OF assms(1)] assms(2,3)]]
    load_relaxed_mono [OF assms(2)] by blast

lemma c_load_acquire:
  assumes "spsc_inv s" and "readable (cview s) (mem s) l i" and "l \<in> atomic_locs"
  shows "spsc_inv (s\<lparr>cview := load_acquire (cview s) (mem s) l i\<rparr>)"
  using cview_grows [OF assms(1) bounded_load_acquire [OF cview_bounded [OF assms(1)] spsc_invD(3) [OF assms(1)] assms(2,3)]]
    load_acquire_mono [OF assms(2)] by blast

text \<open>Each side reads its own index relaxed, and still reads its newest value.\<close>

lemma own_tail_newest:
  assumes "spsc_inv s" and "readable (pview s) (mem s) L_tail i"
  shows "mval (mem s L_tail ! i) = index_of s (tcount s)"
proof -
  note M = inv_memD [OF spsc_invD(1) [OF assms(1)]]
  have "i = length (tail_counts s) - 1"
    using spsc_invD(3) [OF assms(1)] assms(2) M(5) by (simp add: inv_view_def readable_def) linarith
  then show ?thesis
    using M(4) M(7) [of i] by (simp add: last_conv_nth)
qed

lemma own_head_newest:
  assumes "spsc_inv s" and "readable (cview s) (mem s) L_head i"
  shows "mval (mem s L_head ! i) = index_of s (hcount s)"
proof -
  note M = inv_memD [OF spsc_invD(1) [OF assms(1)]]
  have "i = length (head_counts s) - 1"
    using spsc_invD(3) [OF assms(1)] assms(2) M(9) by (simp add: inv_view_def readable_def) linarith
  then show ?thesis
    using M(8) M(11) [of i] by (simp add: last_conv_nth)
qed

lemma proceed_push_ok:
  assumes inv: "spsc_inv s" and tail: "tail = index_of s (tcount s)" and pend: "pend s = []"
    and "ppc_ok s pc" and "pend (s\<lparr>ppc := pc\<rparr>) = []"
  shows "spsc_inv (s\<lparr>ppc := proceed_push c tail (room c tail (queue s)) pc\<rparr>)"
proof -
  note I = spsc_invD [OF inv]
  have "tcount s + room c tail (queue s) < head_seen s + ring_size s"
    unfolding tail using I(2) by (intro room_bound [OF I(1)]) (simp_all add: inv_count_def pend)
  then have "ppc_ok s (P_write c tail (take (room c tail (queue s)) (items_of c)) [])"
    using tail by simp
  then show ?thesis
    using assms by (intro set_ppc [OF inv]) (simp_all add: proceed_push_def pend_def)
qed

lemma proceed_pop_ok:
  assumes inv: "spsc_inv s" and head: "head = index_of s (hcount s)" and taken: "taken s = []"
    and "cpc_ok s cc" and "taken (s\<lparr>cpc := cc\<rparr>) = []"
  shows "spsc_inv (s\<lparr>cpc := proceed_pop c final head (stock c head (queue s)) cc\<rparr>)"
proof -
  note I = spsc_invD [OF inv]
  have "hcount s + stock c head (queue s) \<le> tail_seen s"
    unfolding head using I(2) by (intro stock_bound [OF I(1)]) (simp_all add: inv_count_def taken)
  then have "cpc_ok s (C_read c final head (stock c head (queue s)) [])"
    using head by simp
  then show ?thesis
    using assms by (intro set_cpc [OF inv]) (simp_all add: proceed_pop_def taken_def)
qed

lemma p_step_keeps: "p_step s t \<Longrightarrow> spsc_inv s \<Longrightarrow> spsc_inv t"
proof (induction rule: p_step.induct)
  case (load_tail s c i tail)
  then show ?case
    using own_tail_newest [OF load_tail.prems load_tail(2)]
    by (intro set_ppc p_load_relaxed) (auto simp: atomic_locs_def pend_def split: push_call.splits)
next
  case (load_closed s c t i)
  then show ?case
    using spsc_invD(6) [OF load_closed.prems]
    by (intro set_ppc p_load_relaxed) (auto simp: atomic_locs_def pend_def split: option.splits)
next
  case (check_cache s c tail)
  then show ?case
    using spsc_invD(6) [OF check_cache.prems] by (intro proceed_push_ok) (simp_all add: pend_def)
next
  case (refresh_cache s c tail i q)
  define u where "u = s\<lparr>queue := q, pview := load_acquire (pview s) (mem s) L_head i, head_seen := head_counts s ! i\<rparr>"
  have "spsc_inv u"
    using head_seen_grows [OF refresh_cache.prems refresh_cache(2)] refresh_cache(3) by (simp add: u_def)
  then have "spsc_inv (u\<lparr>ppc := proceed_push c tail (room c tail (queue u)) (push_blocked c tail)\<rparr>)"
    using spsc_invD(6) [OF refresh_cache.prems] refresh_cache(1,3)
    by (intro proceed_push_ok) (cases c; simp add: u_def pend_def)+
  then show ?case by (simp add: u_def)
next
  case (write_slot s c tail v todo moved k)
  then show ?case using write_keeps [OF write_slot.prems write_slot(1)] by simp
next
  case (write_throws s c tail v k junk)
  then show ?case using write_throws_keeps [OF write_throws.prems write_throws(1)] by simp
next
  case (publish_tail s c tail moved)
  then show ?case using publish_tail_keeps [OF publish_tail.prems publish_tail(1)] by simp
next
  case (p_close s r)
  then show ?case
    using pview_grows [OF close_store [OF p_close.prems pview_bounded [OF p_close.prems]]]
      store_view_mono [OF pview_bounded [OF p_close.prems]] by simp
next
  case (p_observe_closed s r i)
  then show ?case by (intro p_load_acquire) (simp_all add: atomic_locs_def)
qed (auto intro!: set_ppc simp: pend_def)

lemma c_step_keeps: "c_step s t \<Longrightarrow> spsc_inv s \<Longrightarrow> spsc_inv t"
proof (induction rule: c_step.induct)
  case (load_head s c final i)
  then show ?case
    using own_head_newest [OF load_head.prems load_head(2)]
    by (intro set_cpc c_load_relaxed) (auto simp: atomic_locs_def taken_def)
next
  case (check_tail_cache s c final head)
  then show ?case
    using spsc_invD(7) [OF check_tail_cache.prems] by (intro proceed_pop_ok) (simp_all add: taken_def)
next
  case (refresh_tail_cache s c final head i q)
  define u where "u = s\<lparr>queue := q, cview := load_acquire (cview s) (mem s) L_tail i, tail_seen := tail_counts s ! i\<rparr>"
  have "spsc_inv u"
    using tail_seen_grows [OF refresh_tail_cache.prems refresh_tail_cache(2)] refresh_tail_cache(3) by (simp add: u_def)
  then have "spsc_inv (u\<lparr>cpc := proceed_pop c final head (stock c head (queue u)) (pop_blocked c final)\<rparr>)"
    using spsc_invD(7) [OF refresh_tail_cache.prems] refresh_tail_cache(1,3)
    by (intro proceed_pop_ok) (cases c; simp add: u_def taken_def)+
  then show ?case by (simp add: u_def)
next
  case (read_slot s c final head n taken k junk)
  then show ?case using read_keeps [OF read_slot.prems read_slot(1)] by simp
next
  case (read_throws s c final head k junk)
  then show ?case using read_throws_keeps [OF read_throws.prems read_throws(1)] by simp
next
  case (publish_head s c final head taken)
  then show ?case using publish_head_keeps by blast
next
  case (pop_load_closed s c i)
  then show ?case by (intro set_cpc c_load_acquire) (auto simp: atomic_locs_def taken_def)
next
  case (c_close s r)
  then show ?case
    using cview_grows [OF close_store [OF c_close.prems cview_bounded [OF c_close.prems]]]
      store_view_mono [OF cview_bounded [OF c_close.prems]] by simp
next
  case (c_observe_closed s r i)
  then show ?case by (intro c_load_acquire) (simp_all add: atomic_locs_def)
qed (auto intro!: set_cpc simp: taken_def)

lemma o_step_keeps: "o_step s t \<Longrightarrow> spsc_inv s \<Longrightarrow> spsc_inv t"
proof (induction rule: o_step.induct)
  case (join_producer s r)
  have "spsc_inv (s\<lparr>finished := True\<rparr>)"
    using join_producer.prems by simp
  from oview_grows [OF this, of "view_join (oview s) (pview s)"] show ?case
    using join_producer.prems bounded_view_join [OF oview_bounded pview_bounded, of s] by (simp add: bounded_def)
next
  case (o_close s)
  then show ?case
    using oview_grows [OF close_store [OF o_close oview_bounded [OF o_close]]] by simp
next
  case (o_observe_closed s i)
  then show ?case
    using bounded_load_acquire [OF oview_bounded spsc_invD(3), of s L_closed i]
    by (intro oview_grows) (simp_all add: atomic_locs_def)
qed

lemma spsc_start_inv:
  assumes "spsc_new sz dflt capacity = Inr q" and "0 < sz"
  shows "spsc_inv ((spsc_start q)\<lparr>noexcept_type := b\<rparr>)"
proof -
  note N = spsc_new_wf [OF assms]
  note D = spsc_wfD(1-3) [OF N(1)]
  show ?thesis
    using D N(5-8)
    by (simp add: spsc_inv_def spsc_start_def inv_mem_def inv_count_def inv_view_def inv_own_def inv_data_def
        bounded_def pend_def taken_def)
qed

lemma spsc_reachable_inv: "spsc_reachable s \<Longrightarrow> spsc_inv s"
  by (induction rule: spsc_reachable.induct) (auto intro: spsc_start_inv p_step_keeps c_step_keeps o_step_keeps)

end
