(* ===== verification/Spsc_Shutdown.thy ===== *)
theory Spsc_Shutdown
  imports Spsc_Invariant
begin

text \<open>
  Shutdown of the two-thread \<open>SpscQueue\<close>: when the queue is closed by the producer, or by
  the owner after it has joined the producer, a consumer that has seen \<^verbatim>\<open>closed_\<close> set sees
  every published item, so a failed attempt after that means ``closed and drained''.
\<close>

section \<open>What a view that knows of the close knows\<close>

definition drained_view :: "'a spsc_sys \<Rightarrow> spsc_loc view \<Rightarrow> bool" where
  "drained_view s V \<longleftrightarrow> (1 \<le> V L_closed \<longrightarrow> Suc (V L_tail) = length (mem s L_tail))"

text \<open>Producer states from which nothing more is published once \<^verbatim>\<open>closed_\<close> reads as set.\<close>

fun before_closed_check :: "'a producer_pc \<Rightarrow> bool" where
  "before_closed_check (P_idle r) = True"
| "before_closed_check (P_tail (Push v)) = True"
| "before_closed_check (P_closed c t) = True"
| "before_closed_check pc = False"

fun final_attempt :: "'a consumer_pc \<Rightarrow> bool" where
  "final_attempt (C_head c final) = final"
| "final_attempt (C_data c final head) = final"
| "final_attempt (C_refresh c final head) = final"
| "final_attempt (C_read c final head n xs) = final"
| "final_attempt cc = False"

text \<open>The call the consumer is in; its span is neither empty nor longer than \<^verbatim>\<open>std::size_t\<close> can say.\<close>

fun call_of :: "'a consumer_pc \<Rightarrow> pop_call option" where
  "call_of (C_idle r) = None"
| "call_of (C_head c final) = Some c"
| "call_of (C_data c final head) = Some c"
| "call_of (C_refresh c final head) = Some c"
| "call_of (C_read c final head n xs) = Some c"
| "call_of (C_closed c) = Some c"

definition proper_call :: "pop_call \<Rightarrow> bool" where
  "proper_call c \<longleftrightarrow> c \<noteq> Try_pop_n 0 \<and> (\<forall>n. c = Try_pop_n n \<longrightarrow> n < 2 ^ 64)"

definition inv_history :: "'a spsc_sys \<Rightarrow> bool" where
  "inv_history s \<longleftrightarrow>
     (\<forall>i < length (mem s L_closed).
        (mval (mem s L_closed ! i) \<noteq> 0 \<longleftrightarrow> 1 \<le> i) \<and> (1 \<le> i \<longrightarrow> 1 \<le> mview (mem s L_closed ! i) L_closed)) \<and>
     (sq_closed (queue s) \<longleftrightarrow> 1 < length (mem s L_closed)) \<and>
     (finished s \<longrightarrow> (\<exists>r. ppc s = P_idle r) \<and> Suc (oview s L_tail) = length (mem s L_tail)) \<and>
     (final_attempt (cpc s) \<longrightarrow> 1 \<le> cview s L_closed) \<and>
     (\<forall>c final head n xs. cpc s = C_read c final head n xs \<longrightarrow> 0 < n + length xs) \<and>
     (\<forall>c. call_of (cpc s) = Some c \<longrightarrow> proper_call c)"

definition inv_orderly :: "'a spsc_sys \<Rightarrow> bool" where
  "inv_orderly s \<longleftrightarrow>
     drained_view s (pview s) \<and> drained_view s (cview s) \<and> drained_view s (oview s) \<and>
     (\<forall>m \<in> set (mem s L_head) \<union> set (mem s L_tail) \<union> set (mem s L_closed). drained_view s (mview m)) \<and>
     (1 < length (mem s L_closed) \<longrightarrow> finished s \<or> 1 \<le> pview s L_closed \<and> before_closed_check (ppc s)) \<and>
     (cpc s = C_idle (Some (Pop, [])) \<longrightarrow> hcount s = tcount s \<and> 1 < length (mem s L_closed))"

definition inv_close :: "'a spsc_sys \<Rightarrow> bool" where
  "inv_close s \<longleftrightarrow> inv_history s \<and> (orderly s \<longrightarrow> inv_orderly s)"

section \<open>Every step keeps it\<close>

lemma drained_newest: "Suc (V L_tail) = length (mem s L_tail) \<Longrightarrow> drained_view s V"
  by (simp add: drained_view_def)

lemma drained_join:
  assumes "drained_view s V" and "drained_view s W" and "bounded s V" and "bounded s W"
  shows "drained_view s (view_join V W)"
  using assms by (auto simp: drained_view_def bounded_def view_join_def max_def)

lemma drained_mem: "length (mem t L_tail) = length (mem s L_tail) \<Longrightarrow> drained_view t V = drained_view s V"
  by (simp add: drained_view_def)

lemma ptail_newest: "spsc_inv s \<Longrightarrow> Suc (pview s L_tail) = length (mem s L_tail)"
  by (simp add: spsc_inv_def inv_view_def)

text \<open>Producer steps that store nothing.\<close>

lemma p_frame:
  assumes t: "spsc_inv t" and s: "inv_close s" and "mem t = mem s" and "cview t = cview s" and "oview t = oview s"
    and "cpc t = cpc s" and "head_counts t = head_counts s" and "tail_counts t = tail_counts s"
    and "finished t = finished s" and "orderly t = orderly s" and "sq_closed (queue t) = sq_closed (queue s)"
    and "pview s L_closed \<le> pview t L_closed" and "\<not> finished s"
    and "1 \<le> pview s L_closed \<Longrightarrow> before_closed_check (ppc s) \<Longrightarrow> before_closed_check (ppc t)"
  shows "inv_close t"
  using assms drained_newest [of "pview t" t, OF ptail_newest [OF t]]
  by (auto simp: inv_close_def inv_history_def inv_orderly_def drained_mem [of t s])

lemma finished_idle: "inv_close s \<Longrightarrow> finished s \<Longrightarrow> \<exists>r. ppc s = P_idle r"
  by (simp add: inv_close_def inv_history_def)

lemma closed_reads:
  assumes "inv_close s" and "readable V (mem s) L_closed i"
  shows "mval (mem s L_closed ! i) \<noteq> 0 \<longleftrightarrow> 1 \<le> i"
  using assms by (simp add: inv_close_def inv_history_def readable_def)

text \<open>Nothing is published after an orderly close.\<close>

lemma publishing_open:
  assumes "inv_close s" and "orderly s" and "ppc s = P_write c tail todo moved"
  shows "length (mem s L_closed) \<le> 1"
  using assms by (auto simp: inv_close_def inv_history_def inv_orderly_def)

lemma open_drained:
  assumes "spsc_inv s" and "length (mem s L_closed) \<le> 1" and "cpc s \<noteq> C_idle (Some (Pop, []))"
  shows "inv_orderly s"
proof -
  have "drained_view s V" if "bounded s V" for V
    using that assms(2) by (simp add: drained_view_def bounded_def)
  then show ?thesis
    using spsc_invD(3) [OF assms(1)] assms(2,3) by (simp add: inv_orderly_def inv_view_def)
qed

text \<open>A close appends one message, whose writer knew the newest \<^verbatim>\<open>tail_\<close> if the close is orderly.\<close>

lemma close_history:
  assumes "inv_history s" and "mem s L_closed \<noteq> []"
  shows "inv_history (s\<lparr>queue := (queue s)\<lparr>sq_closed := True\<rparr>, mem := store_release V (mem s) L_closed 1\<rparr>)"
proof -
  have "1 \<le> store_view V (mem s) L_closed L_closed"
    using assms(2) by (cases "mem s L_closed") (simp_all add: store_view_def)
  moreover have "1 < length (mem s L_closed) + 1"
    using assms(2) by simp
  ultimately show ?thesis
    using assms by (auto simp: inv_history_def nth_append less_Suc_eq Suc_le_eq)
qed

lemma close_orderly:
  fixes s :: "'a spsc_sys"
  assumes old: "inv_orderly s" and tail: "Suc (store_view V (mem s) L_closed L_tail) = length (mem s L_tail)"
  defines "u \<equiv> s\<lparr>queue := (queue s)\<lparr>sq_closed := True\<rparr>, mem := store_release V (mem s) L_closed 1\<rparr>"
  shows "drained_view u (pview s)" "drained_view u (cview s)" "drained_view u (oview s)"
    and "\<forall>m \<in> set (mem u L_head) \<union> set (mem u L_tail) \<union> set (mem u L_closed). drained_view u (mview m)"
    and "cpc s = C_idle (Some (Pop, [])) \<longrightarrow> hcount s = tcount s \<and> 1 < length (mem u L_closed)"
proof -
  have same: "drained_view u W = drained_view s W" for W
    by (rule drained_mem) (simp add: u_def)
  show "drained_view u (pview s)" "drained_view u (cview s)" "drained_view u (oview s)"
    using old by (simp_all add: inv_orderly_def same)
  have "drained_view u (store_view V (mem s) L_closed)"
    using tail unfolding same by (rule drained_newest)
  then show "\<forall>m \<in> set (mem u L_head) \<union> set (mem u L_tail) \<union> set (mem u L_closed). drained_view u (mview m)"
    using old unfolding same by (auto simp: inv_orderly_def u_def)
  show "cpc s = C_idle (Some (Pop, [])) \<longrightarrow> hcount s = tcount s \<and> 1 < length (mem u L_closed)"
    using old by (auto simp: inv_orderly_def u_def)
qed

lemma publish_close:
  assumes t: "spsc_inv t" and s: "inv_close s" and pc: "ppc s = P_write c tail [] moved"
    and "mem t L_closed = mem s L_closed" "cview t = cview s" "cpc t = cpc s" "finished t = finished s"
      "orderly t = orderly s" "sq_closed (queue t) = sq_closed (queue s)" "hcount t = hcount s"
  shows "inv_close t"
proof -
  have nf: "\<not> finished s"
    using finished_idle [OF s] pc by auto
  have "inv_orderly t" if "orderly s"
  proof -
    have "length (mem s L_closed) \<le> 1"
      by (rule publishing_open [OF s that pc])
    then show ?thesis
      using open_drained [OF t] s that assms(4-8) by (auto simp: inv_close_def inv_orderly_def)
  qed
  then show ?thesis
    using s nf assms(4-9) by (simp add: inv_close_def inv_history_def)
qed

lemma producer_closes:
  fixes s :: "'a spsc_sys"
  assumes inv: "spsc_inv s" and s: "inv_close s" and pc: "ppc s = P_idle r"
  defines "u \<equiv> s\<lparr>queue := (queue s)\<lparr>sq_closed := True\<rparr>, mem := store_release (pview s) (mem s) L_closed 1\<rparr>"
  shows "inv_close (u\<lparr>pview := store_view (pview s) (mem s) L_closed\<rparr>)"
proof -
  have M: "mem s L_closed \<noteq> []"
    by (rule inv_memD(12) [OF spsc_invD(1) [OF inv]])
  have tail: "Suc (store_view (pview s) (mem s) L_closed L_tail) = length (mem s L_tail)"
    using ptail_newest [OF inv] by (simp add: store_view_def)
  have "inv_history u"
    using close_history [OF _ M] s by (simp add: inv_close_def u_def)
  moreover have "inv_orderly (u\<lparr>pview := store_view (pview s) (mem s) L_closed\<rparr>)" if "orderly s"
  proof -
    have old: "inv_orderly s"
      using s that by (simp add: inv_close_def)
    have "1 \<le> store_view (pview s) (mem s) L_closed L_closed"
      using M by (cases "mem s L_closed") (simp_all add: store_view_def)
    then show ?thesis
      using close_orderly [OF old tail] pc tail
      by (simp add: inv_orderly_def u_def) (simp add: drained_view_def)
  qed
  ultimately show ?thesis
    by (simp add: inv_close_def inv_history_def u_def)
qed

lemma p_step_close:
  assumes "p_step s t" and "spsc_inv s" and "inv_close s"
  shows "inv_close t"
  using assms p_step_keeps [OF assms(1,2)]
proof (induction rule: p_step.induct)
  case (load_closed s c t i)
  note r = closed_reads [OF load_closed(4,2)]
  show ?case
    using load_closed finished_idle [OF load_closed(4)] r
    by (intro p_frame [OF load_closed(5,4)]) (auto simp: readable_def load_relaxed_def)
next
  case (publish_tail s c tail moved)
  show ?case
    by (rule publish_close [OF publish_tail(4,3,1)]) simp_all
next
  case (p_close s r)
  show ?case
    using producer_closes [OF p_close(3,4,1)] by simp
next
  case (load_tail s c i tail)
  then show ?case
    using finished_idle [OF load_tail(5)]
    by (intro p_frame [OF load_tail(6,5)]) (auto simp: load_relaxed_def split: push_call.splits)
next
  case (refresh_cache s c tail i q)
  then show ?case
    using finished_idle [OF refresh_cache(5)]
    by (intro p_frame [OF refresh_cache(6,5)]) (auto simp: load_acquire_def view_join_def)
next
  case (check_cache s c tail)
  then show ?case
    using finished_idle [OF check_cache(3)]
    by (intro p_frame [OF check_cache(4,3)]) auto
next
  case (write_slot s c tail v todo moved k)
  then show ?case
    using finished_idle [OF write_slot(4)]
    by (intro p_frame [OF write_slot(5,4)]) (auto simp: access_view_def)
next
  case (write_throws s c tail v k junk)
  then show ?case
    using finished_idle [OF write_throws(5)]
    by (intro p_frame [OF write_throws(6,5)]) (auto simp: access_view_def)
next
  case (p_observe_closed s r i)
  then show ?case
    using load_acquire_mono [OF p_observe_closed(3), of L_closed]
    by (intro p_frame [OF p_observe_closed(6,5)]) auto
next
  case (call_push s r v)
  then show ?case by (intro p_frame [OF call_push(5,4)]) auto
next
  case (call_try_push s r v)
  then show ?case by (intro p_frame [OF call_try_push(5,4)]) auto
next
  case (call_try_push_n s r vs)
  then show ?case by (intro p_frame [OF call_try_push_n(7,6)]) auto
qed

text \<open>Consumer steps that do not store to \<^verbatim>\<open>closed_\<close>.\<close>

lemma c_frame:
  assumes s: "inv_close s" and "mem t L_tail = mem s L_tail" "mem t L_closed = mem s L_closed"
    and head: "\<And>m. orderly s \<Longrightarrow> m \<in> set (mem t L_head) \<Longrightarrow> m \<in> set (mem s L_head) \<or> drained_view s (mview m)"
    and "pview t = pview s" and "oview t = oview s" and "ppc t = ppc s" and "tail_counts t = tail_counts s"
    and "finished t = finished s" and "orderly t = orderly s" and "sq_closed (queue t) = sq_closed (queue s)"
    and view: "orderly s \<Longrightarrow> drained_view s (cview t)"
    and final: "final_attempt (cpc t) \<Longrightarrow> 1 \<le> cview t L_closed"
    and read: "\<And>c final head n xs. cpc t = C_read c final head n xs \<Longrightarrow> 0 < n + length xs"
    and proper: "\<And>c. call_of (cpc t) = Some c \<Longrightarrow> proper_call c"
    and pop: "orderly s \<Longrightarrow> cpc t = C_idle (Some (Pop, [])) \<Longrightarrow> hcount t = tcount s \<and> 1 < length (mem s L_closed)"
  shows "inv_close t"
proof -
  have same: "drained_view t W = drained_view s W" for W
    by (rule drained_mem) (simp add: assms)
  have "inv_history t"
    using assms by (simp add: inv_close_def inv_history_def)
  moreover have "inv_orderly t" if ord: "orderly s"
  proof -
    have old: "inv_orderly s"
      using s that by (simp add: inv_close_def)
    have "drained_view s (mview m)" if "m \<in> set (mem t L_head) \<union> set (mem s L_tail) \<union> set (mem s L_closed)" for m
      using head [OF ord, of m] old that by (auto simp: inv_orderly_def)
    then show ?thesis
      using old view [OF ord] pop [OF ord] assms(2-10) by (simp add: inv_orderly_def same)
  qed
  ultimately show ?thesis
    using assms(10) by (simp add: inv_close_def)
qed

lemma close_orderlyD: "inv_close s \<Longrightarrow> orderly s \<Longrightarrow> inv_orderly s"
  by (simp add: inv_close_def)

text \<open>An acquire load brings in a message's view; both sides know the newest tail if they know of the close.\<close>

lemma drained_acquire_any:
  assumes inv: "spsc_inv s" and s: "inv_close s" "orderly s" and i: "readable V (mem s) l i"
    and V: "bounded s V" "drained_view s V" and l: "l = L_tail \<or> l = L_closed"
  shows "drained_view s (load_acquire V (mem s) l i)"
proof -
  have l': "l \<in> atomic_locs"
    using l by (auto simp: atomic_locs_def)
  have m: "drained_view s (mview (mem s l ! i))"
    using close_orderlyD [OF s] i l by (auto simp: inv_orderly_def readable_def)
  have c: "drained_view s (V(l := i))" if "l = L_tail \<or> i = 0"
    using V(2) i that by (auto simp: readable_def drained_view_def)
  have b: "bounded s (V(l := i))" "bounded s (mview (mem s l ! i))"
    using bounded_load_relaxed [OF V(1) i l'] bounded_message [OF spsc_invD(3) [OF inv] i l']
    by (simp_all add: load_relaxed_def)
  show ?thesis
  proof (cases "l = L_tail \<or> i = 0")
    case True
    then show ?thesis
      unfolding load_acquire_def by (intro drained_join c m b)
  next
    case False
    then have "1 \<le> mview (mem s l ! i) L_closed"
      using s(1) i l by (auto simp: inv_close_def inv_history_def readable_def)
    then show ?thesis
      using m b False l by (auto simp: drained_view_def load_acquire_def view_join_def bounded_def max_def)
  qed
qed

lemma drained_acquire:
  assumes "spsc_inv s" and "inv_close s" "orderly s" and "readable (cview s) (mem s) l i"
    and "l = L_tail \<or> l = L_closed"
  shows "drained_view s (load_acquire (cview s) (mem s) l i)"
  using drained_acquire_any [OF assms(1-4) cview_bounded [OF assms(1)] _ assms(5)] close_orderlyD [OF assms(2,3)]
  by (simp add: inv_orderly_def)

text \<open>The attempt that finds nothing although it knows of an orderly close.\<close>

lemma refresh_finds_all:
  assumes inv: "spsc_inv s" and s: "inv_close s" "orderly s" "1 \<le> cview s L_closed"
    and i: "readable (cview s) (mem s) L_tail i" and pc: "cpc s = C_refresh c final head"
    and none: "stock c head ((queue s)\<lparr>sq_tail_cache := mval (mem s L_tail ! i)\<rparr>) = 0"
  shows "hcount s = tcount s"
proof -
  note I = spsc_invD [OF inv] and M = inv_memD [OF spsc_invD(1) [OF inv]]
  have "Suc (cview s L_tail) = length (mem s L_tail)"
    using close_orderlyD [OF s(1,2)] s(3) by (simp add: inv_orderly_def drained_view_def)
  then have "i = length (tail_counts s) - 1"
    using i M(5) by (simp add: readable_def) linarith
  then have v: "mval (mem s L_tail ! i) = index_of s (tcount s)"
    using M(4) M(7) [of i] by (simp add: last_conv_nth)
  have C: "hcount s \<le> tcount s" "tcount s < hcount s + ring_size s"
    using I(2) by (auto simp: inv_count_def)
  have h: "head = index_of s (hcount s)"
    using I(7) pc by simp
  have proper: "proper_call c"
    using s(1) pc by (simp add: inv_close_def inv_history_def)
  let ?q = "(queue s)\<lparr>sq_tail_cache := index_of s (tcount s)\<rparr>"
  have av: "unat (available head ?q) = tcount s - hcount s"
    using unat_available_at [of head ?q] ring_dist_counts [OF C] h M(2)
      unat_index_of [OF I(1)] slot_of_less [OF I(1)] by simp
  have "hcount s = tcount s" if "head = index_of s (tcount s)"
    using that h index_of_eq_iff [OF I(1) C] by simp
  moreover have "hcount s = tcount s" if "c = Try_pop_n n" for n
  proof -
    have "unat (of_nat n :: usize) = n" "n \<noteq> 0"
      using proper that by (auto simp: proper_call_def intro: unat_of_nat_usize)
    then show ?thesis
      using none that av C(1) by (auto simp: v min_def unat_eq_zero split: if_splits)
  qed
  ultimately show ?thesis
    using none by (cases c) (auto simp: v split: if_splits)
qed

lemma call_proper: "inv_close s \<Longrightarrow> call_of (cpc s) = Some c \<Longrightarrow> proper_call c"
  by (simp add: inv_close_def inv_history_def)

lemma final_knows: "inv_close s \<Longrightarrow> final_attempt (cpc s) \<Longrightarrow> 1 \<le> cview s L_closed"
  by (simp add: inv_close_def inv_history_def)

lemma cview_drained: "inv_close s \<Longrightarrow> orderly s \<Longrightarrow> drained_view s (cview s)"
  by (simp add: inv_close_def inv_orderly_def)

lemma read_some: "inv_close s \<Longrightarrow> cpc s = C_read c final head n xs \<Longrightarrow> 0 < n + length xs"
  unfolding inv_close_def inv_history_def by blast

lemma known_closed: "spsc_inv s \<Longrightarrow> 1 \<le> cview s L_closed \<Longrightarrow> 1 < length (mem s L_closed)"
  using cview_bounded [of s] by (simp add: bounded_def)

lemma refresh_knows:
  assumes inv: "spsc_inv s" and cl: "inv_close s" and pc: "cpc s = C_refresh c final head"
    and i: "readable (cview s) (mem s) L_tail i"
  shows "final \<Longrightarrow> 1 \<le> load_acquire (cview s) (mem s) L_tail i L_closed"
    and "orderly s \<Longrightarrow> final \<Longrightarrow> stock c head ((queue s)\<lparr>sq_tail_cache := mval (mem s L_tail ! i)\<rparr>) = 0 \<Longrightarrow>
      hcount s = tcount s \<and> 1 < length (mem s L_closed)"
proof -
  have know: "1 \<le> cview s L_closed" if final
    using final_knows [OF cl] pc that by simp
  then show "final \<Longrightarrow> 1 \<le> load_acquire (cview s) (mem s) L_tail i L_closed"
    using load_acquire_mono [OF i, of L_closed] order_trans by blast
  show "hcount s = tcount s \<and> 1 < length (mem s L_closed)"
    if "orderly s" final "stock c head ((queue s)\<lparr>sq_tail_cache := mval (mem s L_tail ! i)\<rparr>) = 0"
    using refresh_finds_all [OF inv cl that(1) know [OF that(2)] i pc that(3)] known_closed [OF inv know [OF that(2)]] by simp
qed

lemma c_step_close:
  assumes "c_step s t" and "spsc_inv s" and "inv_close s"
  shows "inv_close t"
  using assms
proof (induction rule: c_step.induct)
  case (call_pop s r c)
  then show ?case
    using cview_drained [OF call_pop(5)] by (intro c_frame [OF call_pop(5)]) (auto simp: proper_call_def)
next
  case (call_pop_none s r)
  then show ?case
    using cview_drained [OF call_pop_none(4)] by (intro c_frame [OF call_pop_none(4)]) auto
next
  case (load_head s c final i)
  then show ?case
    using cview_drained [OF load_head(4)] final_knows [OF load_head(4)] call_proper [OF load_head(4)]
    by (intro c_frame [OF load_head(4)]) (auto simp: load_relaxed_def drained_view_def)
next
  case (check_tail_cache s c final head)
  then show ?case
    using cview_drained [OF check_tail_cache(3)] final_knows [OF check_tail_cache(3)] call_proper [OF check_tail_cache(3)]
    by (intro c_frame [OF check_tail_cache(3)]) (auto simp: proceed_pop_def split: if_splits)
next
  case (refresh_tail_cache s c final head i q)
  show ?case
    using refresh_tail_cache(1,3) drained_acquire [OF refresh_tail_cache(4,5) _ refresh_tail_cache(2)]
      refresh_knows [OF refresh_tail_cache(4,5,1,2)] call_proper [OF refresh_tail_cache(5)]
    by (intro c_frame [OF refresh_tail_cache(5)]) (cases c; auto simp: proceed_pop_def split: if_splits)+
next
  case (read_slot s c final head n taken k junk)
  then show ?case
    using cview_drained [OF read_slot(4)] final_knows [OF read_slot(4)] call_proper [OF read_slot(4)]
    by (intro c_frame [OF read_slot(4)]) (auto simp: access_view_def drained_view_def)
next
  case (read_throws s c final head k junk)
  then show ?case
    using cview_drained [OF read_throws(5)]
    by (intro c_frame [OF read_throws(5)]) (auto simp: access_view_def drained_view_def)
next
  case (publish_head s c final head taken)
  then show ?case
    using cview_drained [OF publish_head(3)] read_some [OF publish_head(3,1)]
    by (intro c_frame [OF publish_head(3)]) (auto simp: store_view_def drained_view_def)
next
  case (pop_load_closed s c i)
  then show ?case
    using drained_acquire [OF pop_load_closed(3,4) _ pop_load_closed(2)] closed_reads [OF pop_load_closed(4,2)]
      call_proper [OF pop_load_closed(4)]
    by (intro c_frame [OF pop_load_closed(4)]) (auto simp: load_acquire_def view_join_def)
next
  case (c_close s r)
  have "inv_history (s\<lparr>queue := (queue s)\<lparr>sq_closed := True\<rparr>, mem := store_release (cview s) (mem s) L_closed 1\<rparr>)"
    using close_history [OF _ inv_memD(12) [OF spsc_invD(1) [OF c_close(2)]]] c_close(3) by (simp add: inv_close_def)
  then show ?case
    using c_close(1) by (simp add: inv_close_def inv_history_def)
next
  case (c_observe_closed s r i)
  then show ?case
    using drained_acquire [OF c_observe_closed(3,4) _ c_observe_closed(2)] close_orderlyD [OF c_observe_closed(4)]
    by (intro c_frame [OF c_observe_closed(4)]) (auto simp: inv_orderly_def)
qed

lemma o_step_close:
  assumes "o_step s t" and "spsc_inv s" and "inv_close s"
  shows "inv_close t"
  using assms
proof (induction rule: o_step.induct)
  case (join_producer s r)
  have b: "bounded s (oview s)" "bounded s (pview s)"
    using oview_bounded [OF join_producer(2)] pview_bounded [OF join_producer(2)] .
  have tail: "Suc (view_join (oview s) (pview s) L_tail) = length (mem s L_tail)"
    using ptail_newest [OF join_producer(2)] b by (simp add: view_join_def bounded_def)
  then show ?case
    using join_producer(1,3)
    by (simp add: inv_close_def inv_history_def inv_orderly_def) (simp add: drained_view_def)
next
  case (o_close s)
  let ?u = "s\<lparr>queue := (queue s)\<lparr>sq_closed := True\<rparr>, mem := store_release (oview s) (mem s) L_closed 1\<rparr>"
  let ?t = "?u\<lparr>oview := store_view (oview s) (mem s) L_closed, orderly := orderly s \<and> finished s\<rparr>"
  have h: "inv_history ?u"
    using close_history [OF _ inv_memD(12) [OF spsc_invD(1) [OF o_close(1)]]] o_close(2) by (simp add: inv_close_def)
  moreover have "inv_orderly ?t" if "orderly s" "finished s"
  proof -
    have tail: "Suc (store_view (oview s) (mem s) L_closed L_tail) = length (mem s L_tail)"
      using o_close(2) that(2) by (simp add: inv_close_def inv_history_def store_view_def)
    show ?thesis
      using close_orderly [OF close_orderlyD [OF o_close(2) that(1)] tail] that(2) tail
      by (simp add: inv_orderly_def) (simp add: drained_view_def)
  qed
  ultimately show ?case
    by (simp add: inv_close_def inv_history_def store_view_def)
next
  case (o_observe_closed s i)
  let ?V = "load_acquire (oview s) (mem s) L_closed i"
  have b: "bounded s ?V"
    using bounded_load_acquire [OF oview_bounded spsc_invD(3), of s L_closed i] o_observe_closed by (simp add: atomic_locs_def)
  have tail: "Suc (?V L_tail) = length (mem s L_tail)" if "Suc (oview s L_tail) = length (mem s L_tail)"
    using b that load_acquire_mono [OF o_observe_closed(1), of L_tail] by (simp add: bounded_def)
  have "drained_view s ?V" if "orderly s"
    using drained_acquire_any [OF o_observe_closed(2,3) that o_observe_closed(1) oview_bounded [OF o_observe_closed(2)]]
      close_orderlyD [OF o_observe_closed(3) that] by (simp add: inv_orderly_def)
  then show ?case
    using o_observe_closed(3) tail by (auto simp: inv_close_def inv_history_def inv_orderly_def drained_view_def)
qed

lemma spsc_reachable_close: "spsc_reachable s \<Longrightarrow> inv_close s"
proof (induction rule: spsc_reachable.induct)
  case (start sz dflt capacity q b)
  then show ?case
    using spsc_new_wf(9) [OF start]
    by (auto simp: spsc_start_def inv_close_def inv_history_def inv_orderly_def drained_view_def)
qed (auto intro: p_step_close c_step_close o_step_close spsc_reachable_inv)

section \<open>What the invariants say of the queue\<close>

lemma spsc_counts_dist:
  assumes "spsc_inv s"
  shows "unat (sq_head (queue s)) = slot_of s (hcount s)" "unat (sq_tail (queue s)) = slot_of s (tcount s)"
    and "spsc_len (queue s) = tcount s - hcount s" and "hcount s \<le> tcount s" "tcount s < hcount s + ring_size s"
proof -
  note I = spsc_invD [OF assms]
  show C: "hcount s \<le> tcount s" "tcount s < hcount s + ring_size s"
    using I(2) by (auto simp: inv_count_def)
  show h: "unat (sq_head (queue s)) = slot_of s (hcount s)" and t: "unat (sq_tail (queue s)) = slot_of s (tcount s)"
    using I(2) unat_index_of [OF I(1)] by (simp_all add: inv_count_def)
  show "spsc_len (queue s) = tcount s - hcount s"
    using ring_dist_counts [OF C] by (simp add: spsc_len_def h t)
qed

lemma spsc_inv_wf:
  assumes "spsc_inv s"
  shows "spsc_wf (queue s)"
proof -
  note I = spsc_invD [OF assms] and M = inv_memD [OF spsc_invD(1) [OF assms]] and D = spsc_counts_dist [OF assms]
  have C: "head_seen s \<le> hcount s" "hcount s \<le> tail_seen s" "tail_seen s \<le> tcount s" "tcount s < head_seen s + ring_size s"
    using I(2) by (auto simp: inv_count_def)
  have c: "unat (sq_head_cache (queue s)) = slot_of s (head_seen s)" "unat (sq_tail_cache (queue s)) = slot_of s (tail_seen s)"
    using I(2) unat_index_of [OF I(1)] by (simp_all add: inv_count_def)
  have "ring_dist (ring_size s) (slot_of s (head_seen s)) (slot_of s (hcount s)) = hcount s - head_seen s"
    "ring_dist (ring_size s) (slot_of s (hcount s)) (slot_of s (tail_seen s)) = tail_seen s - hcount s"
    "ring_dist (ring_size s) (slot_of s (hcount s)) (slot_of s (tcount s)) = tcount s - hcount s"
    using C by (auto intro: ring_dist_counts)
  then show ?thesis
    using C M(1-3) by (simp add: spsc_wf_def Let_def D(1,2) c) linarith
qed

lemma spsc_inv_items:
  assumes "spsc_inv s" and "pend s = []" and "taken s = []"
  shows "pushed s = popped s @ items (spsc_view (queue s))"
proof -
  note I = spsc_invD [OF assms(1)] and D = spsc_counts_dist [OF assms(1)]
  have L: "tcount s = length (pushed s)"
    using I(2) by (simp add: inv_count_def)
  have "items (spsc_view (queue s)) = map (\<lambda>i. sq_buffer (queue s) ! slot_of s (hcount s + i)) [0..<tcount s - hcount s]"
    by (simp add: D ring_items_def mod_simps)
  also have "\<dots> = map (\<lambda>i. pushed s ! (hcount s + i)) [0..<tcount s - hcount s]"
    using I(5) D(4) by (intro map_cong) (auto simp: inv_data_def assms)
  also have "\<dots> = drop (hcount s) (pushed s)"
    using L by (intro nth_equalityI) simp_all
  finally show ?thesis
    using I(5) append_take_drop_id [of "hcount s" "pushed s"] by (simp add: inv_data_def assms)
qed

end
