(* ===== verification/Spsc_Properties.thy ===== *)
theory Spsc_Properties
  imports Spsc_Shutdown "HOL-Library.Sublist"
begin

text \<open>
  What holds of \<open>SpscQueue\<close> under every interleaving of its producer, its consumer and the
  owner: no data race on a slot, FIFO order and the capacity bound, agreement with the
  sequential model, and the ``closed and drained'' contract of \<^verbatim>\<open>pop\<close>.
\<close>

section \<open>A sample run\<close>

definition spsc_fresh :: "int spsc_queue" where
  "spsc_fresh = \<lparr>sq_buffer = [0, 0, 0], sq_head = 0, sq_tail_cache = 0, sq_tail = 0, sq_head_cache = 0, sq_closed = False\<rparr>"

lemma spsc_new_fresh: "spsc_new 4 (0::int) 2 = Inr spsc_fresh"
  by (simp add: spsc_new_def ring_slots_def vector_new_def vector_max_size_def replicate_small spsc_fresh_def)

text \<open>A run: the producer pushes 5, the consumer pops it; then the producer closes and the next pop gives up.\<close>

lemma load_relaxed_zero [simp]: "load_relaxed (\<lambda>_. 0) l 0 = (\<lambda>_. 0)"
  by (simp add: load_relaxed_def fun_eq_iff)

definition spsc_writing :: "int spsc_sys" where
  "spsc_writing = (spsc_start spsc_fresh)\<lparr>ppc := P_write (Push 5) 0 [5] []\<rparr>"

lemma spsc_writing_any: "spsc_reachable (spsc_writing\<lparr>noexcept_type := b\<rparr>)"
proof -
  let ?s = "(spsc_start spsc_fresh)\<lparr>noexcept_type := b\<rparr>"
  have "spsc_reachable ?s"
    by (rule spsc_reachable.start [OF spsc_new_fresh]) simp
  from producer [OF this call_push [of _ 0 5]] have "spsc_reachable (?s\<lparr>ppc := P_tail (Push 5)\<rparr>)"
    by (simp add: spsc_start_def)
  from producer [OF this load_tail [of _ "Push 5" 0 0]] have "spsc_reachable (?s\<lparr>ppc := P_closed (Push 5) (Some 0)\<rparr>)"
    by (simp add: spsc_start_def readable_def)
  from producer [OF this load_closed [of _ "Push 5" "Some 0" 0]] have "spsc_reachable (?s\<lparr>ppc := P_room (Push 5) 0\<rparr>)"
    by (simp add: spsc_start_def readable_def)
  from producer [OF this check_cache [of _ "Push 5" 0]] show ?thesis
    by (simp add: spsc_start_def proceed_push_def spsc_writing_def spsc_next_def spsc_fresh_def vector_size_def)
qed

lemma spsc_writing_reachable: "spsc_reachable spsc_writing"
  using spsc_writing_any [of True] by (simp add: spsc_writing_def spsc_start_def)

definition spsc_reading :: "int spsc_sys" where
  "spsc_reading =
    (let V = (\<lambda>_. 0)(L_slot 0 := 1, L_tail := 1) in
     (spsc_start \<lparr>sq_buffer = [5, 0, 0], sq_head = 0, sq_tail_cache = 1, sq_tail = 1, sq_head_cache = 0, sq_closed = False\<rparr>)
       \<lparr>mem := (\<lambda>_. [\<lparr>mval = 0, mview = (\<lambda>_. 0)\<rparr>])
          (L_tail := [\<lparr>mval = 0, mview = (\<lambda>_. 0)\<rparr>, \<lparr>mval = 1, mview = V\<rparr>]),
        acc := (\<lambda>_. 0)(0 := 1), pview := V, cview := V,
        tail_counts := [0, 1], tail_seen := 1, pushed := [5], offered := [5], ppc := P_idle 1, cpc := C_read Pop False 0 1 []\<rparr>)"

lemma spsc_reading_any: "spsc_reachable (spsc_reading\<lparr>noexcept_type := b\<rparr>)"
proof -
  let ?m = "\<lparr>mval = 0, mview = (\<lambda>_. 0)\<rparr> :: spsc_loc message"
  from producer [OF spsc_writing_any [of b] write_slot [of _ "Push 5" 0 5 "[]" "[]"]]
  have "spsc_reachable ((spsc_start (spsc_fresh\<lparr>sq_buffer := [5, 0, 0]\<rparr>))
      \<lparr>noexcept_type := b, acc := (\<lambda>_. 0)(0 := 1), pview := (\<lambda>_. 0)(L_slot 0 := 1), ppc := P_write (Push 5) 1 [] [5]\<rparr>)"
    by (simp add: spsc_writing_def spsc_start_def access_view_def spsc_next_def spsc_fresh_def vector_size_def)
  from producer [OF this publish_tail [of _ "Push 5" 1 "[5]"]]
  have "spsc_reachable ((spsc_start (spsc_fresh\<lparr>sq_buffer := [5, 0, 0], sq_tail := 1\<rparr>))
      \<lparr>noexcept_type := b, mem := (\<lambda>_. [?m])(L_tail := [?m, \<lparr>mval = 1, mview = (\<lambda>_. 0)(L_slot 0 := 1, L_tail := 1)\<rparr>]),
       acc := (\<lambda>_. 0)(0 := 1), pview := (\<lambda>_. 0)(L_slot 0 := 1, L_tail := 1), tail_counts := [0, 1], pushed := [5], offered := [5], ppc := P_idle 1\<rparr>)" (is "spsc_reachable ?p")
    by (simp add: spsc_start_def store_release_def store_view_def spsc_fresh_def)
  from consumer [OF this call_pop [of _ None Pop]] have "spsc_reachable (?p\<lparr>cpc := C_head Pop False\<rparr>)"
    by (simp add: spsc_start_def)
  from consumer [OF this load_head [of _ Pop False 0]] have "spsc_reachable (?p\<lparr>cpc := C_data Pop False 0\<rparr>)"
    by (simp add: spsc_start_def readable_def)
  from consumer [OF this check_tail_cache [of _ Pop False 0]] have "spsc_reachable (?p\<lparr>cpc := C_refresh Pop False 0\<rparr>)"
    by (simp add: spsc_start_def proceed_pop_def spsc_fresh_def)
  from consumer [OF this refresh_tail_cache [of _ Pop False 0 1]] show ?thesis
    by (simp add: spsc_start_def proceed_pop_def spsc_fresh_def spsc_reading_def readable_def load_acquire_def view_join_def
       fun_eq_iff fun_upd_def Let_def)
qed

lemma spsc_reading_reachable: "spsc_reachable spsc_reading"
  using spsc_reading_any [of True] by (simp add: spsc_reading_def spsc_start_def Let_def)

text \<open>The same run for a type whose move may throw, as it does when the item is moved out.\<close>

definition spsc_thrown :: "int spsc_sys" where
  "spsc_thrown = spsc_reading\<lparr>queue := (queue spsc_reading)\<lparr>sq_buffer := [9, 0, 0]\<rparr>, noexcept_type := False,
     acc := (\<lambda>_. 0)(0 := 2), cview := (cview spsc_reading)(L_slot 0 := 2), pushed := [9], spoilt := {0}, cpc := C_idle None\<rparr>"

lemma spsc_thrown_reachable: "spsc_reachable spsc_thrown"
  by (rule back_subst [of spsc_reachable, OF consumer [OF spsc_reading_any [of False] read_throws [of _ Pop False 0 0 9]]])
    (simp_all add: spsc_thrown_def spsc_reading_def spsc_start_def access_view_def Let_def numeral_2_eq_2)

text \<open>The run goes on: the item is popped, the producer closes, and the next blocking pop gives up.\<close>

definition spsc_given_up :: "int spsc_sys" where
  "spsc_given_up =
    (let V = (\<lambda>_. 0)(L_slot 0 := 1, L_tail := 1); W = V(L_slot 0 := 2, L_head := 1); U = V(L_closed := 1);
         m = \<lparr>mval = 0, mview = (\<lambda>_. 0)\<rparr> in
     (spsc_start \<lparr>sq_buffer = [5, 0, 0], sq_head = 1, sq_tail_cache = 1, sq_tail = 1, sq_head_cache = 0, sq_closed = True\<rparr>)
       \<lparr>mem := (\<lambda>_. [m])(L_tail := [m, \<lparr>mval = 1, mview = V\<rparr>], L_head := [m, \<lparr>mval = 1, mview = W\<rparr>],
                        L_closed := [m, \<lparr>mval = 1, mview = U\<rparr>]),
        acc := (\<lambda>_. 0)(0 := 2), pview := U, cview := W(L_closed := 1),
        tail_counts := [0, 1], head_counts := [0, 1], tail_seen := 1, pushed := [5], offered := [5], popped := [5], ppc := P_idle 1,
        cpc := C_idle (Some (Pop, []))\<rparr>)"

definition spsc_last_try :: "int spsc_sys" where
  "spsc_last_try = spsc_given_up\<lparr>cpc := C_refresh Pop True 1\<rparr>"

lemma spsc_last_try_reachable: "spsc_reachable spsc_last_try"
proof -
  let ?m = "\<lparr>mval = 0, mview = (\<lambda>_. 0)\<rparr> :: spsc_loc message"
  let ?V = "(\<lambda>_. 0)(L_slot 0 := 1, L_tail := 1) :: spsc_loc view"
  note acq = spsc_start_def proceed_pop_def readable_def load_acquire_def load_relaxed_def view_join_def fun_eq_iff
  let ?W = "?V(L_slot 0 := 2)" and ?W' = "?V(L_slot 0 := 2, L_head := 1)" and ?U = "?V(L_closed := 1)"
  let ?q = "\<lparr>sq_buffer = [5, 0, 0 :: int], sq_head = 0, sq_tail_cache = 1, sq_tail = 1, sq_head_cache = 0, sq_closed = False\<rparr>"
  from consumer [OF spsc_reading_reachable read_slot [of _ Pop False 0 0 "[]" 0 5]]
  have "spsc_reachable ((spsc_start ?q)\<lparr>mem := (\<lambda>_. [?m])(L_tail := [?m, \<lparr>mval = 1, mview = ?V\<rparr>]), acc := (\<lambda>_. 0)(0 := 2),
      pview := ?V, cview := ?W, tail_counts := [0, 1], tail_seen := 1, pushed := [5], offered := [5], ppc := P_idle 1,
      cpc := C_read Pop False 1 0 [5]\<rparr>)"
    by (simp add: spsc_reading_def spsc_start_def access_view_def spsc_next_def vector_size_def Let_def fun_upd_twist
       numeral_2_eq_2)
  from consumer [OF this publish_head [of _ Pop False 1 "[5]"]]
  have "spsc_reachable ((spsc_start (?q\<lparr>sq_head := 1\<rparr>))\<lparr>mem := (\<lambda>_. [?m])(L_tail := [?m, \<lparr>mval = 1, mview = ?V\<rparr>],
      L_head := [?m, \<lparr>mval = 1, mview = ?W'\<rparr>]), acc := (\<lambda>_. 0)(0 := 2),
      pview := ?V, cview := ?W', tail_counts := [0, 1], head_counts := [0, 1], tail_seen := 1, pushed := [5], offered := [5], popped := [5],
      ppc := P_idle 1, cpc := C_idle (Some (Pop, [5]))\<rparr>)"
    by (simp add: spsc_start_def store_release_def store_view_def)
  from producer [OF this p_close [of _ 1]]
  have "spsc_reachable ((spsc_start (?q\<lparr>sq_head := 1, sq_closed := True\<rparr>))
      \<lparr>mem := (\<lambda>_. [?m])(L_tail := [?m, \<lparr>mval = 1, mview = ?V\<rparr>],
          L_head := [?m, \<lparr>mval = 1, mview = ?W'\<rparr>], L_closed := [?m, \<lparr>mval = 1, mview = ?U\<rparr>]), acc := (\<lambda>_. 0)(0 := 2),
      pview := ?U, cview := ?W', tail_counts := [0, 1], head_counts := [0, 1], tail_seen := 1, pushed := [5], offered := [5], popped := [5],
      ppc := P_idle 1, cpc := C_idle (Some (Pop, [5]))\<rparr>)" (is "spsc_reachable ?p")
    by (simp add: spsc_start_def store_release_def store_view_def)
  from consumer [OF this call_pop [of _ "Some (Pop, [5])" Pop]] have "spsc_reachable (?p\<lparr>cpc := C_head Pop False\<rparr>)"
    by (simp add: spsc_start_def)
  from consumer [OF this load_head [of _ Pop False 1]] have "spsc_reachable (?p\<lparr>cpc := C_data Pop False 1\<rparr>)"
    by (simp add: spsc_start_def readable_def load_relaxed_def)
  from consumer [OF this check_tail_cache [of _ Pop False 1]] have "spsc_reachable (?p\<lparr>cpc := C_refresh Pop False 1\<rparr>)"
    by (simp add: spsc_start_def proceed_pop_def)
  then have "spsc_reachable (?p\<lparr>cpc := C_closed Pop\<rparr>)"
    by (rule back_subst [of spsc_reachable, OF consumer [OF _ refresh_tail_cache [of _ Pop False 1 1]]])
      (auto simp: acq)
  then have "spsc_reachable (?p\<lparr>cview := ?W'(L_closed := 1), cpc := C_head Pop True\<rparr>)" (is "spsc_reachable ?r")
    by (rule back_subst [of spsc_reachable, OF consumer [OF _ pop_load_closed [of _ Pop 1]]]) (auto simp: acq)
  then have "spsc_reachable (?r\<lparr>cpc := C_data Pop True 1\<rparr>)"
    by (rule back_subst [of spsc_reachable, OF consumer [OF _ load_head [of _ Pop True 1]]]) (auto simp: acq)
  then have "spsc_reachable (?r\<lparr>cpc := C_refresh Pop True 1\<rparr>)"
    by (rule back_subst [of spsc_reachable, OF consumer [OF _ check_tail_cache [of _ Pop True 1]]]) (auto simp: acq)
  then show ?thesis
    by (simp add: spsc_last_try_def spsc_given_up_def spsc_start_def Let_def fun_upd_twist)
qed

lemma spsc_last_step: "c_step spsc_last_try spsc_given_up"
  by (rule back_subst [of "c_step spsc_last_try", OF refresh_tail_cache [of _ Pop True 1 1]])
    (auto simp: spsc_last_try_def spsc_given_up_def spsc_start_def proceed_pop_def readable_def load_acquire_def
      view_join_def fun_eq_iff Let_def)

lemma spsc_given_up_reachable: "spsc_reachable spsc_given_up"
  by (rule consumer [OF spsc_last_try_reachable spsc_last_step])

section \<open>Properties\<close>

text \<open>
  C2. Two threads, every interleaving, every stale value the memory model lets a load
  return: when the producer is about to move an item into a slot, and when the consumer is
  about to move one out, the slot exists and all earlier accesses to it happen before this
  one. So no two accesses to a slot race, on the cached fast path included.
\<close>

theorem spsc_race_free:
  assumes "spsc_reachable s"
  shows "(case ppc s of P_write c tail (v # todo) moved \<Rightarrow>
        unat tail < ring_size s \<and> \<not> races (pview s) (L_slot (unat tail)) (acc s (unat tail)) | _ \<Rightarrow> True) \<and>
    (case cpc s of C_read c final head (Suc n) xs \<Rightarrow>
        unat head < ring_size s \<and> \<not> races (cview s) (L_slot (unat head)) (acc s (unat head)) | _ \<Rightarrow> True)"
proof -
  note I = spsc_invD [OF spsc_reachable_inv [OF assms]]
  have C: "hcount s + length (taken s) \<le> tail_seen s" "tail_seen s \<le> tcount s"
    using I(2) by (simp_all add: inv_count_def)
  show ?thesis
    using I(6,7) C inv_ownD(2) [OF I(4), of "tcount s + length (pend s)"]
      inv_ownD(3) [OF I(4), of "hcount s + length (taken s)"] unat_index_of [OF I(1)] slot_of_less [OF I(1)]
    by (auto simp: races_def pend_def taken_def split: producer_pc.splits consumer_pc.splits list.splits nat.splits)
qed

theorem spsc_race_free_witness:
  "\<not> races (pview spsc_writing) (L_slot 0) (acc spsc_writing 0) \<and>
   \<not> races (cview spsc_reading) (L_slot 0) (acc spsc_reading 0)"
  using spsc_race_free [OF spsc_writing_reachable] spsc_race_free [OF spsc_reading_reachable]
  by (simp add: spsc_writing_def spsc_reading_def Let_def)

lemma spoilt_reachable:
  "spsc_reachable s \<Longrightarrow> length (offered s) = length (pushed s) \<and>
    (\<forall>j < length (pushed s). j \<notin> spoilt s \<longrightarrow> pushed s ! j = offered s ! j) \<and>
    spoilt s \<subseteq> {..<length (pushed s)} \<and> (noexcept_type s \<longrightarrow> spoilt s = {})"
proof (induction rule: spsc_reachable.induct)
  case (start sz dflt capacity q b)
  then show ?case by (simp add: spsc_start_def)
next
  case (producer s t)
  from producer.hyps(2) producer.IH show ?case by (induction rule: p_step.induct) (auto simp: nth_append)
next
  case (consumer s t)
  note inv = spsc_reachable_inv [OF consumer.hyps(1)]
  from consumer.hyps(2) show ?case
  proof cases
    case (read_throws c final head k junk)
    then show ?thesis
      using consumer.IH reading_at(5) [OF inv read_throws(2)] by (auto simp: nth_list_update)
  qed (use consumer.IH in auto)
next
  case (owner s t)
  from owner.hyps(2) owner.IH show ?case by (induction rule: o_step.induct) auto
qed

text \<open>
  C6. In every reachable state of the two threads, the items popped so far are, in order,
  the first of the items pushed, the ones being moved out are the next ones, and the number
  of items pushed and not yet popped is at most the capacity. For an element type whose move
  assignment does not throw these are the very values the producer gave.
\<close>

theorem spsc_concurrent_fifo:
  assumes "spsc_reachable s"
  shows "prefix (popped s @ taken s) (pushed s) \<and>
    length (pushed s) \<le> length (popped s) + unat (spsc_capacity (queue s)) \<and>
    (noexcept_type s \<longrightarrow> pushed s = offered s)"
proof -
  note I = spsc_invD [OF spsc_reachable_inv [OF assms]] and S = spoilt_reachable [OF assms]
  have "length (pushed s) < length (popped s) + ring_size s"
    using I(2) by (auto simp: inv_count_def)
  moreover have "prefix (popped s @ taken s) (pushed s)"
    using I(5) by (metis inv_data_def take_is_prefix)
  moreover have "pushed s = offered s" if "noexcept_type s"
    using S that by (intro nth_equalityI) auto
  ultimately show ?thesis
    using unat_spsc_capacity [OF spsc_inv_wf [OF spsc_reachable_inv [OF assms]]] by auto
qed

theorem spsc_concurrent_fifo_witness: "prefix (popped spsc_reading @ taken spsc_reading) [5]"
  using spsc_concurrent_fifo [OF spsc_reading_reachable] by (simp add: spsc_reading_def Let_def)

text \<open>
  C7. If the move assignment of the element type throws, with both threads at work: nothing is
  lost or duplicated. The queue holds exactly the items accepted and not yet handed out, by
  number and in order, and every item handed out has the value it was pushed with, unless an
  earlier pop of that very item threw (\<open>spoilt\<close>). A call that throws, which is one that ends while
  it still has an item to move, be it \<^verbatim>\<open>push\<close>, \<^verbatim>\<open>try_push\<close>, \<^verbatim>\<open>pop\<close> or \<^verbatim>\<open>try_pop\<close>, leaves both indices
  and both counts as they are.
\<close>

theorem spsc_throw_safe:
  assumes "spsc_reachable s"
  shows "length (popped s) + length (items (spsc_view (queue s))) = length (offered s) \<and>
    (\<forall>j < length (popped s). j \<notin> spoilt s \<longrightarrow> popped s ! j = offered s ! j) \<and>
    (\<forall>t. p_step s t \<and> ppc s = P_write c tail (v # todo) moved \<and> ppc t = P_idle r \<or>
         c_step s t \<and> cpc s = C_read d final head (Suc n) xs \<and> cpc t = C_idle r' \<longrightarrow>
       sq_head (queue t) = sq_head (queue s) \<and> sq_tail (queue t) = sq_tail (queue s) \<and>
       offered t = offered s \<and> popped t = popped s)"
proof (intro conjI)
  note R = spsc_reachable_inv [OF assms] and S = spoilt_reachable [OF assms]
  note I = spsc_invD [OF R] and D = spsc_counts_dist [OF R]
  show "length (popped s) + length (items (spsc_view (queue s))) = length (offered s)"
    using I(2) D(3,4) S by (simp add: inv_count_def)
  have "popped s ! j = pushed s ! j" if "j < length (popped s)" for j
    using I(5) that nth_append [of "popped s" "taken s" j] by (metis inv_data_def nth_take length_append trans_less_add1
        I(2) inv_count_def length_take min_less_iff_conj)
  then show "\<forall>j < length (popped s). j \<notin> spoilt s \<longrightarrow> popped s ! j = offered s ! j"
    using S I(2) by (simp add: inv_count_def)
qed (auto elim!: p_step.cases c_step.cases)

theorem spsc_throw_safe_witness:
  "length (popped spsc_thrown) + length (items (spsc_view (queue spsc_thrown))) = 1 \<and> \<not> noexcept_type spsc_thrown"
  using spsc_throw_safe [OF spsc_thrown_reachable] by (simp add: spsc_thrown_def spsc_reading_def spsc_start_def Let_def)

text \<open>
  C15. Whatever the two threads have done, the state of the queue is well formed: the cached
  indices lag behind the real ones but never run ahead, so every operation of the
  sequential model applies to it; and while neither side is in the middle of a move, the
  queue holds exactly the items pushed and not yet popped.
\<close>

theorem spsc_concurrent_refines:
  assumes "spsc_reachable s"
  shows "spsc_wf (queue s) \<and>
    (pend s = [] \<and> taken s = [] \<longrightarrow> pushed s = popped s @ items (spsc_view (queue s)))"
  using spsc_inv_wf [OF spsc_reachable_inv [OF assms]] spsc_inv_items [OF spsc_reachable_inv [OF assms]] by blast

theorem spsc_concurrent_refines_witness:
  "pushed spsc_given_up = popped spsc_given_up @ items (spsc_view (queue spsc_given_up))"
  using spsc_concurrent_refines [OF spsc_given_up_reachable]
  by (simp add: spsc_given_up_def pend_def taken_def spsc_start_def Let_def)

text \<open>
  C8. Closed and drained: if every close so far came from the producer itself or from the
  owner after it joined the producer, then a \<^verbatim>\<open>pop\<close> returns false only when the queue has
  been closed and every item ever pushed has been popped.
\<close>

theorem spsc_pop_false_drained:
  assumes "spsc_reachable s" and "orderly s" and "cpc s = C_idle (Some (Pop, []))"
  shows "sq_closed (queue s) \<and> popped s = pushed s"
proof -
  note I = spsc_invD [OF spsc_reachable_inv [OF assms(1)]] and K = spsc_reachable_close [OF assms(1)]
  have "hcount s = tcount s" "1 < length (mem s L_closed)"
    using close_orderlyD [OF K assms(2)] assms(3) by (simp_all add: inv_orderly_def)
  then show ?thesis
    using I(2,5) K assms(3) by (simp add: inv_count_def inv_data_def inv_close_def inv_history_def taken_def)
qed

theorem spsc_pop_false_drained_witness: "popped spsc_given_up = [5] \<and> pushed spsc_given_up = [5]"
  using spsc_pop_false_drained [OF spsc_given_up_reachable] by (simp add: spsc_given_up_def spsc_start_def Let_def)

text \<open>
  C16. The same for the non-blocking consumer loop of the README: once the consumer has seen
  \<^verbatim>\<open>closed()\<close> return true, an attempt (\<^verbatim>\<open>try_pop\<close>, or \<^verbatim>\<open>try_pop_n\<close> of a nonempty span)
  that comes back empty-handed means that every item ever pushed has been popped.
\<close>

theorem spsc_try_pop_false_drained:
  assumes "spsc_reachable s" and "orderly s" and "1 \<le> cview s L_closed" and "cpc s = C_refresh c final head"
    and "c_step s t" and "cpc t = C_idle (Some (c, []))"
  shows "popped t = pushed t"
proof -
  note R = spsc_reachable_inv [OF assms(1)] and K = spsc_reachable_close [OF assms(1)]
  show ?thesis
    using assms(5,4,6)
  proof (cases rule: c_step.cases)
    case (refresh_tail_cache c' final' head' i q)
    have "stock c head q = 0"
      using refresh_tail_cache assms(4,6) by (auto simp: proceed_pop_def split: if_splits)
    then have "hcount s = tcount s"
      using refresh_finds_all [OF R K assms(2,3) _ assms(4)] refresh_tail_cache assms(4) by auto
    then show ?thesis
      using spsc_invD(2,5) [OF R] assms(4) refresh_tail_cache(1)
      by (simp add: inv_count_def inv_data_def taken_def)
  qed simp_all
qed

theorem spsc_try_pop_false_drained_witness: "popped spsc_given_up = pushed spsc_given_up"
  using spsc_try_pop_false_drained [OF spsc_last_try_reachable _ _ _ spsc_last_step, of Pop True 1]
  by (simp add: spsc_last_try_def spsc_given_up_def spsc_start_def Let_def)

text \<open>The two loads of \<^verbatim>\<open>size()\<close> may return any two published indices.\<close>

lemma spsc_size_snapshot:
  assumes "spsc_reachable s" and "mh \<in> set (mem s L_head)" and "mt \<in> set (mem s L_tail)"
  shows "spsc_size_of (mval mh) (mval mt) (queue s) \<le> spsc_capacity (queue s)"
proof -
  note R = spsc_reachable_inv [OF assms(1)]
  note I = spsc_invD [OF R] and M = inv_memD [OF spsc_invD(1) [OF R]] and W = spsc_inv_wf [OF R]
  obtain i j where "mval mh = index_of s i" "mval mt = index_of s j"
    using assms(2,3) M(5,7,9,11) by (metis in_set_conv_nth)
  then have "unat (spsc_size_of (mval mh) (mval mt) (queue s)) < ring_size s"
    using unat_spsc_size_of [of "mval mh" "queue s" "mval mt"] unat_index_of [OF I(1)] slot_of_less [OF I(1)] M(2)
      ring_dist_less [OF M(3)] by simp
  then show ?thesis
    using unat_spsc_capacity [OF W] by (simp add: word_le_nat_alt)
qed

end
