(* ===== verification/Spsc_Progress.thy ===== *)
theory Spsc_Progress
  imports Spsc_Properties
begin

text \<open>
  The non-blocking calls of \<open>SpscQueue\<close> are wait-free: whatever the other threads do, and
  whatever stale values the loads return, a call returns after a bounded number of its own
  steps, and until then it always has a next one.
\<close>

section \<open>Calls with a bounded number of own steps\<close>

text \<open>\<open>own_steps own other busy s n t\<close>: a run from \<open>s\<close> to \<open>t\<close> in which the thread made \<open>n\<close> steps, all of them in the call.\<close>

inductive own_steps ::
  "('s \<Rightarrow> 's \<Rightarrow> bool) \<Rightarrow> ('s \<Rightarrow> 's \<Rightarrow> bool) \<Rightarrow> ('s \<Rightarrow> bool) \<Rightarrow> 's \<Rightarrow> nat \<Rightarrow> 's \<Rightarrow> bool"
  for own other and busy and s where
  begin_run: "own_steps own other busy s 0 s"
| own_step: "own_steps own other busy s n t \<Longrightarrow> busy t \<Longrightarrow> own t u \<Longrightarrow> own_steps own other busy s (Suc n) u"
| other_step: "own_steps own other busy s n t \<Longrightarrow> other t u \<Longrightarrow> own_steps own other busy s n u"

locale bounded_call =
  fixes own other :: "'s \<Rightarrow> 's \<Rightarrow> bool" and good busy :: "'s \<Rightarrow> bool" and work :: "'s \<Rightarrow> nat"
  assumes own_good: "good s \<Longrightarrow> own s t \<Longrightarrow> good t"
    and other_good: "good s \<Longrightarrow> other s t \<Longrightarrow> good t"
    and own_works: "busy s \<Longrightarrow> own s t \<Longrightarrow> work t < work s"
    and other_keeps: "other s t \<Longrightarrow> work t = work s"
    and not_stuck: "good s \<Longrightarrow> busy s \<Longrightarrow> \<exists>t. own s t"
begin

lemma run_bounded:
  assumes "own_steps own other busy s n t"
  shows "n + work t \<le> work s"
  using assms
proof induction
  case (own_step n t u)
  then show ?case using own_works [of t u] by simp
qed (simp_all add: other_keeps)

lemma run_good:
  assumes "own_steps own other busy s n t" and "good s"
  shows "good t"
  using assms by induction (auto intro: own_good other_good)

lemma wait_free:
  assumes "own_steps own other busy s n t" and "good s"
  shows "n \<le> work s \<and> (busy t \<longrightarrow> (\<exists>u. own t u))"
  using run_bounded [OF assms(1)] not_stuck [OF run_good [OF assms]] by auto

end

section \<open>The two sides of the queue\<close>

fun nonblocking_push :: "'a push_call \<Rightarrow> bool" where
  "nonblocking_push (Push v) = False"
| "nonblocking_push c = True"

fun push_of :: "'a producer_pc \<Rightarrow> 'a push_call option" where
  "push_of (P_idle r) = None"
| "push_of (P_closed c t) = Some c"
| "push_of (P_tail c) = Some c"
| "push_of (P_room c tail) = Some c"
| "push_of (P_refresh c tail) = Some c"
| "push_of (P_write c tail todo moved) = Some c"

text \<open>The steps a side still has to make at most.\<close>

fun push_work :: "'a producer_pc \<Rightarrow> nat" where
  "push_work (P_idle r) = 0"
| "push_work (P_closed c t) = 5 + length (items_of c)"
| "push_work (P_tail c) = 4 + length (items_of c)"
| "push_work (P_room c tail) = 3 + length (items_of c)"
| "push_work (P_refresh c tail) = 2 + length (items_of c)"
| "push_work (P_write c tail todo moved) = Suc (length todo)"

definition trying_push :: "'a spsc_sys \<Rightarrow> bool" where
  "trying_push s \<longleftrightarrow> (case push_of (ppc s) of None \<Rightarrow> False | Some c \<Rightarrow> nonblocking_push c)"

fun asked :: "pop_call \<Rightarrow> nat" where
  "asked (Try_pop_n n) = n"
| "asked c = 1"

fun pop_work :: "'a consumer_pc \<Rightarrow> nat" where
  "pop_work (C_idle r) = 0"
| "pop_work (C_head c final) = 4 + asked c"
| "pop_work (C_data c final head) = 3 + asked c"
| "pop_work (C_refresh c final head) = 2 + asked c"
| "pop_work (C_read c final head n xs) = Suc n"
| "pop_work (C_closed c) = 5 + asked c"

definition trying_pop :: "'a spsc_sys \<Rightarrow> bool" where
  "trying_pop s \<longleftrightarrow> (case call_of (cpc s) of None \<Rightarrow> False | Some c \<Rightarrow> c \<noteq> Pop)"

lemma push_step_works:
  assumes "p_step s t" and "trying_push s"
  shows "push_work (ppc t) < push_work (ppc s)"
  using assms
proof (induction rule: p_step.induct)
  case (refresh_cache s c tail i q)
  then show ?case by (cases c) (auto simp: trying_push_def proceed_push_def)
qed (auto simp: trying_push_def proceed_push_def split: push_call.splits option.splits)

lemma stock_asked: "stock c head q \<le> asked c"
proof (cases c)
  case (Try_pop_n n)
  have "unat (of_nat n :: usize) \<le> n"
    by (simp add: unat_of_nat take_bit_nat_def)
  moreover have "unat (min (of_nat n) (available head q)) \<le> unat (of_nat n :: usize)"
    by (simp add: min_def word_le_nat_alt)
  ultimately show ?thesis
    by (simp add: Try_pop_n)
qed simp_all

lemma pop_step_works:
  assumes "c_step s t" and "trying_pop s"
  shows "pop_work (cpc t) < pop_work (cpc s)"
  using assms
proof (induction rule: c_step.induct)
  case (check_tail_cache s c final head)
  then show ?case using stock_asked [of c head "queue s"] by (simp add: proceed_pop_def)
next
  case (refresh_tail_cache s c final head i q)
  then show ?case using stock_asked [of c head q] by (cases c) (simp_all add: proceed_pop_def trying_pop_def)
qed (auto simp: trying_pop_def)

text \<open>Some message can always be read: the newest one, if no other.\<close>

lemma readable_newest: "bounded s V \<Longrightarrow> l \<in> atomic_locs \<Longrightarrow> readable V (mem s) l (length (mem s l) - 1)"
  by (auto simp: bounded_def readable_def atomic_locs_def)

lemma push_not_stuck:
  assumes "spsc_reachable s" and "trying_push s"
  shows "\<exists>t. p_step s t"
proof -
  note B = readable_newest [OF pview_bounded [OF spsc_reachable_inv [OF assms(1)]]]
  have R: "\<exists>i. readable (pview s) (mem s) l i" if "l \<in> {L_head, L_tail, L_closed}" for l
    using B [of l] that by (auto simp: atomic_locs_def)
  show ?thesis
  proof (cases "ppc s")
    case (P_idle r)
    then show ?thesis using assms(2) by (simp add: trying_push_def)
  next
    case (P_write c tail todo moved)
    then show ?thesis by (cases todo) (blast intro: p_step.write_slot p_step.publish_tail)+
  qed (use R in \<open>blast intro: p_step.load_closed p_step.load_tail p_step.check_cache p_step.refresh_cache\<close>)+
qed

lemma pop_not_stuck:
  assumes "spsc_reachable s" and "trying_pop s"
  shows "\<exists>t. c_step s t"
proof -
  note B = readable_newest [OF cview_bounded [OF spsc_reachable_inv [OF assms(1)]]]
  have R: "\<exists>i. readable (cview s) (mem s) l i" if "l \<in> {L_head, L_tail, L_closed}" for l
    using B [of l] that by (auto simp: atomic_locs_def)
  show ?thesis
  proof (cases "cpc s")
    case (C_idle r)
    then show ?thesis using assms(2) by (simp add: trying_pop_def)
  next
    case (C_read c final head n xs)
    then show ?thesis by (cases n) (blast intro: c_step.read_slot c_step.publish_head)+
  qed (use R in \<open>blast intro: c_step.load_head c_step.check_tail_cache c_step.refresh_tail_cache c_step.pop_load_closed\<close>)+
qed

lemma other_keeps_ppc: "c_step s t \<or> o_step s t \<Longrightarrow> ppc t = ppc s"
  by (auto elim: c_step.cases o_step.cases)

lemma other_keeps_cpc: "p_step s t \<or> o_step s t \<Longrightarrow> cpc t = cpc s"
  by (auto elim: p_step.cases o_step.cases)

interpretation pushing: bounded_call p_step "\<lambda>s t. c_step s t \<or> o_step s t" spsc_reachable trying_push "\<lambda>s. push_work (ppc s)"
proof unfold_locales
  show "push_work (ppc t) = push_work (ppc s)" if "c_step s t \<or> o_step s t" for s t
    using other_keeps_ppc [OF that] by simp
qed (auto intro: spsc_reachable.intros push_step_works push_not_stuck)

interpretation popping: bounded_call c_step "\<lambda>s t. p_step s t \<or> o_step s t" spsc_reachable trying_pop "\<lambda>s. pop_work (cpc s)"
proof unfold_locales
  show "pop_work (cpc t) = pop_work (cpc s)" if "p_step s t \<or> o_step s t" for s t
    using other_keeps_cpc [OF that] by simp
qed (auto intro: spsc_reachable.intros pop_step_works pop_not_stuck)

text \<open>
  C17. \<^verbatim>\<open>try_push\<close>, \<^verbatim>\<open>try_push_n\<close>, \<^verbatim>\<open>try_pop\<close> and \<^verbatim>\<open>try_pop_n\<close> are wait-free: in every run of the
  threads, a call of one of them on at most \<open>k\<close> items makes at most \<open>5 + k\<close> steps (a step is one
  access to an atomic, to the cache or to a slot) before it returns, and at every moment
  before that it can make its next step, wherever the other threads are.
\<close>

theorem spsc_try_wait_free:
  assumes "spsc_reachable s"
  shows "(ppc s = P_closed c None \<and> nonblocking_push c \<and>
      own_steps p_step (\<lambda>s t. c_step s t \<or> o_step s t) trying_push s n t \<longrightarrow>
        n \<le> 5 + length (items_of c) \<and> (trying_push t \<longrightarrow> (\<exists>u. p_step t u))) \<and>
    (cpc s = C_head d False \<and> d \<noteq> Pop \<and>
      own_steps c_step (\<lambda>s t. p_step s t \<or> o_step s t) trying_pop s n t \<longrightarrow>
        n \<le> 5 + asked d \<and> (trying_pop t \<longrightarrow> (\<exists>u. c_step t u)))"
  using pushing.wait_free [of s n t] popping.wait_free [of s n t] assms by auto

definition spsc_trying :: "int spsc_sys" where
  "spsc_trying = (spsc_start spsc_fresh)\<lparr>ppc := P_closed (Try_push_one 5) None\<rparr>"

lemma spsc_trying_run:
  "spsc_reachable spsc_trying"
  "own_steps p_step (\<lambda>s t. c_step s t \<or> o_step s t) trying_push spsc_trying 1 (spsc_trying\<lparr>ppc := P_tail (Try_push_one 5)\<rparr>)"
proof -
  have "spsc_reachable (spsc_start spsc_fresh)"
    using spsc_reachable.start [OF spsc_new_fresh, of True] by (simp add: spsc_start_def)
  from producer [OF this call_try_push [of _ 0 5]] show "spsc_reachable spsc_trying"
    by (simp add: spsc_trying_def spsc_start_def)
  have "p_step spsc_trying (spsc_trying\<lparr>ppc := P_tail (Try_push_one 5)\<rparr>)"
    using p_step.load_closed [of spsc_trying "Try_push_one 5" None 0]
    by (simp add: spsc_trying_def spsc_start_def readable_def)
  from own_step [where own = p_step and busy = trying_push, OF begin_run _ this, of "\<lambda>s t. c_step s t \<or> o_step s t"]
  show "own_steps p_step (\<lambda>s t. c_step s t \<or> o_step s t) trying_push spsc_trying 1 (spsc_trying\<lparr>ppc := P_tail (Try_push_one 5)\<rparr>)"
    by (simp add: trying_push_def spsc_trying_def)
qed

theorem spsc_try_wait_free_witness:
  "(1 :: nat) \<le> 5 + 1 \<and> (\<exists>u. p_step (spsc_trying\<lparr>ppc := P_tail (Try_push_one 5)\<rparr>) u)"
  using spsc_try_wait_free [OF spsc_trying_run(1), of "Try_push_one 5" 1 "spsc_trying\<lparr>ppc := P_tail (Try_push_one 5)\<rparr>"]
    spsc_trying_run(2) by (simp add: spsc_trying_def trying_push_def)

end
