(* ===== verification/Mpmc_Concurrent.thy ===== *)
theory Mpmc_Concurrent
  imports Mpmc_Queue Ra_Memory
begin

text \<open>
  \<open>MpmcQueue\<close> used by any number of threads at the same time, one atomic or slot access per
  step, under the release/acquire memory of Ra_Memory. Every thread may push, pop, close and
  observe. Loads of the position counters are relaxed and may be arbitrarily stale; a
  compare-exchange may fail spuriously, and when it succeeds it has read the newest value.
  Two threads may also synchronize outside the queue (one joins the other, say).
  The fields after \<open>tpc\<close> are history: no step depends on them.
\<close>

section \<open>Threads\<close>

datatype mpmc_loc = L_enqueue | L_dequeue | L_closed_flag | L_sequence nat | L_value nat

datatype 'a mpmc_result = Nothing_yet | Pushed bool | Popped "'a option"

text \<open>A dequeue is an attempt of a \<^verbatim>\<open>pop\<close>, its last attempt after \<^verbatim>\<open>closed_\<close> was seen set, or a \<^verbatim>\<open>try_pop\<close>.\<close>

datatype attempt = Pop_again | Pop_last | Pop_once

text \<open>
  Where a thread is in \<^verbatim>\<open>try_enqueue\<close> (\<open>E_\<close>, with the value and whether the call is a blocking
  \<^verbatim>\<open>push\<close>) or \<^verbatim>\<open>try_dequeue\<close> (\<open>D_\<close>): about to load \<^verbatim>\<open>closed_\<close>, its position counter, or the
  slot's sequence; about to race for the ticket; holding it and about to move the value, or
  to publish.
\<close>

datatype 'a mpmc_pc =
    T_idle "'a mpmc_result"
  | E_closed bool 'a
  | E_pos bool 'a
  | E_seq bool 'a usize
  | E_cas bool 'a usize
  | E_write 'a usize
  | E_publish 'a usize
  | D_pos attempt
  | D_seq attempt usize
  | D_cas attempt usize
  | D_read usize
  | D_release usize 'a
  | D_closed

record 'a mpmc_sys =
  pqueue :: "'a mpmc_queue"
  pmem :: "mpmc_loc atomics"
  pacc :: "nat \<Rightarrow> nat"
  tview :: "nat \<Rightarrow> mpmc_loc view"
  tpc :: "nat \<Rightarrow> 'a mpmc_pc"
  claimed :: "'a list"
  delivery :: "(nat \<times> 'a) list"

text \<open>What a call does when its attempt finds the ring full (empty).\<close>

definition enqueue_failed :: "bool \<Rightarrow> 'a \<Rightarrow> 'a mpmc_pc" where
  "enqueue_failed blocking v = (if blocking then E_closed True v else T_idle (Pushed False))"

definition dequeue_failed :: "attempt \<Rightarrow> 'a mpmc_pc" where
  "dequeue_failed a = (if a = Pop_again then D_closed else T_idle (Popped None))"

text \<open>The branch a thread takes on the slot's state: its turn, not yet, or already gone by.\<close>

definition by_dif :: "int \<Rightarrow> 'p \<Rightarrow> 'p \<Rightarrow> 'p \<Rightarrow> 'p" where
  "by_dif dif ours early late = (if dif = 0 then ours else if dif < 0 then early else late)"

abbreviation set_thread :: "nat \<Rightarrow> mpmc_loc view \<Rightarrow> 'a mpmc_pc \<Rightarrow> 'a mpmc_sys \<Rightarrow> 'a mpmc_sys" where
  "set_thread i V pc s \<equiv> s\<lparr>tview := (tview s)(i := V), tpc := (tpc s)(i := pc)\<rparr>"

definition slot_at :: "'a mpmc_sys \<Rightarrow> usize \<Rightarrow> nat" where
  "slot_at s ticket = unat (slot_index (pqueue s) ticket)"

section \<open>Steps of a thread\<close>

text \<open>
  A successful compare-exchange appends to the counter's history right after the message it
  has read, which is the newest one. Moving a value out leaves its slot valid but
  unspecified: any value \<open>junk\<close>.
\<close>

definition rmw_relaxed :: "'l atomics \<Rightarrow> 'l \<Rightarrow> usize \<Rightarrow> 'l atomics" where
  "rmw_relaxed m l w = m(l := m l @ [\<lparr>mval = w, mview = mview (last (m l))\<rparr>])"

inductive m_step :: "nat \<Rightarrow> 'a mpmc_sys \<Rightarrow> 'a mpmc_sys \<Rightarrow> bool" for i :: nat where
  call_push: "tpc s i = T_idle r \<Longrightarrow> m_step i s (set_thread i (tview s i) (E_closed blocking v) s)"
| call_pop: "tpc s i = T_idle r \<Longrightarrow> a \<noteq> Pop_last \<Longrightarrow> m_step i s (set_thread i (tview s i) (D_pos a) s)"
| load_closed: "tpc s i = E_closed b v \<Longrightarrow> readable (tview s i) (pmem s) L_closed_flag j \<Longrightarrow>
    m_step i s (set_thread i (load_relaxed (tview s i) L_closed_flag j)
      (if mval (pmem s L_closed_flag ! j) \<noteq> 0 then T_idle (Pushed False) else E_pos b v) s)"
| load_enqueue_pos: "tpc s i = E_pos b v \<Longrightarrow> readable (tview s i) (pmem s) L_enqueue j \<Longrightarrow>
    m_step i s (set_thread i (load_relaxed (tview s i) L_enqueue j) (E_seq b v (mval (pmem s L_enqueue ! j))) s)"
| load_sequence: "tpc s i = E_seq b v w \<Longrightarrow> k = slot_at s w \<Longrightarrow> readable (tview s i) (pmem s) (L_sequence k) j \<Longrightarrow>
    m_step i s (set_thread i (load_acquire (tview s i) (pmem s) (L_sequence k) j)
      (by_dif (sequence_dif (mval (pmem s (L_sequence k) ! j)) (2 * w)) (E_cas b v w) (enqueue_failed b v) (E_pos b v)) s)"
| lose_ticket: "tpc s i = E_cas b v w \<Longrightarrow> readable (tview s i) (pmem s) L_enqueue j \<Longrightarrow>
    m_step i s (set_thread i (load_relaxed (tview s i) L_enqueue j) (E_seq b v (mval (pmem s L_enqueue ! j))) s)"
| win_ticket: "tpc s i = E_cas b v w \<Longrightarrow> mval (last (pmem s L_enqueue)) = w \<Longrightarrow>
    m_step i s (set_thread i (store_view (tview s i) (pmem s) L_enqueue) (E_write v w)
      (s\<lparr>pqueue := (pqueue s)\<lparr>pq_enqueue_pos := w + 1\<rparr>, pmem := rmw_relaxed (pmem s) L_enqueue (w + 1),
         claimed := claimed s @ [v]\<rparr>))"
| write_value: "tpc s i = E_write v w \<Longrightarrow> k = slot_at s w \<Longrightarrow>
    m_step i s (set_thread i (access_view (tview s i) (L_value k) (pacc s k)) (E_publish v w)
      (s\<lparr>pqueue := (pqueue s)\<lparr>pq_slots := (pq_slots (pqueue s))[k := (pq_slots (pqueue s) ! k)\<lparr>slot_value := v\<rparr>]\<rparr>,
         pacc := (pacc s)(k := Suc (pacc s k))\<rparr>))"
| publish: "tpc s i = E_publish v w \<Longrightarrow> k = slot_at s w \<Longrightarrow>
    m_step i s (set_thread i (store_view (tview s i) (pmem s) (L_sequence k)) (T_idle (Pushed True))
      (s\<lparr>pqueue := (pqueue s)\<lparr>pq_slots := (pq_slots (pqueue s))
           [k := (pq_slots (pqueue s) ! k)\<lparr>slot_sequence := 2 * w + 1\<rparr>]\<rparr>,
         pmem := store_release (tview s i) (pmem s) (L_sequence k) (2 * w + 1)\<rparr>))"
| load_dequeue_pos: "tpc s i = D_pos a \<Longrightarrow> readable (tview s i) (pmem s) L_dequeue j \<Longrightarrow>
    m_step i s (set_thread i (load_relaxed (tview s i) L_dequeue j) (D_seq a (mval (pmem s L_dequeue ! j))) s)"
| load_data_sequence: "tpc s i = D_seq a w \<Longrightarrow> k = slot_at s w \<Longrightarrow> readable (tview s i) (pmem s) (L_sequence k) j \<Longrightarrow>
    m_step i s (set_thread i (load_acquire (tview s i) (pmem s) (L_sequence k) j)
      (by_dif (sequence_dif (mval (pmem s (L_sequence k) ! j)) (2 * w + 1)) (D_cas a w) (dequeue_failed a) (D_pos a)) s)"
| lose_data: "tpc s i = D_cas a w \<Longrightarrow> readable (tview s i) (pmem s) L_dequeue j \<Longrightarrow>
    m_step i s (set_thread i (load_relaxed (tview s i) L_dequeue j) (D_seq a (mval (pmem s L_dequeue ! j))) s)"
| win_data: "tpc s i = D_cas a w \<Longrightarrow> mval (last (pmem s L_dequeue)) = w \<Longrightarrow>
    m_step i s (set_thread i (store_view (tview s i) (pmem s) L_dequeue) (D_read w)
      (s\<lparr>pqueue := (pqueue s)\<lparr>pq_dequeue_pos := w + 1\<rparr>, pmem := rmw_relaxed (pmem s) L_dequeue (w + 1)\<rparr>))"
| read_value: "tpc s i = D_read w \<Longrightarrow> k = slot_at s w \<Longrightarrow>
    m_step i s (set_thread i (access_view (tview s i) (L_value k) (pacc s k))
      (D_release w (slot_value (pq_slots (pqueue s) ! k)))
      (s\<lparr>pqueue := (pqueue s)\<lparr>pq_slots := (pq_slots (pqueue s))[k := (pq_slots (pqueue s) ! k)\<lparr>slot_value := junk\<rparr>]\<rparr>,
         pacc := (pacc s)(k := Suc (pacc s k))\<rparr>))"
| release: "tpc s i = D_release w x \<Longrightarrow> k = slot_at s w \<Longrightarrow>
    u = 2 * (w + vector_size (pq_slots (pqueue s))) \<Longrightarrow>
    m_step i s (set_thread i (store_view (tview s i) (pmem s) (L_sequence k)) (T_idle (Popped (Some x)))
      (s\<lparr>pqueue := (pqueue s)\<lparr>pq_slots := (pq_slots (pqueue s))[k := (pq_slots (pqueue s) ! k)\<lparr>slot_sequence := u\<rparr>]\<rparr>,
         pmem := store_release (tview s i) (pmem s) (L_sequence k) u,
         delivery := delivery s @ [(unat w, x)]\<rparr>))"
| pop_load_closed: "tpc s i = D_closed \<Longrightarrow> readable (tview s i) (pmem s) L_closed_flag j \<Longrightarrow>
    m_step i s (set_thread i (load_acquire (tview s i) (pmem s) L_closed_flag j)
      (D_pos (if mval (pmem s L_closed_flag ! j) \<noteq> 0 then Pop_last else Pop_again)) s)"
| close: "tpc s i = T_idle r \<Longrightarrow>
    m_step i s (set_thread i (store_view (tview s i) (pmem s) L_closed_flag) (T_idle r)
      (s\<lparr>pqueue := (pqueue s)\<lparr>pq_closed := True\<rparr>, pmem := store_release (tview s i) (pmem s) L_closed_flag 1\<rparr>))"
| observe_closed: "tpc s i = T_idle r \<Longrightarrow> readable (tview s i) (pmem s) L_closed_flag j \<Longrightarrow>
    m_step i s (set_thread i (load_acquire (tview s i) (pmem s) L_closed_flag j) (T_idle r) s)"
| observe_position: "tpc s i = T_idle r \<Longrightarrow> l = L_enqueue \<or> l = L_dequeue \<Longrightarrow> readable (tview s i) (pmem s) l j \<Longrightarrow>
    m_step i s (set_thread i (load_relaxed (tview s i) l j) (T_idle r) s)"
| synchronize: "tpc s i = T_idle r \<Longrightarrow> tpc s j = T_idle r' \<Longrightarrow>
    m_step i s (set_thread i (view_join (tview s i) (tview s j)) (T_idle r) s)"

definition mpmc_start :: "'a mpmc_queue \<Rightarrow> 'a mpmc_sys" where
  "mpmc_start q =
     \<lparr>pqueue = q,
      pmem = (\<lambda>l. [\<lparr>mval = (case l of L_enqueue \<Rightarrow> pq_enqueue_pos q | L_dequeue \<Rightarrow> pq_dequeue_pos q
                          | L_closed_flag \<Rightarrow> (if pq_closed q then 1 else 0)
                          | L_sequence k \<Rightarrow> slot_sequence (pq_slots q ! k) | L_value k \<Rightarrow> 0),
                        mview = (\<lambda>_. 0)\<rparr>]),
      pacc = (\<lambda>_. 0), tview = (\<lambda>_ _. 0), tpc = (\<lambda>_. T_idle Nothing_yet), claimed = [], delivery = []\<rparr>"

inductive mpmc_reachable :: "'a mpmc_sys \<Rightarrow> bool" where
  start: "mpmc_new sz dflt capacity = Inr q \<Longrightarrow> 8 < sz \<Longrightarrow> mpmc_reachable (mpmc_start q)"
| step: "mpmc_reachable s \<Longrightarrow> m_step i s t \<Longrightarrow> mpmc_reachable t"

end
