(* ===== verification/Mpmc_Invariant.thy ===== *)
theory Mpmc_Invariant
  imports Mpmc_Concurrent
begin

text \<open>
  The invariant of \<open>MpmcQueue\<close> under any number of threads and that every step keeps it.
  The history of a slot's sequence is \<open>2 k, 2 k + 1, 2 (k + N), 2 (k + N) + 1, \<dots>\<close>: its
  newest message says which ticket the slot serves, and whether for the producer or for the
  consumer of that ticket. At most one thread holds a ticket on each side, so at most one
  thread may touch a slot; that thread has acquired the message of the last one who did.
\<close>

section \<open>Sequences of a slot\<close>

definition seqval :: "nat \<Rightarrow> nat \<Rightarrow> nat \<Rightarrow> nat" where
  "seqval n k j = 2 * (k + (j div 2) * n) + j mod 2"

lemma seqval_even [simp]: "seqval n k (2 * l) = 2 * (k + l * n)"
  by (simp add: seqval_def)

lemma seqval_odd [simp]: "seqval n k (Suc (2 * l)) = 2 * (k + l * n) + 1"
  by (simp add: seqval_def)

lemma ticket_split: "(t::nat) mod n + (t div n) * n = t"
  by (simp add: add.commute mult.commute)

lemma seqval_mono:
  assumes "0 < n" and "i < j"
  shows "seqval n k i < seqval n k j"
proof (cases "i div 2 = j div 2")
  case True
  then have "i mod 2 < j mod 2"
    using assms(2) div_mult_mod_eq [of i 2] div_mult_mod_eq [of j 2] by linarith
  with True show ?thesis
    by (simp add: seqval_def)
next
  case False
  then have "i div 2 + 1 \<le> j div 2"
    using assms(2) div_le_mono [of i j 2] by simp
  then have "(i div 2 + 1) * n \<le> (j div 2) * n"
    by (rule mult_le_mono1)
  then show ?thesis
    using assms(1) mod_less_divisor [of 2 i] by (simp add: seqval_def)
qed

lemma seqval_eq_iff: "0 < n \<Longrightarrow> seqval n k i = seqval n k j \<longleftrightarrow> i = j"
  using seqval_mono [of n i j k] seqval_mono [of n j i k] by (cases i j rule: linorder_cases) auto

lemma seqval_less_iff: "0 < n \<Longrightarrow> seqval n k i < seqval n k j \<longleftrightarrow> i < j"
  using seqval_mono [of n i j k] seqval_mono [of n j i k] by (cases i j rule: linorder_cases) auto

lemma seqval_ticket: "seqval n (t mod n) (2 * (t div n)) = 2 * t" "seqval n (t mod n) (Suc (2 * (t div n))) = 2 * t + 1"
  using ticket_split [of t n] by simp_all

lemma sequence_dif_nat:
  assumes "a < 2 ^ 63" and "b < 2 ^ 63"
  shows "sequence_dif (of_nat a) (of_nat b) = int a - int b"
proof (cases "b \<le> a")
  case True
  then have "(of_nat a - of_nat b :: usize) = of_nat (a - b)"
    by (simp add: of_nat_diff)
  then show ?thesis
    using True assms sint_of_nat [of "a - b"] by (simp add: sequence_dif_def)
next
  case False
  then have "(of_nat a - of_nat b :: usize) = - of_nat (b - a)"
    by (simp add: of_nat_diff)
  then show ?thesis
    using False assms sint_neg_of_nat [of "b - a"] by (simp add: sequence_dif_def)
qed

section \<open>The invariant\<close>

abbreviation nslots :: "'a mpmc_sys \<Rightarrow> nat" where
  "nslots s \<equiv> length (pq_slots (pqueue s))"

text \<open>Tickets handed out to producers and to consumers.\<close>

abbreviation ecount :: "'a mpmc_sys \<Rightarrow> nat" where
  "ecount s \<equiv> length (claimed s)"

definition dcount :: "'a mpmc_sys \<Rightarrow> nat" where
  "dcount s = length (pmem s L_dequeue) - 1"

text \<open>The newest message of a slot's sequence and the ticket it is about.\<close>

definition newest :: "'a mpmc_sys \<Rightarrow> nat \<Rightarrow> nat" where
  "newest s k = length (pmem s (L_sequence k)) - 1"

abbreviation serving :: "'a mpmc_sys \<Rightarrow> nat \<Rightarrow> nat" where
  "serving s k \<equiv> k + (newest s k div 2) * nslots s"

text \<open>
  The run is still within the ticket horizon: fewer than about \<open>2 ^ 62\<close> pushes so far, so
  that tickets and sequences read from memory, however stale, compare as numbers.
\<close>

definition horizon :: "'a mpmc_sys \<Rightarrow> bool" where
  "horizon s \<longleftrightarrow> ecount s + nslots s < 2 ^ 62"

fun enq_ticket :: "'a mpmc_pc \<Rightarrow> nat option" where
  "enq_ticket (E_write v w) = Some (unat w)"
| "enq_ticket (E_publish v w) = Some (unat w)"
| "enq_ticket pc = None"

fun deq_ticket :: "'a mpmc_pc \<Rightarrow> nat option" where
  "deq_ticket (D_read w) = Some (unat w)"
| "deq_ticket (D_release w x) = Some (unat w)"
| "deq_ticket pc = None"

text \<open>The ticket whose slot the thread has accessed without having published that yet.\<close>

fun touched :: "'a mpmc_pc \<Rightarrow> nat option" where
  "touched (E_publish v w) = Some (unat w)"
| "touched (D_release w x) = Some (unat w)"
| "touched pc = None"

definition m_inv_mem :: "'a mpmc_sys \<Rightarrow> bool" where
  "m_inv_mem s \<longleftrightarrow>
     0 < nslots s \<and> mask_ok (pqueue s) \<and>
     length (pmem s L_enqueue) = Suc (ecount s) \<and>
     (\<forall>i < length (pmem s L_enqueue). mval (pmem s L_enqueue ! i) = of_nat i) \<and>
     pmem s L_dequeue \<noteq> [] \<and> (\<forall>i < length (pmem s L_dequeue). mval (pmem s L_dequeue ! i) = of_nat i) \<and>
     pmem s L_closed_flag \<noteq> [] \<and>
     (\<forall>k < nslots s. pmem s (L_sequence k) \<noteq> [] \<and>
        (\<forall>i < length (pmem s (L_sequence k)).
           mval (pmem s (L_sequence k) ! i) = of_nat (seqval (nslots s) k i) \<and>
           mview (pmem s (L_sequence k) ! i) (L_value k) = i))"

definition m_inv_slots :: "'a mpmc_sys \<Rightarrow> bool" where
  "m_inv_slots s \<longleftrightarrow>
     dcount s \<le> ecount s \<and>
     (\<forall>k < nslots s. ecount s \<le> serving s k + nslots s \<and>
        (even (newest s k) \<longrightarrow> dcount s \<le> serving s k) \<and> (odd (newest s k) \<longrightarrow> serving s k < ecount s) \<and>
        (nslots s \<le> serving s k \<longrightarrow> serving s k - nslots s < dcount s))"

definition m_bounded :: "'a mpmc_sys \<Rightarrow> mpmc_loc view \<Rightarrow> bool" where
  "m_bounded s V \<longleftrightarrow>
     V L_enqueue < length (pmem s L_enqueue) \<and> V L_dequeue < length (pmem s L_dequeue) \<and>
     V L_closed_flag < length (pmem s L_closed_flag) \<and>
     (\<forall>k < nslots s. V (L_sequence k) < length (pmem s (L_sequence k)) \<and> V (L_value k) \<le> pacc s k)"

definition m_inv_view :: "'a mpmc_sys \<Rightarrow> bool" where
  "m_inv_view s \<longleftrightarrow>
     (\<forall>i. m_bounded s (tview s i)) \<and>
     (\<forall>m \<in> set (pmem s L_closed_flag). m_bounded s (mview m)) \<and>
     (\<forall>k < nslots s. \<forall>m \<in> set (pmem s (L_sequence k)). m_bounded s (mview m))"

fun mpc_ok :: "'a mpmc_sys \<Rightarrow> mpmc_loc view \<Rightarrow> 'a mpmc_pc \<Rightarrow> bool" where
  "mpc_ok s V (E_seq b v w) \<longleftrightarrow> unat w \<le> ecount s"
| "mpc_ok s V (E_cas b v w) \<longleftrightarrow>
     (let t = unat w; k = t mod nslots s; j = 2 * (t div nslots s) in
      t \<le> ecount s \<and> j \<le> V (L_value k) \<and> j \<le> newest s k)"
| "mpc_ok s V (E_write v w) \<longleftrightarrow>
     (let t = unat w; k = t mod nslots s; j = 2 * (t div nslots s) in
      t < ecount s \<and> v = claimed s ! t \<and> newest s k = j \<and> pacc s k = j \<and> V (L_value k) = j)"
| "mpc_ok s V (E_publish v w) \<longleftrightarrow>
     (let t = unat w; k = t mod nslots s; j = 2 * (t div nslots s) in
      t < ecount s \<and> v = claimed s ! t \<and> newest s k = j \<and> pacc s k = Suc j \<and> V (L_value k) = Suc j \<and>
      slot_value (pq_slots (pqueue s) ! k) = v)"
| "mpc_ok s V (D_seq a w) \<longleftrightarrow> unat w \<le> dcount s"
| "mpc_ok s V (D_cas a w) \<longleftrightarrow>
     (let t = unat w; k = t mod nslots s; j = Suc (2 * (t div nslots s)) in
      t \<le> dcount s \<and> j \<le> V (L_value k) \<and> j \<le> newest s k)"
| "mpc_ok s V (D_read w) \<longleftrightarrow>
     (let t = unat w; k = t mod nslots s; j = Suc (2 * (t div nslots s)) in
      t < dcount s \<and> newest s k = j \<and> pacc s k = j \<and> V (L_value k) = j)"
| "mpc_ok s V (D_release w x) \<longleftrightarrow>
     (let t = unat w; k = t mod nslots s; j = Suc (2 * (t div nslots s)) in
      t < dcount s \<and> newest s k = j \<and> pacc s k = Suc j \<and> V (L_value k) = Suc j \<and> x = claimed s ! t)"
| "mpc_ok s V pc \<longleftrightarrow> True"

definition m_inv_owner :: "'a mpmc_sys \<Rightarrow> bool" where
  "m_inv_owner s \<longleftrightarrow>
     (\<forall>i. mpc_ok s (tview s i) (tpc s i)) \<and>
     (\<forall>i j t. enq_ticket (tpc s i) = Some t \<and> enq_ticket (tpc s j) = Some t \<longrightarrow> i = j) \<and>
     (\<forall>i j t. deq_ticket (tpc s i) = Some t \<and> deq_ticket (tpc s j) = Some t \<longrightarrow> i = j) \<and>
     (\<forall>k < nslots s. pacc s k = newest s k \<or> (\<exists>i t. touched (tpc s i) = Some t \<and> t mod nslots s = k)) \<and>
     (\<forall>k < nslots s. even (newest s k) \<and> serving s k < ecount s \<longrightarrow> (\<exists>i. enq_ticket (tpc s i) = Some (serving s k))) \<and>
     (\<forall>k < nslots s. odd (newest s k) \<and> serving s k < dcount s \<longrightarrow> (\<exists>i. deq_ticket (tpc s i) = Some (serving s k)))"

definition m_inv_data :: "'a mpmc_sys \<Rightarrow> bool" where
  "m_inv_data s \<longleftrightarrow>
     (\<forall>k < nslots s. odd (newest s k) \<and> pacc s k = newest s k \<longrightarrow>
        slot_value (pq_slots (pqueue s) ! k) = claimed s ! serving s k) \<and>
     distinct (map fst (delivery s)) \<and>
     (\<forall>(t, x) \<in> set (delivery s). t < dcount s \<and> x = claimed s ! t) \<and>
     (\<forall>i t. deq_ticket (tpc s i) = Some t \<longrightarrow> t \<notin> fst ` set (delivery s)) \<and>
     (\<forall>t < dcount s. t \<in> fst ` set (delivery s) \<or> (\<exists>i. deq_ticket (tpc s i) = Some t))"

definition m_inv_mirror :: "'a mpmc_sys \<Rightarrow> bool" where
  "m_inv_mirror s \<longleftrightarrow>
     pq_enqueue_pos (pqueue s) = of_nat (ecount s) \<and> pq_dequeue_pos (pqueue s) = of_nat (dcount s) \<and>
     (\<forall>k < nslots s. slot_sequence (pq_slots (pqueue s) ! k) = of_nat (seqval (nslots s) k (newest s k)))"

definition m_inv :: "'a mpmc_sys \<Rightarrow> bool" where
  "m_inv s \<longleftrightarrow> m_inv_mem s \<and> m_inv_slots s \<and> m_inv_view s \<and> m_inv_owner s \<and> m_inv_data s \<and> m_inv_mirror s"

lemma m_invD:
  assumes "m_inv s"
  shows "m_inv_mem s" "m_inv_slots s" "m_inv_view s" "m_inv_owner s" "m_inv_data s" "m_inv_mirror s"
  using assms by (simp_all add: m_inv_def)

section \<open>Consequences\<close>

lemma m_memD:
  assumes "m_inv s"
  shows "0 < nslots s" "mask_ok (pqueue s)" "length (pmem s L_enqueue) = Suc (ecount s)"
    "length (pmem s L_dequeue) = Suc (dcount s)"
    "\<And>i. i \<le> ecount s \<Longrightarrow> mval (pmem s L_enqueue ! i) = of_nat i"
    "\<And>i. i \<le> dcount s \<Longrightarrow> mval (pmem s L_dequeue ! i) = of_nat i"
    "\<And>k. k < nslots s \<Longrightarrow> length (pmem s (L_sequence k)) = Suc (newest s k)"
    "\<And>k i. k < nslots s \<Longrightarrow> i \<le> newest s k \<Longrightarrow> mval (pmem s (L_sequence k) ! i) = of_nat (seqval (nslots s) k i)"
    "\<And>k i. k < nslots s \<Longrightarrow> i \<le> newest s k \<Longrightarrow> mview (pmem s (L_sequence k) ! i) (L_value k) = i"
    "pmem s L_closed_flag \<noteq> []"
proof -
  note M = m_invD(1) [OF assms, unfolded m_inv_mem_def]
  show len: "length (pmem s (L_sequence k)) = Suc (newest s k)" if "k < nslots s" for k
    using M that by (cases "pmem s (L_sequence k)") (auto simp: newest_def)
  show lend: "length (pmem s L_dequeue) = Suc (dcount s)"
    using M by (cases "pmem s L_dequeue") (auto simp: dcount_def)
  show "mval (pmem s L_dequeue ! i) = of_nat i" if "i \<le> dcount s" for i
    using M that lend by simp
  show "mval (pmem s (L_sequence k) ! i) = of_nat (seqval (nslots s) k i)"
      "mview (pmem s (L_sequence k) ! i) (L_value k) = i" if "k < nslots s" "i \<le> newest s k" for k i
    using M that len [OF that(1)] by simp_all
qed (use m_invD(1) [OF assms] in \<open>simp_all add: m_inv_mem_def\<close>)

lemma m_slotD:
  assumes "m_inv s" and "k < nslots s"
  shows "ecount s \<le> serving s k + nslots s" "even (newest s k) \<Longrightarrow> dcount s \<le> serving s k"
    "odd (newest s k) \<Longrightarrow> serving s k < ecount s" "nslots s \<le> serving s k \<Longrightarrow> serving s k - nslots s < dcount s"
    "dcount s \<le> ecount s"
  using m_invD(2) [OF assms(1)] assms(2) by (simp_all add: m_inv_slots_def)

lemma m_ownerD:
  assumes "m_inv s"
  shows "mpc_ok s (tview s i) (tpc s i)"
    "enq_ticket (tpc s i) = Some t \<Longrightarrow> enq_ticket (tpc s j) = Some t \<Longrightarrow> i = j"
    "deq_ticket (tpc s i) = Some t \<Longrightarrow> deq_ticket (tpc s j) = Some t \<Longrightarrow> i = j"
    "k < nslots s \<Longrightarrow> pacc s k \<noteq> newest s k \<Longrightarrow> \<exists>i t. touched (tpc s i) = Some t \<and> t mod nslots s = k"
    "k < nslots s \<Longrightarrow> even (newest s k) \<Longrightarrow> serving s k < ecount s \<Longrightarrow> \<exists>i. enq_ticket (tpc s i) = Some (serving s k)"
    "k < nslots s \<Longrightarrow> odd (newest s k) \<Longrightarrow> serving s k < dcount s \<Longrightarrow> \<exists>i. deq_ticket (tpc s i) = Some (serving s k)"
  using m_invD(4) [OF assms] unfolding m_inv_owner_def by blast+

lemma m_dataD:
  assumes "m_inv s"
  shows "k < nslots s \<Longrightarrow> odd (newest s k) \<Longrightarrow> pacc s k = newest s k \<Longrightarrow>
      slot_value (pq_slots (pqueue s) ! k) = claimed s ! serving s k"
    "distinct (map fst (delivery s))" "(t, x) \<in> set (delivery s) \<Longrightarrow> t < dcount s" "(t, x) \<in> set (delivery s) \<Longrightarrow> x = claimed s ! t"
    "deq_ticket (tpc s i) = Some t \<Longrightarrow> t \<notin> fst ` set (delivery s)"
    "t < dcount s \<Longrightarrow> t \<in> fst ` set (delivery s) \<or> (\<exists>i. deq_ticket (tpc s i) = Some t)"
  using m_invD(5) [OF assms] unfolding m_inv_data_def by blast+

text \<open>A slot that has reached the message of ticket \<open>t\<close> is serving \<open>t\<close>; the holder of a ticket finds it so.\<close>

lemma serving_ticket:
  assumes "newest s (t mod nslots s) div 2 = t div nslots s"
  shows "serving s (t mod nslots s) = t"
  using ticket_split [of t "nslots s"] assms by simp

lemma enq_ticketD:
  assumes "m_inv s" and "enq_ticket (tpc s i) = Some t"
  shows "t < ecount s" "newest s (t mod nslots s) = 2 * (t div nslots s)"
proof -
  have "t < ecount s \<and> newest s (t mod nslots s) = 2 * (t div nslots s)"
    using m_ownerD(1) [OF assms(1), of i] assms(2) by (cases "tpc s i") (auto simp: Let_def)
  then show "t < ecount s" "newest s (t mod nslots s) = 2 * (t div nslots s)" by simp_all
qed

lemma deq_ticketD:
  assumes "m_inv s" and "deq_ticket (tpc s i) = Some t"
  shows "t < dcount s" "newest s (t mod nslots s) = Suc (2 * (t div nslots s))"
proof -
  have "t < dcount s \<and> newest s (t mod nslots s) = Suc (2 * (t div nslots s))"
    using m_ownerD(1) [OF assms(1), of i] assms(2) by (cases "tpc s i") (auto simp: Let_def)
  then show "t < dcount s" "newest s (t mod nslots s) = Suc (2 * (t div nslots s))" by simp_all
qed

lemma touched_owner: "touched pc = Some t \<Longrightarrow> enq_ticket pc = Some t \<or> deq_ticket pc = Some t"
  by (cases pc) auto

definition holds_ticket :: "'a mpmc_pc \<Rightarrow> nat \<Rightarrow> bool" where
  "holds_ticket pc t \<longleftrightarrow> enq_ticket pc = Some t \<or> deq_ticket pc = Some t"

text \<open>Two threads never hold tickets of the same slot.\<close>

lemma ticket_eqI: "(t::nat) mod n = u mod n \<Longrightarrow> t div n = u div n \<Longrightarrow> t = u"
  by (metis ticket_split)

lemma holders_apart:
  assumes inv: "m_inv s" and "i \<noteq> j" and i: "holds_ticket (tpc s i) t" and j: "holds_ticket (tpc s j) u"
  shows "t mod nslots s \<noteq> u mod nslots s"
proof
  assume eq: "t mod nslots s = u mod nslots s"
  have phase: "newest s (t mod nslots s) = 2 * (t div nslots s) \<and> enq_ticket (tpc s i) = Some t \<or>
      newest s (t mod nslots s) = Suc (2 * (t div nslots s)) \<and> deq_ticket (tpc s i) = Some t"
    using i enq_ticketD [OF inv] deq_ticketD [OF inv] by (auto simp: holds_ticket_def)
  have phase': "newest s (u mod nslots s) = 2 * (u div nslots s) \<and> enq_ticket (tpc s j) = Some u \<or>
      newest s (u mod nslots s) = Suc (2 * (u div nslots s)) \<and> deq_ticket (tpc s j) = Some u"
    using j enq_ticketD [OF inv] deq_ticketD [OF inv] by (auto simp: holds_ticket_def)
  have "newest s (t mod nslots s) div 2 = t div nslots s" "newest s (u mod nslots s) div 2 = u div nslots s"
    using phase phase' by auto
  then have tu: "t = u"
    using eq by (intro ticket_eqI [of t "nslots s" u]) simp_all
  have "even (newest s (t mod nslots s)) \<longleftrightarrow> enq_ticket (tpc s i) = Some t"
      "even (newest s (u mod nslots s)) \<longleftrightarrow> enq_ticket (tpc s j) = Some u"
    using phase phase' by (cases "tpc s i"; cases "tpc s j"; auto)+
  then show False
    using phase phase' tu assms(2) m_ownerD(2) [OF inv, of i t j] m_ownerD(3) [OF inv, of i t j] by auto
qed

lemma slot_at_mod:
  assumes "m_inv s" and "horizon s"
  shows "slot_at s w = unat w mod nslots s" and "slot_at s w < nslots s"
proof -
  have N: "nslots s < 2 ^ 64"
    using assms(2) by (simp add: horizon_def)
  show "slot_at s w = unat w mod nslots s"
    using slot_index_mod [OF m_memD(2) [OF assms(1)], of w] unat_vector_size [OF N]
    by (simp add: slot_at_def unat_mod_distrib)
  then show "slot_at s w < nslots s"
    using m_memD(1) [OF assms(1)] by simp
qed

lemma serving_bound:
  assumes "m_inv s" and "k < nslots s"
  shows "serving s k < ecount s + nslots s"
  using m_slotD(4,5) [OF assms] assms(2) by (cases "nslots s \<le> serving s k") auto

lemma seqval_bound:
  assumes "m_inv s" and "horizon s" and "k < nslots s" and "j \<le> newest s k"
  shows "seqval (nslots s) k j < 2 ^ 63"
proof -
  have "(j div 2) * nslots s \<le> (newest s k div 2) * nslots s"
    using assms(4) by (intro mult_le_mono1 div_le_mono)
  moreover have "j mod 2 \<le> 1"
    using mod_less_divisor [of 2 j] by linarith
  ultimately have "seqval (nslots s) k j \<le> 2 * serving s k + 1"
    unfolding seqval_def by (intro add_mono mult_le_mono2) simp_all
  then show ?thesis
    using serving_bound [OF assms(1,3)] assms(2) by (simp add: horizon_def)
qed

section \<open>Steps that take no ticket\<close>

lemma mpc_ok_cong:
  assumes "mpc_ok s V pc" and "nslots t = nslots s" and "\<And>k. pacc t k = pacc s k" and "\<And>k. newest t k = newest s k"
    and "claimed t = claimed s" and "dcount t = dcount s" and "\<And>k. slot_value (pq_slots (pqueue t) ! k) = slot_value (pq_slots (pqueue s) ! k)"
  shows "mpc_ok t V pc"
  using assms by (cases "(s, V, pc)" rule: mpc_ok.cases) (simp_all add: Let_def)

lemma set_thread_sel:
  "newest (set_thread i W pc s) = newest s" "dcount (set_thread i W pc s) = dcount s"
  "m_bounded (set_thread i W pc s) = m_bounded s"
  by (simp_all add: newest_def dcount_def m_bounded_def fun_eq_iff)

lemma set_thread_ok: "mpc_ok (set_thread i W pc s) V qc = mpc_ok s V qc"
  by (cases "(s, V, qc)" rule: mpc_ok.cases) (simp_all add: Let_def set_thread_sel)

lemma keep_holder:
  fixes s :: "'a mpmc_sys" and x :: nat
  assumes "\<exists>j. f (tpc s j) = Some x" and "f (tpc s i) = None"
  shows "\<exists>j. f (tpc (set_thread i W pc s) j) = Some x"
proof -
  obtain j where "f (tpc s j) = Some x"
    using assms(1) by blast
  with assms(2) show ?thesis
    by (intro exI [of _ j]) auto
qed

lemma keep_holder2:
  fixes s :: "'a mpmc_sys" and x :: nat
  assumes "\<exists>j. f (tpc s j) = Some x" and "f (tpc s i) = None"
  shows "\<exists>j. f (((tpc s)(i := pc)) j) = Some x"
  using keep_holder [OF assms] by simp

lemma keep_touched:
  assumes inv: "m_inv s" and m: "m < nslots s" and i: "touched (tpc s i) = None"
  shows "pacc s m = newest s m \<or> (\<exists>j t. touched (((tpc s)(i := pc)) j) = Some t \<and> t mod nslots s = m)"
proof (cases "pacc s m = newest s m")
  case False
  then obtain j t where j: "touched (tpc s j) = Some t" "t mod nslots s = m"
    using m_ownerD(4) [OF inv m] by blast
  with i show ?thesis
    by (intro disjI2 exI [of _ j] exI [of _ t]) auto
qed simp

lemma keep_delivered:
  assumes "m_inv s" and "u < dcount s" and "deq_ticket (tpc s i) = None"
  shows "u \<in> fst ` set (delivery s) \<or> (\<exists>j. deq_ticket (((tpc s)(i := pc)) j) = Some u)"
  using m_dataD(6) [OF assms(1,2)]
proof
  assume "\<exists>j. deq_ticket (tpc s j) = Some u"
  then obtain j where "deq_ticket (tpc s j) = Some u"
    by blast
  with assms(3) show ?thesis
    by (intro disjI2 exI [of _ j]) auto
qed simp

lemma thread_moves:
  assumes inv: "m_inv s" and W: "m_bounded s W" and pc: "mpc_ok s W pc"
    and old: "enq_ticket (tpc s i) = None" "deq_ticket (tpc s i) = None"
    and new: "enq_ticket pc = None" "deq_ticket pc = None"
  shows "m_inv (set_thread i W pc s)"
proof -
  note I = m_invD [OF inv]
  have old': "touched (tpc s i) = None" and new': "touched pc = None"
    using old new by (cases "tpc s i"; cases pc; simp)+
  let ?t = "set_thread i W pc s"
  have "m_inv_owner ?t"
    unfolding m_inv_owner_def set_thread_sel set_thread_ok
  proof (intro conjI allI impI, goal_cases)
    case (1 j)
    then show ?case using pc m_ownerD(1) [OF inv, of j] by simp
  next
    case (2 a b t)
    then show ?case using m_ownerD(2) [OF inv, of a t b] new by (auto split: if_splits)
  next
    case (3 a b t)
    then show ?case using m_ownerD(3) [OF inv, of a t b] new by (auto split: if_splits)
  next
    case (4 k)
    then show ?case
      using keep_touched [OF inv, of k i pc] old' by simp
  next
    case (5 k)
    then show ?case using m_ownerD(5) [OF inv, of k] old by (intro keep_holder) simp_all
  next
    case (6 k)
    then show ?case using m_ownerD(6) [OF inv, of k] old by (intro keep_holder) simp_all
  qed
  moreover have "m_inv_data ?t"
    unfolding m_inv_data_def set_thread_sel
  proof (intro conjI allI impI, goal_cases)
    case (4 j t)
    then show ?case using m_dataD(5) [OF inv, of j t] new by (auto split: if_splits)
  next
    case (5 t)
    then show ?case
      using keep_delivered [OF inv, of t i pc] old by simp
  qed (use I(5) in \<open>simp_all add: m_inv_data_def\<close>)
  moreover have "m_inv_mem ?t" "m_inv_slots ?t" "m_inv_view ?t" "m_inv_mirror ?t"
    using I(1,2,3,6) W by (simp_all add: m_inv_mem_def m_inv_slots_def m_inv_view_def m_inv_mirror_def set_thread_sel)
  ultimately show ?thesis
    by (simp add: m_inv_def)
qed

lemma tview_bounded: "m_inv s \<Longrightarrow> m_bounded s (tview s i)"
  by (simp add: m_inv_def m_inv_view_def)

text \<open>Views after a load.\<close>

definition atomic_of :: "'a mpmc_sys \<Rightarrow> mpmc_loc set" where
  "atomic_of s = {L_enqueue, L_dequeue, L_closed_flag} \<union> L_sequence ` {..<nslots s}"

lemma m_load_relaxed:
  assumes "m_inv s" and "readable (tview s i) (pmem s) l j" and "l \<in> atomic_of s"
  shows "m_bounded s (load_relaxed (tview s i) l j)"
  using tview_bounded [OF assms(1), of i] assms(2,3)
  by (auto simp: m_bounded_def readable_def load_relaxed_def atomic_of_def)

lemma m_bounded_join: "m_bounded s V \<Longrightarrow> m_bounded s W \<Longrightarrow> m_bounded s (view_join V W)"
  by (auto simp: m_bounded_def view_join_def)

lemma m_load_acquire:
  assumes "m_inv s" and "readable (tview s i) (pmem s) l j" and "l = L_closed_flag \<or> (\<exists>k<nslots s. l = L_sequence k)"
  shows "m_bounded s (load_acquire (tview s i) (pmem s) l j)"
proof -
  have "m_bounded s (mview (pmem s l ! j))"
    using m_invD(3) [OF assms(1)] assms(2,3) by (auto simp: m_inv_view_def readable_def)
  then show ?thesis
    using m_bounded_join m_load_relaxed [OF assms(1,2)] assms(3)
    by (auto simp: load_acquire_def load_relaxed_def atomic_of_def)
qed

text \<open>The slot is in this thread's turn exactly if the thread has read the message of its ticket.\<close>

lemma dif_enqueue:
  assumes inv: "m_inv s" and hor: "horizon s" and w: "unat w \<le> ecount s" and j: "j \<le> newest s (unat w mod nslots s)"
  shows "sequence_dif (mval (pmem s (L_sequence (unat w mod nslots s)) ! j)) (2 * w) =
    int (seqval (nslots s) (unat w mod nslots s) j) - int (seqval (nslots s) (unat w mod nslots s) (2 * (unat w div nslots s)))"
proof -
  have k: "unat w mod nslots s < nslots s"
    using m_memD(1) [OF inv] by simp
  have "2 * w = of_nat (2 * unat w)"
    by simp
  moreover have "2 * unat w < 2 ^ 63"
    using w hor by (simp add: horizon_def)
  ultimately show ?thesis
    using sequence_dif_nat [OF seqval_bound [OF inv hor k j], of "2 * unat w"] m_memD(8) [OF inv k j]
      seqval_ticket(1) [of "nslots s" "unat w"] by simp
qed

lemma dif_dequeue:
  assumes inv: "m_inv s" and hor: "horizon s" and w: "unat w \<le> dcount s" and j: "j \<le> newest s (unat w mod nslots s)"
  shows "sequence_dif (mval (pmem s (L_sequence (unat w mod nslots s)) ! j)) (2 * w + 1) =
    int (seqval (nslots s) (unat w mod nslots s) j) - int (seqval (nslots s) (unat w mod nslots s) (Suc (2 * (unat w div nslots s))))"
proof -
  have k: "unat w mod nslots s < nslots s"
    using m_memD(1) [OF inv] by simp
  have "2 * w + 1 = of_nat (2 * unat w + 1)"
    by simp
  moreover have "2 * unat w + 1 < 2 ^ 63"
    using w hor m_slotD(5) [OF inv k] by (simp add: horizon_def)
  ultimately show ?thesis
    using sequence_dif_nat [OF seqval_bound [OF inv hor k j], of "2 * unat w + 1"] m_memD(8) [OF inv k j]
      seqval_ticket(2) [of "nslots s" "unat w"] by (simp add: add.commute)
qed

section \<open>Taking a ticket\<close>

lemma last_enqueue: "m_inv s \<Longrightarrow> mval (last (pmem s L_enqueue)) = of_nat (ecount s)"
  using m_memD(3) [of s] m_memD(5) [of s "ecount s"] by (simp add: last_conv_nth flip: length_greater_0_conv)

lemma last_dequeue: "m_inv s \<Longrightarrow> mval (last (pmem s L_dequeue)) = of_nat (dcount s)"
  using m_memD(4) [of s] m_memD(6) [of s "dcount s"] by (simp add: last_conv_nth flip: length_greater_0_conv)

lemma unat_ecount: "m_inv s \<Longrightarrow> horizon s \<Longrightarrow> unat (of_nat (ecount s) :: usize) = ecount s"
  by (intro unat_of_nat_usize) (simp add: horizon_def)

lemma unat_dcount:
  assumes "m_inv s" and "horizon s"
  shows "unat (of_nat (dcount s) :: usize) = dcount s"
  using m_slotD(5) [OF assms(1) m_memD(1) [OF assms(1)]] assms(2) by (intro unat_of_nat_usize) (simp add: horizon_def)

text \<open>
  The slot of the next ticket: a thread that has seen the slot in its ticket's turn, and
  still finds the counter at that ticket, finds the slot still in that turn and untouched.
\<close>

lemma lap_lt: "(k::nat) + l * n < k + m * n \<Longrightarrow> l < m"
  by (metis add_less_cancel_left mult_less_cancel2)

lemma enqueue_turn:
  assumes inv: "m_inv s" and seen: "2 * (ecount s div nslots s) \<le> newest s (ecount s mod nslots s)"
  shows "newest s (ecount s mod nslots s) = 2 * (ecount s div nslots s)"
    and "pacc s (ecount s mod nslots s) = newest s (ecount s mod nslots s)"
proof -
  let ?N = "nslots s" and ?E = "ecount s"
  let ?k = "?E mod ?N"
  have k: "?k < ?N"
    using m_memD(1) [OF inv] by simp
  note S = m_slotD [OF inv k]
  have E: "?k + (?E div ?N) * ?N = ?E"
    by (rule ticket_split)
  have le: "?E div ?N \<le> newest s ?k div 2"
    using div_le_mono [OF seen, of 2] by simp
  have "odd (newest s ?k) \<Longrightarrow> newest s ?k div 2 < ?E div ?N"
    using S(3) E by (metis lap_lt)
  with le have ev: "even (newest s ?k)"
    by linarith
  have "newest s ?k div 2 < ?E div ?N + 1"
  proof (rule ccontr)
    assume "\<not> newest s ?k div 2 < ?E div ?N + 1"
    then have "(?E div ?N + 1) * ?N \<le> (newest s ?k div 2) * ?N"
      by (intro mult_le_mono1) simp
    then have "(?E div ?N) * ?N + ?N \<le> (newest s ?k div 2) * ?N"
      by (simp only: add_mult_distrib mult_1)
    then have "?E + ?N \<le> serving s ?k"
      using E by linarith
    then show False
      using S(4,5) by linarith
  qed
  then show n: "newest s ?k = 2 * (?E div ?N)"
    using le ev by (metis Suc_eq_plus1 even_two_times_div_two le_antisym less_Suc_eq_le)
  show "pacc s ?k = newest s ?k"
  proof (rule ccontr)
    assume "pacc s ?k \<noteq> newest s ?k"
    then obtain j t where j: "touched (tpc s j) = Some t" "t mod ?N = ?k"
      using m_ownerD(4) [OF inv k] by blast
    from touched_owner [OF j(1)] show False
    proof
      assume e: "enq_ticket (tpc s j) = Some t"
      have "t div ?N = ?E div ?N"
        using enq_ticketD(2) [OF inv e] j(2) n by simp
      then show False
        using ticket_eqI [of t ?N ?E] j(2) enq_ticketD(1) [OF inv e] by simp
    next
      assume "deq_ticket (tpc s j) = Some t"
      from deq_ticketD(2) [OF inv this] j(2) ev show False by simp
    qed
  qed
qed

lemma dequeue_turn:
  assumes inv: "m_inv s" and seen: "Suc (2 * (dcount s div nslots s)) \<le> newest s (dcount s mod nslots s)"
  shows "newest s (dcount s mod nslots s) = Suc (2 * (dcount s div nslots s))"
    and "pacc s (dcount s mod nslots s) = newest s (dcount s mod nslots s)" and "dcount s < ecount s"
proof -
  let ?N = "nslots s" and ?D = "dcount s"
  let ?k = "?D mod ?N"
  have k: "?k < ?N"
    using m_memD(1) [OF inv] by simp
  note S = m_slotD [OF inv k]
  have D: "?k + (?D div ?N) * ?N = ?D"
    by (rule ticket_split)
  have lt: "newest s ?k div 2 < ?D div ?N + 1"
  proof (rule ccontr)
    assume "\<not> newest s ?k div 2 < ?D div ?N + 1"
    then have "(?D div ?N + 1) * ?N \<le> (newest s ?k div 2) * ?N"
      by (intro mult_le_mono1) simp
    then have "(?D div ?N) * ?N + ?N \<le> (newest s ?k div 2) * ?N"
      by (simp only: add_mult_distrib mult_1)
    then have "?D + ?N \<le> serving s ?k"
      using D by linarith
    then show False
      using S(4) by linarith
  qed
  then show n: "newest s ?k = Suc (2 * (?D div ?N))"
    using seen by linarith
  have "serving s ?k = ?D"
    using serving_ticket [of s ?D] n by simp
  then show "?D < ecount s"
    using S(3) n by simp
  show "pacc s ?k = newest s ?k"
  proof (rule ccontr)
    assume "pacc s ?k \<noteq> newest s ?k"
    then obtain j t where j: "touched (tpc s j) = Some t" "t mod ?N = ?k"
      using m_ownerD(4) [OF inv k] by blast
    from touched_owner [OF j(1)] show False
    proof
      assume "enq_ticket (tpc s j) = Some t"
      from enq_ticketD(2) [OF inv this] j(2) n show False
        by (metis dvd_triv_left even_Suc)
    next
      assume d: "deq_ticket (tpc s j) = Some t"
      have "t div ?N = ?D div ?N"
        using deq_ticketD(2) [OF inv d] j(2) n by simp
      then show False
        using ticket_eqI [of t ?N ?D] j(2) deq_ticketD(1) [OF inv d] by simp
    qed
  qed
qed

lemma mod_differs: "(k::nat) < n \<Longrightarrow> k \<noteq> t mod n \<Longrightarrow> k + l * n \<noteq> t"
  by auto

text \<open>
  A successful compare-exchange takes the next ticket: the slot of that ticket is at its turn,
  and the thread knows of all accesses of it.
\<close>

definition ticket_won :: "nat \<Rightarrow> 'a \<Rightarrow> usize \<Rightarrow> 'a mpmc_sys \<Rightarrow> 'a mpmc_sys" where
  "ticket_won i v w s = set_thread i (store_view (tview s i) (pmem s) L_enqueue) (E_write v w)
      (s\<lparr>pqueue := (pqueue s)\<lparr>pq_enqueue_pos := w + 1\<rparr>, pmem := rmw_relaxed (pmem s) L_enqueue (w + 1),
         claimed := claimed s @ [v]\<rparr>)"

definition data_won :: "nat \<Rightarrow> usize \<Rightarrow> 'a mpmc_sys \<Rightarrow> 'a mpmc_sys" where
  "data_won i w s = set_thread i (store_view (tview s i) (pmem s) L_dequeue) (D_read w)
      (s\<lparr>pqueue := (pqueue s)\<lparr>pq_dequeue_pos := w + 1\<rparr>, pmem := rmw_relaxed (pmem s) L_dequeue (w + 1)\<rparr>)"

lemma ticket_won_sel:
  "newest (ticket_won i v w s) = newest s" "dcount (ticket_won i v w s) = dcount s" "nslots (ticket_won i v w s) = nslots s"
  "ecount (ticket_won i v w s) = Suc (ecount s)" "pacc (ticket_won i v w s) = pacc s"
  "claimed (ticket_won i v w s) = claimed s @ [v]" "delivery (ticket_won i v w s) = delivery s"
  "tpc (ticket_won i v w s) = (tpc s)(i := E_write v w)"
  "tview (ticket_won i v w s) = (tview s)(i := store_view (tview s i) (pmem s) L_enqueue)"
  "pq_slots (pqueue (ticket_won i v w s)) = pq_slots (pqueue s)"
  "pq_enqueue_pos (pqueue (ticket_won i v w s)) = w + 1" "pq_dequeue_pos (pqueue (ticket_won i v w s)) = pq_dequeue_pos (pqueue s)"
  "pmem (ticket_won i v w s) = rmw_relaxed (pmem s) L_enqueue (w + 1)" "mask_ok (pqueue (ticket_won i v w s)) = mask_ok (pqueue s)"
  by (simp_all add: ticket_won_def newest_def dcount_def fun_eq_iff rmw_relaxed_def mask_ok_def)

lemma data_won_sel:
  assumes "pmem s L_dequeue \<noteq> []"
  shows "newest (data_won i w s) = newest s" "dcount (data_won i w s) = Suc (dcount s)" "nslots (data_won i w s) = nslots s"
    "pacc (data_won i w s) = pacc s" "claimed (data_won i w s) = claimed s" "delivery (data_won i w s) = delivery s"
    "tpc (data_won i w s) = (tpc s)(i := D_read w)"
    "tview (data_won i w s) = (tview s)(i := store_view (tview s i) (pmem s) L_dequeue)"
    "pq_slots (pqueue (data_won i w s)) = pq_slots (pqueue s)"
    "pq_dequeue_pos (pqueue (data_won i w s)) = w + 1" "pq_enqueue_pos (pqueue (data_won i w s)) = pq_enqueue_pos (pqueue s)"
    "pmem (data_won i w s) = rmw_relaxed (pmem s) L_dequeue (w + 1)" "mask_ok (pqueue (data_won i w s)) = mask_ok (pqueue s)"
  using assms by (simp_all add: data_won_def newest_def dcount_def fun_eq_iff rmw_relaxed_def mask_ok_def Suc_diff_le Suc_le_eq)

lemma enqueue_next:
  assumes inv: "m_inv s" and hor: "horizon s" and pc: "tpc s i = E_cas b v w" and w: "mval (last (pmem s L_enqueue)) = w"
  shows "unat w = ecount s" and "w = of_nat (ecount s)"
    and "newest s (ecount s mod nslots s) = 2 * (ecount s div nslots s)"
    and "pacc s (ecount s mod nslots s) = newest s (ecount s mod nslots s)"
    and "tview s i (L_value (ecount s mod nslots s)) = newest s (ecount s mod nslots s)"
    and "serving s (ecount s mod nslots s) = ecount s"
proof -
  let ?k = "ecount s mod nslots s"
  have k: "?k < nslots s"
    using m_memD(1) [OF inv] by simp
  show w': "w = of_nat (ecount s)"
    using last_enqueue [OF inv] w by simp
  show uw: "unat w = ecount s"
    using w' unat_ecount [OF inv hor] by simp
  have cas: "2 * (ecount s div nslots s) \<le> tview s i (L_value ?k)" "2 * (ecount s div nslots s) \<le> newest s ?k"
    using m_ownerD(1) [OF inv, of i] pc uw by (simp_all add: Let_def)
  note turn = enqueue_turn [OF inv cas(2)]
  have "tview s i (L_value ?k) \<le> pacc s ?k"
    using tview_bounded [OF inv, of i] k by (simp add: m_bounded_def)
  then show "newest s ?k = 2 * (ecount s div nslots s)" "pacc s ?k = newest s ?k" "tview s i (L_value ?k) = newest s ?k"
    using cas(1) turn by simp_all
  show "serving s ?k = ecount s"
    using serving_ticket [of s "ecount s"] turn(1) by simp
qed

lemma dequeue_next:
  assumes inv: "m_inv s" and hor: "horizon s" and pc: "tpc s i = D_cas a w" and w: "mval (last (pmem s L_dequeue)) = w"
  shows "unat w = dcount s" and "w = of_nat (dcount s)"
    and "newest s (dcount s mod nslots s) = Suc (2 * (dcount s div nslots s))"
    and "pacc s (dcount s mod nslots s) = newest s (dcount s mod nslots s)"
    and "tview s i (L_value (dcount s mod nslots s)) = newest s (dcount s mod nslots s)"
    and "serving s (dcount s mod nslots s) = dcount s" and "dcount s < ecount s"
proof -
  let ?k = "dcount s mod nslots s"
  have k: "?k < nslots s"
    using m_memD(1) [OF inv] by simp
  show w': "w = of_nat (dcount s)"
    using last_dequeue [OF inv] w by simp
  show uw: "unat w = dcount s"
    using w' unat_dcount [OF inv hor] by simp
  have cas: "Suc (2 * (dcount s div nslots s)) \<le> tview s i (L_value ?k)" "Suc (2 * (dcount s div nslots s)) \<le> newest s ?k"
    using m_ownerD(1) [OF inv, of i] pc uw by (simp_all add: Let_def)
  note turn = dequeue_turn [OF inv cas(2)]
  have "tview s i (L_value ?k) \<le> pacc s ?k"
    using tview_bounded [OF inv, of i] k by (simp add: m_bounded_def)
  then show "newest s ?k = Suc (2 * (dcount s div nslots s))" "pacc s ?k = newest s ?k" "tview s i (L_value ?k) = newest s ?k"
      "dcount s < ecount s"
    using cas(1) turn by simp_all
  show "serving s ?k = dcount s"
    using serving_ticket [of s "dcount s"] turn(1) by simp
qed

text \<open>Who owns what, after thread \<open>i\<close> has taken a ticket of one side.\<close>

lemma m_inv_ownerI:
  assumes "\<And>j. mpc_ok t (tview t j) (tpc t j)"
    and "\<And>a c u. enq_ticket (tpc t a) = Some u \<Longrightarrow> enq_ticket (tpc t c) = Some u \<Longrightarrow> a = c"
    and "\<And>a c u. deq_ticket (tpc t a) = Some u \<Longrightarrow> deq_ticket (tpc t c) = Some u \<Longrightarrow> a = c"
    and "\<And>k. k < nslots t \<Longrightarrow> pacc t k = newest t k \<or> (\<exists>i u. touched (tpc t i) = Some u \<and> u mod nslots t = k)"
    and "\<And>k. k < nslots t \<Longrightarrow> even (newest t k) \<Longrightarrow> serving t k < ecount t \<Longrightarrow> \<exists>i. enq_ticket (tpc t i) = Some (serving t k)"
    and "\<And>k. k < nslots t \<Longrightarrow> odd (newest t k) \<Longrightarrow> serving t k < dcount t \<Longrightarrow> \<exists>i. deq_ticket (tpc t i) = Some (serving t k)"
  shows "m_inv_owner t"
  using assms unfolding m_inv_owner_def by blast

text \<open>The memory and the views after a position counter has been advanced.\<close>

lemma rmw_bounded:
  assumes "m_bounded s V" and "nslots t = nslots s" "pacc t = pacc s" "pmem t = rmw_relaxed (pmem s) l x"
  shows "m_bounded t V"
  using assms by (auto simp: m_bounded_def rmw_relaxed_def)

lemma rmw_view:
  assumes inv: "m_inv s" and l: "l = L_enqueue \<or> l = L_dequeue"
    and t: "nslots t = nslots s" "pacc t = pacc s" "pmem t = rmw_relaxed (pmem s) l x"
      "tview t = (tview s)(i := store_view (tview s i) (pmem s) l)"
  shows "m_inv_view t"
proof -
  have "m_bounded t (store_view (tview s i) (pmem s) l)"
    using tview_bounded [OF inv, of i] l t by (auto simp: m_bounded_def store_view_def rmw_relaxed_def)
  moreover have "pmem t L_closed_flag = pmem s L_closed_flag" "pmem t (L_sequence k) = pmem s (L_sequence k)" for k
    using l t(3) by (auto simp: rmw_relaxed_def)
  ultimately show ?thesis
    using m_invD(3) [OF inv] rmw_bounded [OF _ t(1-3)] by (simp add: m_inv_view_def t(1,4))
qed

lemma ticket_won_mem:
  assumes inv: "m_inv s" and w: "w = of_nat (ecount s)"
  shows "m_inv_mem (ticket_won i v w s)"
proof -
  have "pmem (ticket_won i v w s) L_enqueue =
      pmem s L_enqueue @ [\<lparr>mval = of_nat (Suc (ecount s)), mview = mview (last (pmem s L_enqueue))\<rparr>]"
    using w by (simp add: ticket_won_sel rmw_relaxed_def)
  moreover have "pmem (ticket_won i v w s) l = pmem s l" if "l \<noteq> L_enqueue" for l
    using that by (simp add: ticket_won_sel rmw_relaxed_def)
  ultimately show ?thesis
    using m_invD(1) [OF inv] m_memD(3) [OF inv]
    by (auto simp: m_inv_mem_def ticket_won_sel(3,4,14) nth_append less_Suc_eq)
qed

lemma data_won_mem:
  assumes inv: "m_inv s" and w: "w = of_nat (dcount s)"
  shows "m_inv_mem (data_won i w s)"
proof -
  have ne: "pmem s L_dequeue \<noteq> []"
    using m_memD(4) [OF inv] by auto
  have "pmem (data_won i w s) L_dequeue =
      pmem s L_dequeue @ [\<lparr>mval = of_nat (Suc (dcount s)), mview = mview (last (pmem s L_dequeue))\<rparr>]"
    using w by (simp add: data_won_sel [OF ne] rmw_relaxed_def)
  moreover have "pmem (data_won i w s) l = pmem s l" if "l \<noteq> L_dequeue" for l
    using that by (simp add: data_won_sel [OF ne] rmw_relaxed_def)
  ultimately show ?thesis
    using m_invD(1) [OF inv] m_memD(4) [OF inv]
    by (auto simp: m_inv_mem_def data_won_sel(3,5,13) [OF ne] nth_append less_Suc_eq)
qed

lemma ticket_won_slots:
  assumes inv: "m_inv s" and srv: "serving s (ecount s mod nslots s) = ecount s"
  shows "m_inv_slots (ticket_won i v w s)"
proof -
  have "Suc (ecount s) \<le> serving s m + nslots s" if "m < nslots s" for m
  proof (cases "m = ecount s mod nslots s")
    case True
    then have "serving s m = ecount s"
      using srv by simp
    then show ?thesis using m_memD(1) [OF inv] by linarith
  next
    case False
    then show ?thesis
      using m_slotD(1) [OF inv that] mod_differs [OF that False, of "Suc (newest s m div 2)"] by simp
  qed
  then show ?thesis
    using m_invD(2) [OF inv] by (simp add: m_inv_slots_def ticket_won_sel less_SucI)
qed

lemma data_won_slots:
  assumes inv: "m_inv s" and odd: "odd (newest s (dcount s mod nslots s))" and lt: "dcount s < ecount s"
  shows "m_inv_slots (data_won i w s)"
proof -
  have ne: "pmem s L_dequeue \<noteq> []"
    using m_memD(4) [OF inv] by auto
  have "Suc (dcount s) \<le> serving s m" if "m < nslots s" "even (newest s m)" for m
  proof -
    have "m \<noteq> dcount s mod nslots s"
      using that(2) odd by auto
    then show ?thesis
      using m_slotD(2) [OF inv that] mod_differs [OF that(1), of "dcount s" "newest s m div 2"] by simp
  qed
  then show ?thesis
    using m_invD(2) [OF inv] lt by (auto simp: m_inv_slots_def data_won_sel [OF ne] less_SucI)
qed

lemma ticket_won_owner:
  assumes inv: "m_inv s" and hor: "horizon s" and pc: "tpc s i = E_cas b v w" and w: "mval (last (pmem s L_enqueue)) = w"
  shows "m_inv_owner (ticket_won i v w s)"
proof -
  let ?t = "ticket_won i v w s" and ?E = "ecount s" and ?N = "nslots s"
  note nxt = enqueue_next [OF assms] and sel = ticket_won_sel [of i v w s]
  have none: "enq_ticket (tpc s i) = None" "deq_ticket (tpc s i) = None" "touched (tpc s i) = None"
    using pc by simp_all
  have old: "mpc_ok ?t V qc" if "mpc_ok s V qc" for V qc
    using that sel m_slotD(5) [OF inv, of 0] m_memD(1) [OF inv]
    by (cases "(s, V, qc)" rule: mpc_ok.cases) (auto simp: Let_def nth_append)
  have new: "mpc_ok ?t (store_view (tview s i) (pmem s) L_enqueue) (E_write v w)"
    using nxt(1,3,4,5) by (simp add: Let_def sel store_view_def)
  have turn: "\<exists>j. enq_ticket (tpc ?t j) = Some (serving s m)" if "m < ?N" "even (newest s m)" "serving s m < Suc ?E" for m
  proof (cases "m = ?E mod ?N")
    case True
    then show ?thesis using nxt(1,6) by (intro exI [of _ i]) (simp add: sel)
  next
    case False
    then have "serving s m < ?E"
      using that mod_differs [of m ?N ?E "newest s m div 2"] by (simp add: less_Suc_eq)
    then show ?thesis
      using m_ownerD(5) [OF inv, of m] that none(1) keep_holder2 [of enq_ticket s _ i] by (simp add: sel)
  qed
  show ?thesis
  proof (rule m_inv_ownerI)
    show "mpc_ok ?t (tview ?t j) (tpc ?t j)" for j
      using old new m_ownerD(1) [OF inv, of j] by (simp add: sel)
    show "a = c" if "enq_ticket (tpc ?t a) = Some u" "enq_ticket (tpc ?t c) = Some u" for a c u
      using that m_ownerD(2) [OF inv, of a u c] enq_ticketD(1) [OF inv] nxt(1) by (auto simp: sel split: if_splits)
    show "a = c" if "deq_ticket (tpc ?t a) = Some u" "deq_ticket (tpc ?t c) = Some u" for a c u
      using that m_ownerD(3) [OF inv, of a u c] by (auto simp: sel split: if_splits)
  qed (use turn keep_touched [OF inv, of _ i] none(2,3) m_ownerD(6) [OF inv] keep_holder2 [of deq_ticket s _ i] in
      \<open>simp_all add: sel\<close>)
qed

lemma data_won_owner:
  assumes inv: "m_inv s" and hor: "horizon s" and pc: "tpc s i = D_cas a w" and w: "mval (last (pmem s L_dequeue)) = w"
  shows "m_inv_owner (data_won i w s)"
proof -
  let ?t = "data_won i w s" and ?D = "dcount s" and ?N = "nslots s"
  have ne: "pmem s L_dequeue \<noteq> []"
    using m_memD(4) [OF inv] by auto
  note nxt = dequeue_next [OF assms] and sel = data_won_sel [OF ne, of i w]
  have none: "enq_ticket (tpc s i) = None" "deq_ticket (tpc s i) = None" "touched (tpc s i) = None"
    using pc by simp_all
  have old: "mpc_ok ?t V qc" if "mpc_ok s V qc" for V qc
    using that sel by (cases "(s, V, qc)" rule: mpc_ok.cases) (auto simp: Let_def)
  have new: "mpc_ok ?t (store_view (tview s i) (pmem s) L_dequeue) (D_read w)"
    using nxt(1,3,4,5) by (simp add: Let_def sel store_view_def)
  have turn: "\<exists>j. deq_ticket (tpc ?t j) = Some (serving s m)" if "m < ?N" "odd (newest s m)" "serving s m < Suc ?D" for m
  proof (cases "m = ?D mod ?N")
    case True
    then show ?thesis using nxt(1,6) by (intro exI [of _ i]) (simp add: sel)
  next
    case False
    then have "serving s m < ?D"
      using that mod_differs [of m ?N ?D "newest s m div 2"] by (simp add: less_Suc_eq)
    then show ?thesis
      using m_ownerD(6) [OF inv, of m] that none(2) keep_holder2 [of deq_ticket s _ i] by (simp add: sel)
  qed
  show ?thesis
  proof (rule m_inv_ownerI)
    show "mpc_ok ?t (tview ?t j) (tpc ?t j)" for j
      using old new m_ownerD(1) [OF inv, of j] by (simp add: sel)
    show "x = c" if "enq_ticket (tpc ?t x) = Some u" "enq_ticket (tpc ?t c) = Some u" for x c u
      using that m_ownerD(2) [OF inv, of x u c] by (auto simp: sel split: if_splits)
    show "x = c" if "deq_ticket (tpc ?t x) = Some u" "deq_ticket (tpc ?t c) = Some u" for x c u
      using that m_ownerD(3) [OF inv, of x u c] deq_ticketD(1) [OF inv] nxt(1) by (auto simp: sel split: if_splits)
  qed (use turn keep_touched [OF inv, of _ i] none(1,3) m_ownerD(5) [OF inv] keep_holder2 [of enq_ticket s _ i] in
      \<open>simp_all add: sel\<close>)
qed

lemma ticket_won_data:
  assumes inv: "m_inv s" and pc: "tpc s i = E_cas b v w"
  shows "m_inv_data (ticket_won i v w s)"
  unfolding m_inv_data_def
proof (intro conjI allI impI, goal_cases)
  case (1 m)
  then show ?case using m_dataD(1) [OF inv, of m] m_slotD(3) [OF inv, of m] by (simp add: ticket_won_sel nth_append)
next
  case 2
  then show ?case using m_dataD(2) [OF inv] by (simp add: ticket_won_sel)
next
  case 3
  then show ?case
    using m_dataD(3,4) [OF inv] m_slotD(5) [OF inv m_memD(1) [OF inv]] by (fastforce simp: ticket_won_sel nth_append)
next
  case (4 j u)
  then show ?case using m_dataD(5) [OF inv, of j u] by (simp add: ticket_won_sel split: if_splits)
next
  case (5 u)
  then show ?case using keep_delivered [OF inv, of u i] pc by (simp add: ticket_won_sel)
qed

lemma data_won_data:
  assumes inv: "m_inv s" and pc: "tpc s i = D_cas a w" and uw: "unat w = dcount s"
  shows "m_inv_data (data_won i w s)"
  unfolding m_inv_data_def
proof (intro conjI allI impI, goal_cases)
  note sel = data_won_sel [of s i w]
  have ne: "pmem s L_dequeue \<noteq> []"
    using m_memD(4) [OF inv] by auto
  {
    case (1 m)
    then show ?case using m_dataD(1) [OF inv, of m] by (simp add: sel ne)
  next
    case 2
    then show ?case using m_dataD(2) [OF inv] by (simp add: sel ne)
  next
    case 3
    then show ?case using m_dataD(3,4) [OF inv] by (fastforce simp: sel ne)
  next
    case (4 j u)
    then show ?case
      using m_dataD(5) [OF inv, of j u] m_dataD(3) [OF inv, of u] uw by (fastforce simp: sel ne split: if_splits)
  next
    case (5 u)
    then show ?case
      using keep_delivered [OF inv, of u i] pc uw by (cases "u = dcount s") (auto simp: sel ne intro: exI [of _ i])
  }
qed

lemma win_ticket_keeps:
  assumes "m_inv s" and "horizon s" and "tpc s i = E_cas b v w" and "mval (last (pmem s L_enqueue)) = w"
  shows "m_inv (ticket_won i v w s)"
proof -
  note nxt = enqueue_next [OF assms]
  have "m_inv_mirror (ticket_won i v w s)"
    using m_invD(6) [OF assms(1)] nxt(2) by (simp add: m_inv_mirror_def ticket_won_sel)
  moreover have "m_inv_view (ticket_won i v w s)"
    by (rule rmw_view [OF assms(1) disjI1 [OF refl]]) (simp_all only: ticket_won_sel)
  ultimately show ?thesis
    unfolding m_inv_def
    using ticket_won_mem [OF assms(1) nxt(2)] ticket_won_slots [OF assms(1) nxt(6)] ticket_won_owner [OF assms]
      ticket_won_data [OF assms(1,3)] by blast
qed

lemma win_data_keeps:
  assumes "m_inv s" and "horizon s" and "tpc s i = D_cas a w" and "mval (last (pmem s L_dequeue)) = w"
  shows "m_inv (data_won i w s)"
proof -
  note nxt = dequeue_next [OF assms]
  have ne: "pmem s L_dequeue \<noteq> []"
    using m_memD(4) [OF assms(1)] by auto
  have "m_inv_mirror (data_won i w s)"
    using m_invD(6) [OF assms(1)] nxt(2) by (simp add: m_inv_mirror_def data_won_sel [OF ne])
  moreover have "m_inv_view (data_won i w s)"
    by (rule rmw_view [OF assms(1) disjI2 [OF refl]]) (simp_all only: data_won_sel [OF ne])
  moreover have "odd (newest s (dcount s mod nslots s))"
    using nxt(3) by simp
  ultimately show ?thesis
    unfolding m_inv_def
    using data_won_mem [OF assms(1) nxt(2)] data_won_slots [OF assms(1) _ nxt(7)] data_won_owner [OF assms]
      data_won_data [OF assms(1,3) nxt(1)] by blast
qed

section \<open>Using a ticket\<close>

text \<open>
  The holder of a ticket touches its slot only, which no other holder shares: what the other
  threads rely on stays as it is.
\<close>

definition off_slot :: "nat \<Rightarrow> 'a mpmc_sys \<Rightarrow> 'a mpmc_sys \<Rightarrow> bool" where
  "off_slot k s t \<longleftrightarrow>
     nslots t = nslots s \<and> claimed t = claimed s \<and> dcount t = dcount s \<and> newest s k \<le> newest t k \<and>
     (\<forall>m. m \<noteq> k \<longrightarrow> pacc t m = pacc s m \<and> newest t m = newest s m \<and> pq_slots (pqueue t) ! m = pq_slots (pqueue s) ! m)"

lemma off_slotD:
  assumes "off_slot k s t"
  shows "nslots t = nslots s" "claimed t = claimed s" "dcount t = dcount s" "newest s k \<le> newest t k"
    "\<And>m. m \<noteq> k \<Longrightarrow> pacc t m = pacc s m" "\<And>m. m \<noteq> k \<Longrightarrow> newest t m = newest s m"
    "\<And>m. m \<noteq> k \<Longrightarrow> pq_slots (pqueue t) ! m = pq_slots (pqueue s) ! m"
  using assms by (simp_all add: off_slot_def)

lemma other_ok:
  assumes ok: "mpc_ok s V qc" and apart: "\<And>u. holds_ticket qc u \<Longrightarrow> u mod nslots s \<noteq> k" and off: "off_slot k s t"
  shows "mpc_ok t V qc"
proof -
  note F = off_slotD [OF off]
  have grow: "newest s m \<le> newest t m" for m
    using F(4,6) by (cases "m = k") simp_all
  show ?thesis
    using ok apart F grow
    by (cases "(s, V, qc)" rule: mpc_ok.cases) (auto simp: Let_def holds_ticket_def intro: order_trans)
qed

text \<open>Another slot than that of thread \<open>i\<close>'s ticket, in use, is in use by another thread.\<close>

lemma slot_holders:
  assumes inv: "m_inv s" and hold: "holds_ticket (tpc s i) u" and m: "m < nslots s" "m \<noteq> u mod nslots s"
  shows "even (newest s m) \<Longrightarrow> serving s m < ecount s \<Longrightarrow> \<exists>j. j \<noteq> i \<and> enq_ticket (tpc s j) = Some (serving s m)"
    and "odd (newest s m) \<Longrightarrow> serving s m < dcount s \<Longrightarrow> \<exists>j. j \<noteq> i \<and> deq_ticket (tpc s j) = Some (serving s m)"
    and "pacc s m \<noteq> newest s m \<Longrightarrow> \<exists>j y. j \<noteq> i \<and> touched (tpc s j) = Some y \<and> y mod nslots s = m"
proof -
  have elsewhere: "j \<noteq> i" if "holds_ticket (tpc s j) y" "y mod nslots s = m" for j y
    using that hold m(2) by (cases "tpc s i") (auto simp: holds_ticket_def)
  show "\<exists>j. j \<noteq> i \<and> enq_ticket (tpc s j) = Some (serving s m)" if "even (newest s m)" "serving s m < ecount s"
    using m_ownerD(5) [OF inv m(1) that] elsewhere [of _ "serving s m"] m(1) by (auto simp: holds_ticket_def)
  show "\<exists>j. j \<noteq> i \<and> deq_ticket (tpc s j) = Some (serving s m)" if "odd (newest s m)" "serving s m < dcount s"
    using m_ownerD(6) [OF inv m(1) that] elsewhere [of _ "serving s m"] m(1) by (auto simp: holds_ticket_def)
  show "\<exists>j y. j \<noteq> i \<and> touched (tpc s j) = Some y \<and> y mod nslots s = m" if "pacc s m \<noteq> newest s m"
    using m_ownerD(4) [OF inv m(1) that] elsewhere touched_owner by (metis holds_ticket_def)
qed

lemma holder_owner:
  fixes s t :: "'a mpmc_sys"
  assumes inv: "m_inv s" and hold: "holds_ticket (tpc s i) u0" and k: "k = u0 mod nslots s" and off: "off_slot k s t"
    and thr: "tpc t = (tpc s)(i := pc)" "\<And>j. j \<noteq> i \<Longrightarrow> tview t j = tview s j" and ok: "mpc_ok t (tview t i) pc"
    and tick: "\<And>u. enq_ticket pc = Some u \<Longrightarrow> enq_ticket (tpc s i) = Some u"
      "\<And>u. deq_ticket pc = Some u \<Longrightarrow> deq_ticket (tpc s i) = Some u"
    and touch: "pacc t k = newest t k \<or> touched pc = Some u0"
    and e: "even (newest t k) \<Longrightarrow> serving t k < ecount s \<Longrightarrow> enq_ticket pc = Some (serving t k)"
    and d: "odd (newest t k) \<Longrightarrow> serving t k < dcount s \<Longrightarrow> deq_ticket pc = Some (serving t k)"
  shows "m_inv_owner t"
proof -
  note F = off_slotD [OF off]
  note others = slot_holders [OF inv hold, folded k]
  show ?thesis
    unfolding m_inv_owner_def
  proof (intro conjI allI impI, goal_cases)
    case (1 j)
    show ?case
    proof (cases "j = i")
      case False
      have "mpc_ok t (tview s j) (tpc s j)"
        using other_ok [OF m_ownerD(1) [OF inv] _ off] holders_apart [OF inv _ hold, of j] False k by metis
      then show ?thesis using False thr by simp
    qed (use ok thr in simp)
  next
    case (2 a c u)
    then show ?case using m_ownerD(2) [OF inv, of a u c] tick(1) by (auto simp: thr split: if_splits)
  next
    case (3 a c u)
    then show ?case using m_ownerD(3) [OF inv, of a u c] tick(2) by (auto simp: thr split: if_splits)
  next
    case (4 m)
    show ?case
    proof (cases "m = k \<or> pacc s m = newest s m")
      case True
      then show ?thesis using touch F(1,5,6) k thr by (cases "m = k") (auto intro: exI [of _ i])
    next
      case False
      then obtain j u where "j \<noteq> i" "touched (tpc s j) = Some u" "u mod nslots s = m"
        using others(3) [of m] 4 F(1) by auto
      then show ?thesis
        by (intro disjI2 exI [of _ j] exI [of _ u]) (simp add: thr F)
    qed
  next
    case (5 m)
    show ?case
    proof (cases "m = k")
      case False
      then show ?thesis
        using 5 F(1,2,6) others(1) [of m] by (auto simp: thr)
    qed (use 5 e F(1,2) in \<open>auto simp: thr intro: exI [of _ i]\<close>)
  next
    case (6 m)
    show ?case
    proof (cases "m = k")
      case False
      then show ?thesis
        using 6 F(1,3,6) others(2) [of m] by (auto simp: thr)
    qed (use 6 d F(1-3) in \<open>auto simp: thr intro: exI [of _ i]\<close>)
  qed
qed

lemma holder_data:
  assumes inv: "m_inv s" and off: "off_slot k s t" and thr: "tpc t = (tpc s)(i := pc)"
    and deq: "deq_ticket pc = deq_ticket (tpc s i)" and del: "delivery t = delivery s"
    and slot: "odd (newest t k) \<Longrightarrow> pacc t k = newest t k \<Longrightarrow> slot_value (pq_slots (pqueue t) ! k) = claimed s ! serving t k"
  shows "m_inv_data t"
proof -
  note F = off_slotD [OF off]
  have tick: "deq_ticket (tpc t j) = deq_ticket (tpc s j)" for j
    using deq by (simp add: thr)
  have "slot_value (pq_slots (pqueue t) ! m) = claimed s ! serving t m"
    if "m < nslots s" "odd (newest t m)" "pacc t m = newest t m" for m
    using that slot m_dataD(1) [OF inv, of m] F by (cases "m = k") simp_all
  then show ?thesis
    using m_invD(5) [OF inv] by (simp add: m_inv_data_def tick F(1-3) del)
qed

text \<open>Views after a step that only appends.\<close>

lemma m_bounded_grow:
  assumes "m_bounded s V" and "nslots t = nslots s" and "\<And>l. length (pmem s l) \<le> length (pmem t l)" and "\<And>k. pacc s k \<le> pacc t k"
  shows "m_bounded t V"
  using assms(1) assms(2) le_trans [OF _ assms(4)] less_le_trans [OF _ assms(3)] by (auto simp: m_bounded_def)

lemma m_view_grow:
  assumes inv: "m_inv_view s" and N: "nslots t = nslots s"
    and mono: "\<And>l. length (pmem s l) \<le> length (pmem t l)" "\<And>k. pacc s k \<le> pacc t k"
    and thr: "\<And>j. j \<noteq> i \<Longrightarrow> tview t j = tview s j" and own: "m_bounded t (tview t i)"
    and msg: "\<And>l m. m \<in> set (pmem t l) \<Longrightarrow> m \<in> set (pmem s l) \<or> m_bounded t (mview m)"
  shows "m_inv_view t"
proof -
  have up: "m_bounded t V" if "m_bounded s V" for V
    by (rule m_bounded_grow [OF that N mono])
  have "m_bounded t (tview t j)" for j
    using own up inv thr by (cases "j = i") (simp_all add: m_inv_view_def)
  moreover have "m_bounded t (mview m)" if "m \<in> set (pmem t L_closed_flag)" for m
    using msg [OF that] up inv by (auto simp: m_inv_view_def)
  moreover have "m_bounded t (mview m)" if "m \<in> set (pmem t (L_sequence k))" "k < nslots s" for m k
    using msg [OF that(1)] up inv that(2) by (auto simp: m_inv_view_def)
  ultimately show ?thesis
    using N by (simp add: m_inv_view_def)
qed

lemma write_value_keeps:
  fixes s :: "'a mpmc_sys"
  assumes inv: "m_inv s" and hor: "horizon s" and pc: "tpc s i = E_write v w" and k: "k = slot_at s w"
  defines "t \<equiv> set_thread i (access_view (tview s i) (L_value k) (pacc s k)) (E_publish v w)
      (s\<lparr>pqueue := (pqueue s)\<lparr>pq_slots := (pq_slots (pqueue s))[k := (pq_slots (pqueue s) ! k)\<lparr>slot_value := v\<rparr>]\<rparr>,
         pacc := (pacc s)(k := Suc (pacc s k))\<rparr>)"
  shows "m_inv t"
proof -
  note I = m_invD [OF inv]
  have kN: "k < nslots s" and k': "k = unat w mod nslots s"
    using slot_at_mod [OF inv hor, of w] k by simp_all
  have own: "unat w < ecount s" "v = claimed s ! unat w" "newest s k = 2 * (unat w div nslots s)" "pacc s k = newest s k"
    using m_ownerD(1) [OF inv, of i] pc k' by (simp_all add: Let_def)
  have sel: "newest t = newest s" "dcount t = dcount s" "nslots t = nslots s" "claimed t = claimed s" "pmem t = pmem s"
      "delivery t = delivery s" "pacc t = (pacc s)(k := Suc (newest s k))" "tpc t = (tpc s)(i := E_publish v w)"
      "tview t = (tview s)(i := access_view (tview s i) (L_value k) (newest s k))"
      "slot_value (pq_slots (pqueue t) ! k) = v"
    using own(4) kN by (simp_all add: t_def newest_def dcount_def fun_eq_iff)
  have off: "off_slot k s t"
    by (simp add: off_slot_def sel) (simp add: t_def)
  have hold: "holds_ticket (tpc s i) (unat w)"
    by (simp add: pc holds_ticket_def)
  have srv: "serving s k = unat w"
    using serving_ticket [of s "unat w"] own(3) k' by simp
  have "m_inv_mem t" "m_inv_slots t"
    using I(1,2) by (simp_all add: m_inv_mem_def m_inv_slots_def sel) (simp add: t_def mask_ok_def vector_size_def)
  moreover have "m_inv_view t"
  proof (rule m_view_grow [OF I(3), where i = i])
    show "m_bounded t (tview t i)"
      using tview_bounded [OF inv, of i] own(4) by (auto simp: m_bounded_def sel access_view_def)
  qed (simp_all add: sel own(4) le_SucI)
  moreover have "m_inv_owner t"
    by (rule holder_owner [OF inv hold k' off sel(8)])
      (use own srv k' pc sel(10) in \<open>simp_all add: sel(1-9) Let_def access_view_def\<close>)
  moreover have "m_inv_data t"
    by (rule holder_data [OF inv off sel(8)]) (simp_all add: sel pc own(3))
  moreover have "m_inv_mirror t"
    using I(6) kN by (simp add: m_inv_mirror_def sel) (auto simp: t_def nth_list_update)
  ultimately show ?thesis
    by (simp add: m_inv_def)
qed

lemma read_value_keeps:
  fixes s :: "'a mpmc_sys" and junk :: 'a
  assumes inv: "m_inv s" and hor: "horizon s" and pc: "tpc s i = D_read w" and k: "k = slot_at s w"
  defines "t \<equiv> set_thread i (access_view (tview s i) (L_value k) (pacc s k)) (D_release w (slot_value (pq_slots (pqueue s) ! k)))
      (s\<lparr>pqueue := (pqueue s)\<lparr>pq_slots := (pq_slots (pqueue s))[k := (pq_slots (pqueue s) ! k)\<lparr>slot_value := junk\<rparr>]\<rparr>,
         pacc := (pacc s)(k := Suc (pacc s k))\<rparr>)"
  shows "m_inv t"
proof -
  note I = m_invD [OF inv]
  have kN: "k < nslots s" and k': "k = unat w mod nslots s"
    using slot_at_mod [OF inv hor, of w] k by simp_all
  have own: "unat w < dcount s" "newest s k = Suc (2 * (unat w div nslots s))" "pacc s k = newest s k"
    using m_ownerD(1) [OF inv, of i] pc k' by (simp_all add: Let_def)
  have srv: "serving s k = unat w"
    using serving_ticket [of s "unat w"] own(2) k' by simp
  have val: "slot_value (pq_slots (pqueue s) ! k) = claimed s ! unat w"
    using m_dataD(1) [OF inv kN] own srv by simp
  have sel: "newest t = newest s" "dcount t = dcount s" "nslots t = nslots s" "claimed t = claimed s" "pmem t = pmem s"
      "delivery t = delivery s" "pacc t = (pacc s)(k := Suc (newest s k))" "tpc t = (tpc s)(i := D_release w (claimed s ! unat w))"
      "tview t = (tview s)(i := access_view (tview s i) (L_value k) (newest s k))"
    using own(3) val by (simp_all add: t_def newest_def dcount_def fun_eq_iff)
  have off: "off_slot k s t"
    by (simp add: off_slot_def sel) (simp add: t_def)
  have hold: "holds_ticket (tpc s i) (unat w)"
    by (simp add: pc holds_ticket_def)
  have "m_inv_mem t" "m_inv_slots t"
    using I(1,2) by (simp_all add: m_inv_mem_def m_inv_slots_def sel) (simp add: t_def mask_ok_def vector_size_def)
  moreover have "m_inv_view t"
  proof (rule m_view_grow [OF I(3), where i = i])
    show "m_bounded t (tview t i)"
      using tview_bounded [OF inv, of i] own(3) by (auto simp: m_bounded_def sel access_view_def)
  qed (simp_all add: sel own(3) le_SucI)
  moreover have "m_inv_owner t"
    by (rule holder_owner [OF inv hold k' off sel(8)])
      (use own srv k' pc in \<open>simp_all add: sel Let_def access_view_def\<close>)
  moreover have "m_inv_data t"
    by (rule holder_data [OF inv off sel(8)]) (simp_all add: sel pc)
  moreover have "m_inv_mirror t"
    using I(6) kN by (simp add: m_inv_mirror_def sel) (auto simp: t_def nth_list_update)
  ultimately show ?thesis
    by (simp add: m_inv_def)
qed

text \<open>Publishing appends the slot's next message.\<close>

lemma sequence_append:
  fixes s t :: "'a mpmc_sys"
  assumes inv: "m_inv s" and kN: "k < nslots s" and val: "tview s i (L_value k) = Suc (newest s k)"
    and mem: "pmem t = store_release (tview s i) (pmem s) (L_sequence k) (of_nat (seqval (nslots s) k (Suc (newest s k))))"
    and same: "nslots t = nslots s" "claimed t = claimed s" "pacc t = pacc s" "pq_mask (pqueue t) = pq_mask (pqueue s)"
    and thr: "tview t = (tview s)(i := store_view (tview s i) (pmem s) (L_sequence k))"
  shows "newest t = (newest s)(k := Suc (newest s k))" and "dcount t = dcount s"
    and "m_inv_mem t" and "m_inv_view t"
proof -
  note I = m_invD [OF inv] and M = m_memD [OF inv]
  show new: "newest t = (newest s)(k := Suc (newest s k))" and D: "dcount t = dcount s"
    using M(7) [OF kN] by (simp_all add: newest_def dcount_def mem fun_eq_iff store_release_def)
  have "mask_ok (pqueue t)"
    using M(2) same(1,4) by (simp add: mask_ok_def vector_size_def)
  then show "m_inv_mem t"
    using I(1) M(7) [OF kN] val
    by (auto simp: m_inv_mem_def mem same store_release_def nth_append less_Suc_eq store_view_def)
  have b: "m_bounded t (store_view (tview s i) (pmem s) (L_sequence k))"
    using tview_bounded [OF inv, of i] by (auto simp: m_bounded_def mem same store_release_def store_view_def less_SucI)
  show "m_inv_view t"
  proof (rule m_view_grow [OF I(3) same(1), where i = i])
    show "m \<in> set (pmem s l) \<or> m_bounded t (mview m)" if "m \<in> set (pmem t l)" for l m
      using that b by (auto simp: mem store_release_def split: if_splits)
  qed (use b in \<open>simp_all add: mem store_release_def same thr\<close>)
qed

lemma publish_keeps:
  fixes s :: "'a mpmc_sys"
  assumes inv: "m_inv s" and hor: "horizon s" and pc: "tpc s i = E_publish v w" and k: "k = slot_at s w"
  defines "t \<equiv> set_thread i (store_view (tview s i) (pmem s) (L_sequence k)) (T_idle (Pushed True))
      (s\<lparr>pqueue := (pqueue s)\<lparr>pq_slots := (pq_slots (pqueue s))
           [k := (pq_slots (pqueue s) ! k)\<lparr>slot_sequence := 2 * w + 1\<rparr>]\<rparr>,
         pmem := store_release (tview s i) (pmem s) (L_sequence k) (2 * w + 1)\<rparr>)"
  shows "m_inv t"
proof -
  note I = m_invD [OF inv]
  have kN: "k < nslots s" and k': "k = unat w mod nslots s"
    using slot_at_mod [OF inv hor, of w] k by simp_all
  have own: "unat w < ecount s" "v = claimed s ! unat w" "newest s k = 2 * (unat w div nslots s)" "pacc s k = Suc (newest s k)"
      "tview s i (L_value k) = Suc (newest s k)" "slot_value (pq_slots (pqueue s) ! k) = v"
    using m_ownerD(1) [OF inv, of i] pc k' by (simp_all add: Let_def)
  have srv: "serving s k = unat w"
    using serving_ticket [of s "unat w"] own(3) k' by simp
  have word: "2 * w + 1 = of_nat (seqval (nslots s) k (Suc (newest s k)))"
    using seqval_ticket(2) [of "nslots s" "unat w"] own(3) k' by (simp add: add.commute)
  have sel: "nslots t = nslots s" "claimed t = claimed s" "pacc t = pacc s" "pq_mask (pqueue t) = pq_mask (pqueue s)"
      "tview t = (tview s)(i := store_view (tview s i) (pmem s) (L_sequence k))" "tpc t = (tpc s)(i := T_idle (Pushed True))"
      "delivery t = delivery s" "slot_value (pq_slots (pqueue t) ! k) = v"
    using kN own(6) by (simp_all add: t_def)
  have "pmem t = store_release (tview s i) (pmem s) (L_sequence k) (of_nat (seqval (nslots s) k (Suc (newest s k))))"
    using word by (simp add: t_def)
  note A = sequence_append [OF inv kN own(5) this sel(1-5)]
  have off: "off_slot k s t"
    by (simp add: off_slot_def sel A) (simp add: t_def)
  have hold: "holds_ticket (tpc s i) (unat w)"
    by (simp add: pc holds_ticket_def)
  have lap: "Suc (newest s k) div 2 = newest s k div 2"
    using own(3) by simp
  have "m_inv_slots t"
    using I(2) own(1,3) srv lap by (auto simp: m_inv_slots_def sel A)
  moreover have "m_inv_owner t"
    by (rule holder_owner [OF inv hold k' off sel(6)])
      (use own srv lap m_slotD(2) [OF inv kN] in \<open>simp_all add: sel A\<close>)
  moreover have "m_inv_data t"
    by (rule holder_data [OF inv off sel(6)]) (use own srv lap pc in \<open>simp_all add: sel A\<close>)
  moreover have "m_inv_mirror t"
    using I(6) word kN by (simp add: m_inv_mirror_def sel A) (auto simp: t_def nth_list_update)
  ultimately show ?thesis
    using A by (simp add: m_inv_def)
qed

lemma delivered_data:
  assumes inv: "m_inv s" and off: "off_slot k s t" and thr: "tpc t = (tpc s)(i := T_idle r)"
    and del: "delivery t = delivery s @ [(y, x)]" and own: "deq_ticket (tpc s i) = Some y" "y < dcount s" "x = claimed s ! y"
    and lap: "even (newest t k)"
  shows "m_inv_data t"
  unfolding m_inv_data_def
proof (intro conjI allI impI, goal_cases)
  case (1 m)
  then show ?case using m_dataD(1) [OF inv, of m] off_slotD [OF off] lap by (cases "m = k") auto
next
  case 2
  then show ?case using m_dataD(2) [OF inv] m_dataD(5) [OF inv own(1)] by (simp add: del)
next
  case 3
  have "e \<in> set (delivery s) \<Longrightarrow> fst e < dcount s \<and> snd e = claimed s ! fst e" for e
    using m_dataD(3,4) [OF inv, of "fst e" "snd e"] by simp
  then show ?case using own(2,3) off_slotD(2,3) [OF off] by (simp add: del split_beta)
next
  case (4 j z)
  then have j: "j \<noteq> i" "deq_ticket (tpc s j) = Some z"
    by (auto simp: thr split: if_splits)
  then have "z \<noteq> y"
    using m_ownerD(3) [OF inv own(1), of j] by auto
  then show ?case
    using m_dataD(5) [OF inv j(2)] by (simp add: del)
next
  case (5 z)
  show ?case
  proof (cases "z = y \<or> z \<in> fst ` set (delivery s)")
    case False
    then obtain j where "deq_ticket (tpc s j) = Some z"
      using m_dataD(6) [OF inv, of z] 5 off_slotD(3) [OF off] by auto
    then show ?thesis
      using False own(1) by (intro disjI2 exI [of _ j]) (auto simp: thr)
  qed (auto simp: del)
qed

lemma release_keeps:
  fixes s :: "'a mpmc_sys"
  assumes inv: "m_inv s" and hor: "horizon s" and pc: "tpc s i = D_release w x" and k: "k = slot_at s w"
    and u: "u = 2 * (w + vector_size (pq_slots (pqueue s)))"
  defines "t \<equiv> set_thread i (store_view (tview s i) (pmem s) (L_sequence k)) (T_idle (Popped (Some x)))
      (s\<lparr>pqueue := (pqueue s)\<lparr>pq_slots := (pq_slots (pqueue s))[k := (pq_slots (pqueue s) ! k)\<lparr>slot_sequence := u\<rparr>]\<rparr>,
         pmem := store_release (tview s i) (pmem s) (L_sequence k) u,
         delivery := delivery s @ [(unat w, x)]\<rparr>)"
  shows "m_inv t"
proof -
  note I = m_invD [OF inv]
  have kN: "k < nslots s" and k': "k = unat w mod nslots s"
    using slot_at_mod [OF inv hor, of w] k by simp_all
  have own: "unat w < dcount s" "newest s k = Suc (2 * (unat w div nslots s))" "pacc s k = Suc (newest s k)"
      "tview s i (L_value k) = Suc (newest s k)" "x = claimed s ! unat w"
    using m_ownerD(1) [OF inv, of i] pc k' by (simp_all add: Let_def)
  have srv: "serving s k = unat w"
    using serving_ticket [of s "unat w"] own(2) k' by simp
  have lap: "Suc (newest s k) = 2 * Suc (unat w div nslots s)"
    using own(2) by simp
  have srv': "k + (Suc (newest s k) div 2) * nslots s = unat w + nslots s"
    using ticket_split [of "unat w" "nslots s"] k' unfolding lap by simp
  have word: "u = of_nat (seqval (nslots s) k (Suc (newest s k)))"
  proof -
    have "seqval (nslots s) k (Suc (newest s k)) = 2 * (unat w + nslots s)"
      using srv' unfolding lap seqval_even by simp
    then show ?thesis by (simp add: u vector_size_def)
  qed
  have sel: "nslots t = nslots s" "claimed t = claimed s" "pacc t = pacc s" "pq_mask (pqueue t) = pq_mask (pqueue s)"
      "tview t = (tview s)(i := store_view (tview s i) (pmem s) (L_sequence k))" "tpc t = (tpc s)(i := T_idle (Popped (Some x)))"
      "delivery t = delivery s @ [(unat w, x)]"
    by (simp_all add: t_def)
  have "pmem t = store_release (tview s i) (pmem s) (L_sequence k) (of_nat (seqval (nslots s) k (Suc (newest s k))))"
    using word by (simp add: t_def)
  note A = sequence_append [OF inv kN own(4) this sel(1-5)]
  have off: "off_slot k s t"
    by (simp add: off_slot_def sel A) (simp add: t_def)
  have hold: "holds_ticket (tpc s i) (unat w)"
    by (simp add: pc holds_ticket_def)
  have "m_inv_slots t"
    using I(2) own(1) srv srv' lap m_slotD [OF inv kN] by (auto simp: m_inv_slots_def sel A)
  moreover have "m_inv_owner t"
    by (rule holder_owner [OF inv hold k' off sel(6)])
      (use own srv srv' lap m_slotD(1) [OF inv kN] in \<open>simp_all add: sel A\<close>)
  moreover have "m_inv_data t"
    by (rule delivered_data [OF inv off sel(6,7)]) (use pc own lap in \<open>simp_all add: A(1)\<close>)
  moreover have "m_inv_mirror t"
    using I(6) word kN by (simp add: m_inv_mirror_def sel A) (auto simp: t_def nth_list_update)
  ultimately show ?thesis
    using A by (simp add: m_inv_def)
qed

section \<open>Every step keeps the invariant\<close>

lemma close_keeps:
  fixes s :: "'a mpmc_sys"
  assumes inv: "m_inv s" and pc: "tpc s i = T_idle r"
  defines "t \<equiv> set_thread i (store_view (tview s i) (pmem s) L_closed_flag) (T_idle r)
      (s\<lparr>pqueue := (pqueue s)\<lparr>pq_closed := True\<rparr>, pmem := store_release (tview s i) (pmem s) L_closed_flag 1\<rparr>)"
  shows "m_inv t"
proof -
  note I = m_invD [OF inv]
  define u where "u = s\<lparr>pqueue := (pqueue s)\<lparr>pq_closed := True\<rparr>, pmem := store_release (tview s i) (pmem s) L_closed_flag 1\<rparr>"
  have sel: "newest u = newest s" "dcount u = dcount s" "pacc u = pacc s" "claimed u = claimed s" "delivery u = delivery s"
      "tpc u = tpc s" "tview u = tview s" "pq_slots (pqueue u) = pq_slots (pqueue s)"
    by (simp_all add: u_def newest_def dcount_def fun_eq_iff store_release_def)
  have b: "m_bounded u (store_view (tview s i) (pmem s) L_closed_flag)"
    using tview_bounded [OF inv, of i] by (auto simp: m_bounded_def u_def store_release_def store_view_def less_SucI)
  have b': "m_bounded u (tview u i)"
    using tview_bounded [OF inv, of i] by (auto simp: m_bounded_def u_def store_release_def less_SucI)
  have "mpc_ok u V qc = mpc_ok s V qc" for V qc
    by (cases "(s, V, qc)" rule: mpc_ok.cases) (simp_all add: Let_def sel)
  moreover have "m_inv_view u"
  proof (rule m_view_grow [OF I(3), where i = i])
    show "m \<in> set (pmem s l) \<or> m_bounded u (mview m)" if "m \<in> set (pmem u l)" for l m
      using that b by (auto simp: u_def store_release_def split: if_splits)
  qed (use b' in \<open>simp_all add: u_def store_release_def\<close>)
  moreover have "m_inv_mem u"
    using I(1) by (simp add: m_inv_mem_def sel) (simp add: u_def store_release_def mask_ok_def)
  moreover have "m_inv_mirror u"
    using I(6) by (simp add: m_inv_mirror_def sel) (simp add: u_def)
  ultimately have "m_inv u"
    using I(2,4,5) by (simp add: m_inv_def m_inv_slots_def m_inv_owner_def m_inv_data_def sel)
  from thread_moves [OF this b, of "T_idle r" i] show ?thesis
    using pc by (simp add: t_def u_def)
qed

lemma enqueue_pos_ok:
  assumes inv: "m_inv s" and hor: "horizon s" and j: "readable V (pmem s) L_enqueue j"
  shows "mpc_ok s W (E_seq b v (mval (pmem s L_enqueue ! j)))"
proof -
  have j': "j \<le> ecount s"
    using j m_memD(3) [OF inv] by (simp add: readable_def)
  then have "unat (of_nat j :: usize) = j"
    using hor by (intro unat_of_nat_usize) (simp add: horizon_def)
  then show ?thesis
    using m_memD(5) [OF inv j'] j' by simp
qed

lemma dequeue_pos_ok:
  assumes inv: "m_inv s" and hor: "horizon s" and j: "readable V (pmem s) L_dequeue j"
  shows "mpc_ok s W (D_seq a (mval (pmem s L_dequeue ! j)))"
proof -
  have j': "j \<le> dcount s"
    using j m_memD(4) [OF inv] by (simp add: readable_def)
  then have "unat (of_nat j :: usize) = j"
    using hor m_slotD(5) [OF inv m_memD(1) [OF inv]] by (intro unat_of_nat_usize) (simp add: horizon_def)
  then show ?thesis
    using m_memD(6) [OF inv j'] j' by simp
qed

lemma enqueue_turn_ok:
  assumes inv: "m_inv s" and hor: "horizon s" and pc: "tpc s i = E_seq b v w" and k: "k = slot_at s w"
    and j: "readable (tview s i) (pmem s) (L_sequence k) j"
  shows "mpc_ok s (load_acquire (tview s i) (pmem s) (L_sequence k) j)
    (by_dif (sequence_dif (mval (pmem s (L_sequence k) ! j)) (2 * w)) (E_cas b v w) (enqueue_failed b v) (E_pos b v))"
proof -
  have k': "k = unat w mod nslots s" and kN: "k < nslots s"
    using slot_at_mod [OF inv hor, of w] k by simp_all
  have w: "unat w \<le> ecount s"
    using m_ownerD(1) [OF inv, of i] pc by simp
  have jn: "j \<le> newest s k"
    using j m_memD(7) [OF inv kN] by (simp add: readable_def)
  have "j = 2 * (unat w div nslots s)" if "sequence_dif (mval (pmem s (L_sequence k) ! j)) (2 * w) = 0"
    using that dif_enqueue [OF inv hor w, of j] jn k'
    by (simp add: seqval_eq_iff [OF m_memD(1) [OF inv]] del: seqval_even)
  then show ?thesis
    using w jn k' m_memD(9) [OF inv kN jn]
    by (auto simp: by_dif_def enqueue_failed_def Let_def load_acquire_def view_join_def le_max_iff_disj)
qed

lemma dequeue_turn_ok:
  assumes inv: "m_inv s" and hor: "horizon s" and pc: "tpc s i = D_seq a w" and k: "k = slot_at s w"
    and j: "readable (tview s i) (pmem s) (L_sequence k) j"
  shows "mpc_ok s (load_acquire (tview s i) (pmem s) (L_sequence k) j)
    (by_dif (sequence_dif (mval (pmem s (L_sequence k) ! j)) (2 * w + 1)) (D_cas a w) (dequeue_failed a) (D_pos a))"
proof -
  have k': "k = unat w mod nslots s" and kN: "k < nslots s"
    using slot_at_mod [OF inv hor, of w] k by simp_all
  have w: "unat w \<le> dcount s"
    using m_ownerD(1) [OF inv, of i] pc by simp
  have jn: "j \<le> newest s k"
    using j m_memD(7) [OF inv kN] by (simp add: readable_def)
  have "j = Suc (2 * (unat w div nslots s))" if "sequence_dif (mval (pmem s (L_sequence k) ! j)) (2 * w + 1) = 0"
    using that dif_dequeue [OF inv hor w, of j] jn k'
    by (simp add: seqval_eq_iff [OF m_memD(1) [OF inv]] del: seqval_odd)
  then show ?thesis
    using w jn k' m_memD(9) [OF inv kN jn]
    by (auto simp: by_dif_def dequeue_failed_def Let_def load_acquire_def view_join_def le_max_iff_disj)
qed

lemma failed_tickets [simp]:
  "enq_ticket (enqueue_failed b v) = None" "deq_ticket (enqueue_failed b v) = None"
  "enq_ticket (dequeue_failed a) = None" "deq_ticket (dequeue_failed a) = None"
  by (simp_all add: enqueue_failed_def dequeue_failed_def)

lemma m_step_keeps:
  assumes "m_step i s t" and "m_inv s" and "horizon s"
  shows "m_inv t"
  using assms
proof (induction rule: m_step.induct)
  case (load_enqueue_pos s b v j)
  then show ?case by (intro thread_moves m_load_relaxed enqueue_pos_ok) (simp_all add: atomic_of_def)
next
  case (load_sequence s b v w k j)
  have "\<exists>k'<nslots s. L_sequence k = L_sequence k'"
    using slot_at_mod(2) [OF load_sequence(4,5), of w] load_sequence(2) by blast
  then have "m_bounded s (load_acquire (tview s i) (pmem s) (L_sequence k) j)"
    using load_sequence(3,4) by (intro m_load_acquire) simp_all
  from thread_moves [OF load_sequence(4) this enqueue_turn_ok [OF load_sequence(4,5,1,2,3)]] show ?case
    using load_sequence(1) by (simp add: by_dif_def)
next
  case (lose_ticket s b v w j)
  then show ?case by (intro thread_moves m_load_relaxed enqueue_pos_ok) (simp_all add: atomic_of_def)
next
  case (win_ticket s b v w)
  show ?case using win_ticket_keeps [OF win_ticket(3,4,1,2)] by (simp only: ticket_won_def)
next
  case (write_value s v w k)
  show ?case by (rule write_value_keeps [OF write_value(3,4,1,2)])
next
  case (publish s v w k)
  show ?case by (rule publish_keeps [OF publish(3,4,1,2)])
next
  case (load_dequeue_pos s a j)
  then show ?case by (intro thread_moves m_load_relaxed dequeue_pos_ok) (simp_all add: atomic_of_def)
next
  case (load_data_sequence s a w k j)
  have "\<exists>k'<nslots s. L_sequence k = L_sequence k'"
    using slot_at_mod(2) [OF load_data_sequence(4,5), of w] load_data_sequence(2) by blast
  then have "m_bounded s (load_acquire (tview s i) (pmem s) (L_sequence k) j)"
    using load_data_sequence(3,4) by (intro m_load_acquire) simp_all
  from thread_moves [OF load_data_sequence(4) this dequeue_turn_ok [OF load_data_sequence(4,5,1,2,3)]] show ?case
    using load_data_sequence(1) by (simp add: by_dif_def)
next
  case (lose_data s a w j)
  then show ?case by (intro thread_moves m_load_relaxed dequeue_pos_ok) (simp_all add: atomic_of_def)
next
  case (win_data s a w)
  show ?case using win_data_keeps [OF win_data(3,4,1,2)] by (simp only: data_won_def)
next
  case (read_value s w k junk)
  show ?case by (rule read_value_keeps [OF read_value(3,4,1,2)])
next
  case (release s w x k u)
  show ?case by (rule release_keeps [OF release(4,5,1,2,3)])
next
  case (close s r)
  show ?case by (rule close_keeps [OF close(2,1)])
next
  case (load_closed s b v j)
  then show ?case by (intro thread_moves m_load_relaxed) (auto simp: atomic_of_def)
next
  case (pop_load_closed s j)
  then show ?case by (intro thread_moves m_load_acquire) auto
next
  case (observe_closed s r j)
  then show ?case by (intro thread_moves m_load_acquire) auto
next
  case (observe_position s r l j)
  then show ?case by (intro thread_moves m_load_relaxed) (auto simp: atomic_of_def)
next
  case (synchronize s r j r')
  then show ?case using tview_bounded by (intro thread_moves m_bounded_join) auto
next
  case (call_push s r blocking v)
  then show ?case by (intro thread_moves tview_bounded) simp_all
next
  case (call_pop s r a)
  then show ?case by (intro thread_moves tview_bounded) simp_all
qed

text \<open>Tickets are never given back, so a run that ends within the horizon was always within it.\<close>

lemma horizon_before: "m_step i s t \<Longrightarrow> horizon t \<Longrightarrow> horizon s"
  by (induction rule: m_step.induct) (simp_all add: horizon_def)

lemma mpmc_start_inv:
  assumes "mpmc_inv 0 0 q"
  shows "m_inv (mpmc_start q)"
proof -
  let ?s = "mpmc_start q"
  have q: "0 < length (pq_slots q)" "mask_ok q" "pq_enqueue_pos q = 0" "pq_dequeue_pos q = 0"
    using assms by (simp_all add: mpmc_inv_def Let_def)
  have seq: "slot_sequence (pq_slots q ! k) = of_nat (2 * k)" if "k < length (pq_slots q)" for k
    using assms that by (fastforce simp: mpmc_inv_def Let_def)
  have sel: "newest ?s = (\<lambda>_. 0)" "dcount ?s = 0" "pqueue ?s = q" "claimed ?s = []" "delivery ?s = []"
      "pacc ?s = (\<lambda>_. 0)" "tview ?s = (\<lambda>_ _. 0)" "tpc ?s = (\<lambda>_. T_idle Nothing_yet)"
    by (simp_all add: mpmc_start_def newest_def dcount_def fun_eq_iff)
  have bounded: "m_bounded ?s (\<lambda>_. 0)"
    by (simp add: m_bounded_def mpmc_start_def)
  have "m_inv_mem ?s"
    using q seq by (simp add: m_inv_mem_def sel) (simp add: mpmc_start_def seqval_def)
  moreover have "m_inv_slots ?s" "m_inv_owner ?s" "m_inv_data ?s"
    by (simp_all add: m_inv_slots_def m_inv_owner_def m_inv_data_def sel)
  moreover have "m_inv_view ?s"
    using bounded by (simp add: m_inv_view_def sel) (simp add: mpmc_start_def)
  moreover have "m_inv_mirror ?s"
    using q seq by (simp add: m_inv_mirror_def sel seqval_def)
  ultimately show ?thesis
    by (simp add: m_inv_def)
qed

theorem mpmc_reachable_inv: "mpmc_reachable s \<Longrightarrow> horizon s \<Longrightarrow> m_inv s"
proof (induction rule: mpmc_reachable.induct)
  case (start sz dflt capacity q)
  then show ?case
    by (intro mpmc_start_inv mpmc_new_inv(1))
next
  case (step s i t)
  then show ?case
    using horizon_before m_step_keeps by blast
qed

end
