(* ===== verification/Mpmc_Quiescence.thy ===== *)
theory Mpmc_Quiescence
  imports Mpmc_Invariant "HOL-Library.Multiset"
begin

text \<open>
  What the invariant of the many-thread \<open>MpmcQueue\<close> gives: slot accesses do not race, every
  ticket is delivered once and in order, at rest the ring is the FIFO of the values not yet
  delivered, and a failed attempt is explained by what the thread can have seen.
\<close>

section \<open>Consequences of the invariant\<close>

lemma residue_unique:
  fixes a b n :: nat
  assumes "a mod n = b mod n" and "a \<le> b" and "b < a + n"
  shows "a = b"
proof -
  have "n dvd b - a"
    using assms(1,2) by (metis mod_eq_dvd_iff_nat)
  then show ?thesis
    using assms(2,3) nat_dvd_not_less [of "b - a" n] by (cases "a = b") auto
qed

lemma serving_mod: "k < nslots s \<Longrightarrow> serving s k mod nslots s = k"
  by simp

text \<open>At most \<open>N\<close> tickets separate producers from consumers.\<close>

lemma ticket_window:
  assumes inv: "m_inv s"
  shows "ecount s \<le> dcount s + nslots s"
proof (cases "ecount s")
  case (Suc e)
  let ?N = "nslots s"
  let ?k = "e mod ?N"
  have k: "?k < ?N"
    using m_memD(1) [OF inv] by simp
  note S = m_slotD [OF inv k] and r = serving_mod [OF k]
  have "e \<le> serving s ?k"
  proof (rule ccontr)
    assume "\<not> e \<le> serving s ?k"
    then show False
      using residue_unique [of "serving s ?k" ?N e] r S(1) Suc by simp
  qed
  then show ?thesis
    using S(4) Suc by (cases "?N \<le> serving s ?k") auto
qed simp

lemma idle_no_ticket: "(\<And>i. \<exists>r. tpc s i = T_idle r) \<Longrightarrow>
    enq_ticket (tpc s j) = None \<and> deq_ticket (tpc s j) = None \<and> touched (tpc s j) = None"
  by (metis deq_ticket.simps(3) enq_ticket.simps(3) touched.simps(3))

text \<open>With no call under way every slot says where its ticket stands.\<close>

lemma rest_slots:
  assumes inv: "m_inv s" and idle: "\<And>i. \<exists>r. tpc s i = T_idle r" and "k < nslots s"
  shows "odd (newest s k) \<Longrightarrow> dcount s \<le> serving s k \<and> serving s k < ecount s"
    and "even (newest s k) \<Longrightarrow> ecount s \<le> serving s k \<and> serving s k < dcount s + nslots s"
    and "pacc s k = newest s k"
proof -
  note S = m_slotD [OF inv assms(3)] and O = m_ownerD(4,5,6) [OF inv assms(3)]
  show "dcount s \<le> serving s k \<and> serving s k < ecount s" if "odd (newest s k)"
    using O(3) S(3) that idle_no_ticket [OF idle] by (cases "serving s k < dcount s") auto
  show "pacc s k = newest s k"
    using O(1) idle_no_ticket [OF idle] by (metis option.distinct(1))
  show "ecount s \<le> serving s k \<and> serving s k < dcount s + nslots s" if "even (newest s k)"
  proof
    show "ecount s \<le> serving s k"
      using O(2) that idle_no_ticket [OF idle] by (cases "serving s k < ecount s") auto
    show "serving s k < dcount s + nslots s"
      using S(4) by (cases "nslots s \<le> serving s k") auto
  qed
qed

lemma rest_ticket:
  assumes inv: "m_inv s" and idle: "\<And>i. \<exists>r. tpc s i = T_idle r" and t: "dcount s \<le> t" "t < dcount s + nslots s"
  shows "serving s (t mod nslots s) = t" and "odd (newest s (t mod nslots s)) \<longleftrightarrow> t < ecount s"
proof -
  let ?N = "nslots s"
  let ?k = "t mod ?N"
  have k: "?k < ?N"
    using m_memD(1) [OF inv] by simp
  note R = rest_slots [OF inv idle k] and r = serving_mod [OF k]
  have "dcount s \<le> serving s ?k \<and> serving s ?k < dcount s + ?N"
    using R(1,2) ticket_window [OF inv] m_slotD(5) [OF inv k] by (cases "even (newest s ?k)") auto
  then show srv: "serving s ?k = t"
    using residue_unique [of t ?N "serving s ?k"] residue_unique [of "serving s ?k" ?N t] r t by force
  show "odd (newest s ?k) \<longleftrightarrow> t < ecount s"
    using R(1,2) unfolding srv by auto
qed

lemma rest_sequence:
  assumes inv: "m_inv s" and idle: "\<And>i. \<exists>r. tpc s i = T_idle r" and t: "dcount s \<le> t" "t < dcount s + nslots s"
  shows "slot_sequence (pq_slots (pqueue s) ! (t mod nslots s)) = of_nat (if t < ecount s then 2 * t + 1 else 2 * t)"
proof -
  let ?k = "t mod nslots s"
  have "?k < nslots s"
    using m_memD(1) [OF inv] by simp
  then have "slot_sequence (pq_slots (pqueue s) ! ?k) = of_nat (seqval (nslots s) ?k (newest s ?k))"
    using m_invD(6) [OF inv] by (simp add: m_inv_mirror_def)
  moreover have "seqval (nslots s) ?k (newest s ?k) = 2 * t + newest s ?k mod 2"
    using rest_ticket(1) [OF inv idle t] by (simp only: seqval_def)
  ultimately show ?thesis
    using rest_ticket(2) [OF inv idle t] by (cases "t < ecount s") (auto simp: odd_iff_mod_2_eq_one)
qed

lemma rest_inv:
  assumes inv: "m_inv s" and hor: "horizon s" and idle: "\<And>i. \<exists>r. tpc s i = T_idle r"
  shows "mpmc_inv (ecount s) (dcount s) (pqueue s)"
proof -
  have N: "nslots s < 2 ^ 62"
    using hor by (simp add: horizon_def)
  have "slot_sequence (pq_slots (pqueue s) ! (t mod nslots s)) = of_nat (2 * t + 1)" if "dcount s \<le> t" "t < ecount s" for t
    using rest_sequence [OF inv idle that(1)] that(2) ticket_window [OF inv] by simp
  moreover have "slot_sequence (pq_slots (pqueue s) ! (t mod nslots s)) = of_nat (2 * t)"
      if "ecount s \<le> t" "t < dcount s + nslots s" for t
    using rest_sequence [OF inv idle _ that(2)] that(1) m_slotD(5) [OF inv m_memD(1) [OF inv]] by simp
  ultimately show ?thesis
    using m_memD(1,2) [OF inv] m_invD(6) [OF inv] ticket_window [OF inv] m_slotD(5) [OF inv m_memD(1) [OF inv]] N
    unfolding mpmc_inv_def m_inv_mirror_def Let_def by blast
qed

lemma rest_items:
  assumes inv: "m_inv s" and hor: "horizon s" and idle: "\<And>i. \<exists>r. tpc s i = T_idle r"
  shows "items (mpmc_view (pqueue s)) = drop (dcount s) (claimed s)"
proof (rule nth_equalityI)
  let ?D = "dcount s"
  have len: "mpmc_len (pqueue s) = ecount s - ?D"
    by (rule mpmc_inv_len [OF rest_inv [OF inv hor idle]])
  have D: "unat (pq_dequeue_pos (pqueue s)) = ?D"
    using m_invD(6) [OF inv] unat_dcount [OF inv hor] by (simp add: m_inv_mirror_def)
  show "length (items (mpmc_view (pqueue s))) = length (drop ?D (claimed s))"
    by (simp add: len)
  fix i
  assume "i < length (items (mpmc_view (pqueue s)))"
  then have i: "i < ecount s - ?D"
    by (simp add: len)
  let ?t = "?D + i"
  let ?k = "?t mod nslots s"
  have t: "?D \<le> ?t" "?t < ?D + nslots s" "?t < ecount s"
    using i ticket_window [OF inv] by simp_all
  have k: "?k < nslots s"
    using m_memD(1) [OF inv] by simp
  have "slot_value (pq_slots (pqueue s) ! ?k) = claimed s ! ?t"
    using m_dataD(1) [OF inv k] rest_slots(3) [OF inv idle k] rest_ticket [OF inv idle t(1,2)] t(3) by simp
  then show "items (mpmc_view (pqueue s)) ! i = drop ?D (claimed s) ! i"
    using i k len D t(3) by (simp add: ring_items_def)
qed


lemma deliveries_mset:
  assumes "distinct (map fst ds)" and "fst ` set ds = {..<n}" and "\<And>t x. (t, x) \<in> set ds \<Longrightarrow> x = xs ! t" and "n \<le> length xs"
  shows "mset (map snd ds) = mset (take n xs)"
proof -
  have "map snd ds = map (\<lambda>t. xs ! t) (map fst ds)"
    using assms(3) by auto
  moreover have "mset (map fst ds) = mset [0..<n]"
    using assms(1,2) by (intro set_eq_iff_mset_eq_distinct [THEN iffD1]) (auto simp: atLeast0LessThan)
  ultimately have "mset (map snd ds) = mset (map (\<lambda>t. xs ! t) [0..<n])"
    by (metis mset_map)
  moreover have "map (\<lambda>t. xs ! t) [0..<n] = take n xs"
    using assms(4) by (intro nth_equalityI) simp_all
  ultimately show ?thesis
    by simp
qed

lemma rest_delivered:
  assumes inv: "m_inv s" and idle: "\<And>i. \<exists>r. tpc s i = T_idle r"
  shows "mset (map snd (delivery s)) = mset (take (dcount s) (claimed s))"
proof (rule deliveries_mset)
  show "distinct (map fst (delivery s))"
    by (rule m_dataD(2) [OF inv])
  show "fst ` set (delivery s) = {..<dcount s}"
    using m_dataD(3,6) [OF inv] idle_no_ticket [OF idle] by (force simp: image_iff)
  show "x = claimed s ! t" if "(t, x) \<in> set (delivery s)" for t x
    by (rule m_dataD(4) [OF inv that])
  show "dcount s \<le> ecount s"
    by (rule m_slotD(5) [OF inv m_memD(1) [OF inv]])
qed

section \<open>What a failed attempt has seen\<close>

text \<open>
  A view that contains the publication (release) of every ticket below \<open>n\<close>: what a thread
  knows once all those pushes (pops) happen before it.
\<close>

definition published_upto :: "'a mpmc_sys \<Rightarrow> mpmc_loc view \<Rightarrow> nat \<Rightarrow> bool" where
  "published_upto s V n \<longleftrightarrow> (\<forall>t<n. 2 * (t div nslots s) + 1 \<le> V (L_sequence (t mod nslots s)))"

definition released_upto :: "'a mpmc_sys \<Rightarrow> mpmc_loc view \<Rightarrow> nat \<Rightarrow> bool" where
  "released_upto s V n \<longleftrightarrow> (\<forall>t<n. 2 * (t div nslots s) + 2 \<le> V (L_sequence (t mod nslots s)))"

lemma failed_dequeue_sees_nothing:
  assumes inv: "m_inv s" and hor: "horizon s" and pc: "tpc s i = D_seq a w"
    and "m_step i s t" and fail: "tpc t i = dequeue_failed a" and known: "published_upto s (tview s i) n"
  shows "n \<le> dcount s"
  using assms(4)
proof (cases rule: m_step.cases)
  case (load_data_sequence a' w' k j)
  have [simp]: "a' = a" "w' = w"
    using load_data_sequence(2) pc by simp_all
  have k: "k = unat w mod nslots s" and kN: "k < nslots s"
    using slot_at_mod [OF inv hor, of w] load_data_sequence(3) by simp_all
  have w: "unat w \<le> dcount s"
    using m_ownerD(1) [OF inv, of i] pc by simp
  have j: "tview s i (L_sequence k) \<le> j" "j \<le> newest s k"
    using load_data_sequence(4) m_memD(7) [OF inv kN] by (simp_all add: readable_def)
  have "sequence_dif (mval (pmem s (L_sequence k) ! j)) (2 * w + 1) < 0"
    using fail load_data_sequence(1) by (auto simp: by_dif_def dequeue_failed_def split: if_splits)
  then have late: "j < Suc (2 * (unat w div nslots s))"
    using dif_dequeue [OF inv hor w, of j] j(2) k
    by (simp add: seqval_less_iff [OF m_memD(1) [OF inv]] del: seqval_odd)
  show ?thesis
  proof (rule ccontr)
    assume "\<not> n \<le> dcount s"
    then have "2 * (unat w div nslots s) + 1 \<le> tview s i (L_sequence k)"
      using known w k by (simp add: published_upto_def)
    then show False
      using late j(1) by simp
  qed
qed (use pc in simp_all)

lemma failed_enqueue_sees_full:
  assumes inv: "m_inv s" and hor: "horizon s" and pc: "tpc s i = E_seq b v w"
    and "m_step i s t" and fail: "tpc t i = enqueue_failed b v" and known: "released_upto s (tview s i) d"
  shows "d + nslots s \<le> ecount s"
  using assms(4)
proof (cases rule: m_step.cases)
  case (load_sequence b' v' w' k j)
  have [simp]: "b' = b" "v' = v" "w' = w"
    using load_sequence(2) pc by simp_all
  let ?N = "nslots s"
  have k: "k = unat w mod ?N" and kN: "k < ?N"
    using slot_at_mod [OF inv hor, of w] load_sequence(3) by simp_all
  have w: "unat w \<le> ecount s"
    using m_ownerD(1) [OF inv, of i] pc by simp
  have j: "tview s i (L_sequence k) \<le> j" "j \<le> newest s k"
    using load_sequence(4) m_memD(7) [OF inv kN] by (simp_all add: readable_def)
  have "sequence_dif (mval (pmem s (L_sequence k) ! j)) (2 * w) < 0"
    using fail load_sequence(1) by (auto simp: by_dif_def enqueue_failed_def split: if_splits)
  then have late: "j < 2 * (unat w div ?N)"
    using dif_enqueue [OF inv hor w, of j] j(2) k
    by (simp add: seqval_less_iff [OF m_memD(1) [OF inv]] del: seqval_even)
  show ?thesis
  proof (rule ccontr)
    assume "\<not> d + ?N \<le> ecount s"
    moreover have "?N \<le> unat w"
      using late by (cases "unat w < ?N") simp_all
    ultimately have "unat w - ?N < d" "(unat w - ?N) mod ?N = k" "(unat w - ?N) div ?N = unat w div ?N - 1"
      using w k le_div_geq [OF m_memD(1) [OF inv], of "unat w"] by (simp_all add: le_mod_geq)
    then have "2 * (unat w div ?N - 1) + 2 \<le> tview s i (L_sequence k)"
      using known by (auto simp: released_upto_def)
    then show False
      using late j(1) by simp
  qed
qed (use pc in simp_all)

section \<open>The final attempt after a close\<close>

fun final_attempt :: "'a mpmc_pc \<Rightarrow> bool" where
  "final_attempt (D_pos a) \<longleftrightarrow> a = Pop_last"
| "final_attempt (D_seq a w) \<longleftrightarrow> a = Pop_last"
| "final_attempt (D_cas a w) \<longleftrightarrow> a = Pop_last"
| "final_attempt pc \<longleftrightarrow> False"

text \<open>A view contains a close: it includes all that the closing thread knew.\<close>

definition knows_close :: "'a mpmc_sys \<Rightarrow> mpmc_loc view \<Rightarrow> bool" where
  "knows_close s V \<longleftrightarrow> (\<exists>m \<in> set (pmem s L_closed_flag). mval m \<noteq> 0 \<and> (\<forall>l. mview m l \<le> V l))"

definition inv_final :: "'a mpmc_sys \<Rightarrow> bool" where
  "inv_final s \<longleftrightarrow>
     (\<forall>i. final_attempt (tpc s i) \<longrightarrow> knows_close s (tview s i)) \<and>
     (\<forall>m \<in> set (pmem s L_closed_flag). mval m \<noteq> 0 \<longrightarrow> pq_closed (pqueue s))"

lemma knows_close_mono: "knows_close s V \<Longrightarrow> (\<And>l. V l \<le> W l) \<Longrightarrow> knows_close s W"
  unfolding knows_close_def by (meson order_trans)

lemma knows_close_memory:
  "knows_close s V \<Longrightarrow> set (pmem s L_closed_flag) \<subseteq> set (pmem t L_closed_flag) \<Longrightarrow> knows_close t V"
  unfolding knows_close_def by blast

lemma knows_close_acquire:
  "readable V (pmem s) L_closed_flag j \<Longrightarrow> mval (pmem s L_closed_flag ! j) \<noteq> 0 \<Longrightarrow>
     knows_close s (load_acquire V (pmem s) L_closed_flag j)"
  by (auto simp: knows_close_def load_acquire_def readable_def)

text \<open>One thread moves, the closed flag's history at most grows.\<close>

lemma inv_final_moves:
  assumes inv: "inv_final s" and thr: "tpc t = (tpc s)(i := pc)" "tview t = (tview s)(i := W)"
    and mem: "set (pmem s L_closed_flag) \<subseteq> set (pmem t L_closed_flag)"
    and new: "final_attempt pc \<Longrightarrow> knows_close t W"
    and flag: "\<And>m. m \<in> set (pmem t L_closed_flag) \<Longrightarrow> mval m \<noteq> 0 \<Longrightarrow> pq_closed (pqueue t)"
  shows "inv_final t"
  using inv new flag knows_close_memory [OF _ mem] unfolding inv_final_def thr by simp

lemma inv_final_stays:
  assumes inv: "inv_final s" and thr: "tpc t = (tpc s)(i := pc)" "tview t = (tview s)(i := W)"
    and same: "pmem t L_closed_flag = pmem s L_closed_flag" "pq_closed (pqueue t) = pq_closed (pqueue s)"
    and new: "final_attempt pc \<Longrightarrow> knows_close s W"
  shows "inv_final t"
proof (rule inv_final_moves [OF inv thr])
  show "final_attempt pc \<Longrightarrow> knows_close t W"
    using new same(1) by (simp add: knows_close_def)
qed (use inv same in \<open>auto simp: inv_final_def\<close>)

lemma inv_final_now: "inv_final s \<Longrightarrow> final_attempt (tpc s i) \<Longrightarrow> knows_close s (tview s i)"
  by (simp add: inv_final_def)

lemma m_step_final: "m_step i s t \<Longrightarrow> inv_final s \<Longrightarrow> inv_final t"
proof (induction rule: m_step.induct)
  case (load_dequeue_pos s a j)
  have "final_attempt (D_seq a w) \<Longrightarrow> knows_close s (load_relaxed (tview s i) L_dequeue j)" for w
    using inv_final_now [OF load_dequeue_pos(3), of i] load_dequeue_pos(1) load_relaxed_mono [OF load_dequeue_pos(2)]
    by (auto intro: knows_close_mono)
  then show ?case
    by (intro inv_final_stays [OF load_dequeue_pos(3)]) (simp_all del: final_attempt.simps)
next
  case (lose_data s a w j)
  have "final_attempt (D_seq a u) \<Longrightarrow> knows_close s (load_relaxed (tview s i) L_dequeue j)" for u
    using inv_final_now [OF lose_data(3), of i] lose_data(1) load_relaxed_mono [OF lose_data(2)]
    by (auto intro: knows_close_mono)
  then show ?case
    by (intro inv_final_stays [OF lose_data(3)]) (simp_all del: final_attempt.simps)
next
  case (load_data_sequence s a w k j)
  have "a = Pop_last \<Longrightarrow> knows_close s (load_acquire (tview s i) (pmem s) (L_sequence k) j)"
    using inv_final_now [OF load_data_sequence(4), of i] load_data_sequence(1) load_acquire_mono [OF load_data_sequence(3)]
    by (auto intro: knows_close_mono)
  then show ?case
    by (intro inv_final_stays [OF load_data_sequence(4)])
      (auto simp: by_dif_def dequeue_failed_def split: if_splits)
next
  case (pop_load_closed s j)
  then show ?case
    by (intro inv_final_stays [OF pop_load_closed(3)]) (auto intro: knows_close_acquire split: if_splits)
next
  case (load_sequence s b v w k j)
  then show ?case
    by (intro inv_final_stays [OF load_sequence(4)])
      (auto simp: by_dif_def enqueue_failed_def split: if_splits)
next
  case (close s r)
  then show ?case
    by (intro inv_final_moves [OF close(2)]) auto
next
  case (call_pop s r a)
  then show ?case
    by (intro inv_final_stays [OF call_pop(3)]) auto
qed (rule inv_final_stays, assumption, auto simp: rmw_relaxed_def store_release_def)+

lemma mpmc_reachable_final: "mpmc_reachable s \<Longrightarrow> inv_final s"
proof (induction rule: mpmc_reachable.induct)
  case (start sz dflt capacity q)
  then show ?case
    by (auto simp: inv_final_def mpmc_start_def)
next
  case (step s i t)
  then show ?case
    using m_step_final by blast
qed

text \<open>
  A pop gives up after a close: what the closing thread knew to be pushed has been claimed.
\<close>

lemma final_attempt_drained:
  assumes inv: "m_inv s" "inv_final s" and hor: "horizon s" and pc: "tpc s i = D_seq Pop_last w"
    and "m_step i s t" "tpc t i = T_idle (Popped None)"
    and close: "\<And>m. m \<in> set (pmem s L_closed_flag) \<Longrightarrow> mval m \<noteq> 0 \<Longrightarrow> published_upto s (mview m) n"
  shows "n \<le> dcount s" and "pq_closed (pqueue s)"
proof -
  obtain m where m: "m \<in> set (pmem s L_closed_flag)" "mval m \<noteq> 0" "\<And>l. mview m l \<le> tview s i l"
    using inv_final_now [OF inv(2), of i] pc by (auto simp: knows_close_def)
  have "published_upto s (tview s i) n"
    using close [OF m(1,2)] m(3) unfolding published_upto_def by (meson order_trans)
  then show "n \<le> dcount s"
    using failed_dequeue_sees_nothing [OF inv(1) hor pc assms(5)] assms(6) by (simp add: dequeue_failed_def)
  show "pq_closed (pqueue s)"
    using inv(2) m(1,2) by (auto simp: inv_final_def)
qed

end
