(* ===== verification/Mpmc_Properties.thy ===== *)
theory Mpmc_Properties
  imports Mpmc_Quiescence
begin

text \<open>
  What holds of \<open>MpmcQueue\<close> under every interleaving of any number of threads: no data race
  on a slot, one owner per ticket, nothing lost or duplicated, agreement with the sequential
  model at rest, and what a failed attempt means.
\<close>

section \<open>A sample run\<close>

text \<open>
  Thread 0 pushes 5 into a queue of capacity 1, its next attempt finds the ring full; thread 1
  pops the item; thread 0 closes and the next \<^verbatim>\<open>pop\<close> of thread 1 gives up.
\<close>

definition mpmc_fresh :: "int mpmc_queue" where
  "mpmc_fresh = \<lparr>pq_slots = [\<lparr>slot_sequence = 0, slot_value = 0\<rparr>], pq_mask = 0, pq_enqueue_pos = 0, pq_dequeue_pos = 0,
     pq_closed = False\<rparr>"

lemma mpmc_new_fresh: "mpmc_new 16 (0::int) 1 = Inr mpmc_fresh"
  by (simp add: mpmc_new_def make_slots_def vector_new_def vector_max_size_def replicate_small init_sequences_def
      upt_small mpmc_fresh_def)

abbreviation no_view :: "mpmc_loc view" where
  "no_view \<equiv> (\<lambda>_. 0)"

abbreviation msg0 :: "mpmc_loc message" where
  "msg0 \<equiv> \<lparr>mval = 0, mview = no_view\<rparr>"

abbreviation pushed_view :: "mpmc_loc view" where
  "pushed_view \<equiv> no_view(L_enqueue := 1, L_value 0 := 1, L_sequence 0 := 1)"

definition mem0 :: "mpmc_loc atomics" where
  "mem0 = pmem (mpmc_start mpmc_fresh)"

lemma mem0_sel [simp]:
  "mem0 L_enqueue = [msg0]" "mem0 L_dequeue = [msg0]" "mem0 L_closed_flag = [msg0]" "mem0 (L_sequence 0) = [msg0]"
  by (simp_all add: mem0_def mpmc_start_def mpmc_fresh_def)

abbreviation snapshot :: "int mpmc_queue \<Rightarrow> mpmc_loc atomics \<Rightarrow> nat \<Rightarrow> mpmc_loc view \<Rightarrow> mpmc_loc view \<Rightarrow>
    int mpmc_pc \<Rightarrow> int mpmc_pc \<Rightarrow> int list \<Rightarrow> (nat \<times> int) list \<Rightarrow> int mpmc_sys" where
  "snapshot q m n V0 V1 pc0 pc1 xs ds \<equiv>
     \<lparr>pqueue = q, pmem = m, pacc = (\<lambda>_. 0)(0 := n), tview = (\<lambda>_. no_view)(0 := V0, 1 := V1),
      tpc = (\<lambda>_. T_idle Nothing_yet)(0 := pc0, 1 := pc1), claimed = xs, delivery = ds\<rparr>"

lemma mpmc_start_snapshot:
  "mpmc_start mpmc_fresh = snapshot mpmc_fresh mem0 0 no_view no_view (T_idle Nothing_yet) (T_idle Nothing_yet) [] []"
  by (simp add: mem0_def mpmc_start_def fun_eq_iff)

text \<open>A step of the run: the rule applied, and the state it gives.\<close>

lemma run_step: "mpmc_reachable s \<Longrightarrow> m_step i s t \<Longrightarrow> t = u \<Longrightarrow> mpmc_reachable u"
  using mpmc_reachable.step by blast

lemmas run_defs = readable_def load_relaxed_def load_acquire_def view_join_def fun_eq_iff slot_at_def slot_index_def
  mpmc_fresh_def vector_size_def by_dif_def sequence_dif_def rmw_relaxed_def store_view_def store_release_def
  access_view_def enqueue_failed_def dequeue_failed_def

definition mpmc_writing :: "int mpmc_sys" where
  "mpmc_writing = snapshot (mpmc_fresh\<lparr>pq_enqueue_pos := 1\<rparr>) (mem0(L_enqueue := [msg0, \<lparr>mval = 1, mview = no_view\<rparr>]))
     0 (no_view(L_enqueue := 1)) no_view (E_write 5 0) (T_idle Nothing_yet) [5] []"

lemma mpmc_writing_reachable: "mpmc_reachable mpmc_writing"
proof -
  let ?s = "\<lambda>pc. snapshot mpmc_fresh mem0 0 no_view no_view pc (T_idle Nothing_yet) [] []"
  have "mpmc_reachable (mpmc_start mpmc_fresh)"
    by (rule mpmc_reachable.start [OF mpmc_new_fresh]) simp
  then have "mpmc_reachable (?s (E_closed False 5))"
    unfolding mpmc_start_snapshot by (rule run_step [OF _ call_push [of _ 0 Nothing_yet False 5]]) (simp_all add: run_defs)
  then have "mpmc_reachable (?s (E_pos False 5))"
    by (rule run_step [OF _ load_closed [of _ 0 False 5 0]]) (simp_all add: run_defs)
  then have "mpmc_reachable (?s (E_seq False 5 0))"
    by (rule run_step [OF _ load_enqueue_pos [of _ 0 False 5 0]]) (simp_all add: run_defs)
  then have "mpmc_reachable (?s (E_cas False 5 0))"
    by (rule run_step [OF _ load_sequence [of _ 0 False 5 0 0 0]]) (simp_all add: run_defs)
  then show ?thesis
    by (rule run_step [OF _ win_ticket [of _ 0 False 5 0]]) (simp_all add: run_defs mpmc_writing_def)
qed

text \<open>The item is in; the producer is about to look at the slot for its next item, thread 1 holds the item's ticket.\<close>

definition mpmc_full_try :: "int mpmc_sys" where
  "mpmc_full_try =
     snapshot (mpmc_fresh\<lparr>pq_enqueue_pos := 1, pq_slots := [\<lparr>slot_sequence = 1, slot_value = 5\<rparr>]\<rparr>)
      (mem0(L_enqueue := [msg0, \<lparr>mval = 1, mview = no_view\<rparr>], L_sequence 0 := [msg0, \<lparr>mval = 1, mview = pushed_view\<rparr>]))
      1 pushed_view no_view (E_seq False 6 1) (T_idle Nothing_yet) [5] []"

definition mpmc_full_refused :: "int mpmc_sys" where
  "mpmc_full_refused = mpmc_full_try\<lparr>tpc := (tpc mpmc_full_try)(0 := T_idle (Pushed False))\<rparr>"

lemma mpmc_full_try_reachable: "mpmc_reachable mpmc_full_try"
proof -
  let ?m = "mem0(L_enqueue := [msg0, \<lparr>mval = 1, mview = no_view\<rparr>])"
  let ?s = "\<lambda>pc. snapshot (mpmc_fresh\<lparr>pq_enqueue_pos := 1, pq_slots := [\<lparr>slot_sequence = 1, slot_value = 5\<rparr>]\<rparr>)
      (?m(L_sequence 0 := [msg0, \<lparr>mval = 1, mview = pushed_view\<rparr>])) 1 pushed_view no_view pc (T_idle Nothing_yet) [5] []"
  from mpmc_writing_reachable have "mpmc_reachable (snapshot
      (mpmc_fresh\<lparr>pq_enqueue_pos := 1, pq_slots := [\<lparr>slot_sequence = 0, slot_value = 5\<rparr>]\<rparr>)
      ?m 1 (no_view(L_enqueue := 1, L_value 0 := 1)) no_view (E_publish 5 0) (T_idle Nothing_yet) [5] [])"
    by (rule run_step [OF _ write_value [of _ 0 5 0 0]]) (simp_all add: run_defs mpmc_writing_def)
  then have "mpmc_reachable (?s (T_idle (Pushed True)))"
    by (rule run_step [OF _ publish [of _ 0 5 0 0]]) (simp_all add: run_defs)
  then have "mpmc_reachable (?s (E_closed False 6))"
    by (rule run_step [OF _ call_push [of _ 0 "Pushed True" False 6]]) (simp_all add: run_defs)
  then have "mpmc_reachable (?s (E_pos False 6))"
    by (rule run_step [OF _ load_closed [of _ 0 False 6 0]]) (simp_all add: run_defs)
  then show ?thesis
    by (rule run_step [OF _ load_enqueue_pos [of _ 0 False 6 1]]) (auto simp add: run_defs mpmc_full_try_def)
qed

lemma mpmc_full_step: "m_step 0 mpmc_full_try mpmc_full_refused"
  by (rule back_subst [of "m_step 0 mpmc_full_try", OF load_sequence [of _ 0 False 6 1 0 1]])
    (auto simp: run_defs mpmc_full_try_def mpmc_full_refused_def)

lemma mpmc_full_refused_reachable: "mpmc_reachable mpmc_full_refused"
  by (rule mpmc_reachable.step [OF mpmc_full_try_reachable mpmc_full_step])

text \<open>Thread 1 is about to move the item out.\<close>

abbreviation full_mem :: "mpmc_loc atomics" where
  "full_mem \<equiv> mem0(L_enqueue := [msg0, \<lparr>mval = 1, mview = no_view\<rparr>], L_sequence 0 := [msg0, \<lparr>mval = 1, mview = pushed_view\<rparr>])"

abbreviation claim_mem :: "mpmc_loc atomics" where
  "claim_mem \<equiv> full_mem(L_dequeue := [msg0, \<lparr>mval = 1, mview = no_view\<rparr>])"

definition mpmc_reading :: "int mpmc_sys" where
  "mpmc_reading =
     snapshot (mpmc_fresh\<lparr>pq_enqueue_pos := 1, pq_dequeue_pos := 1, pq_slots := [\<lparr>slot_sequence = 1, slot_value = 5\<rparr>]\<rparr>)
      claim_mem 1 pushed_view (pushed_view(L_dequeue := 1)) (T_idle (Pushed False)) (D_read 0) [5] []"

lemma mpmc_reading_reachable: "mpmc_reachable mpmc_reading"
proof -
  let ?s = "\<lambda>V pc. snapshot (mpmc_fresh\<lparr>pq_enqueue_pos := 1, pq_slots := [\<lparr>slot_sequence = 1, slot_value = 5\<rparr>]\<rparr>)
      full_mem 1 pushed_view V (T_idle (Pushed False)) pc [5] []"
  from mpmc_full_refused_reachable have "mpmc_reachable (?s no_view (D_pos Pop_again))"
    by (rule run_step [OF _ call_pop [of _ 1 Nothing_yet Pop_again]])
      (auto simp add: run_defs mpmc_full_refused_def mpmc_full_try_def)
  then have "mpmc_reachable (?s no_view (D_seq Pop_again 0))"
    by (rule run_step [OF _ load_dequeue_pos [of _ 1 Pop_again 0]]) (simp_all add: run_defs)
  then have "mpmc_reachable (?s pushed_view (D_cas Pop_again 0))"
    by (rule run_step [OF _ load_data_sequence [of _ 1 Pop_again 0 0 1]]) (auto simp add: run_defs)
  then show ?thesis
    by (rule run_step [OF _ win_data [of _ 1 Pop_again 0]]) (auto simp add: run_defs mpmc_reading_def)
qed

text \<open>The item is out, thread 0 has closed, and thread 1 is in its final attempt.\<close>

abbreviation popped_view :: "mpmc_loc view" where
  "popped_view \<equiv> pushed_view(L_dequeue := 1, L_value 0 := 2, L_sequence 0 := 2)"

abbreviation drained_queue :: "int mpmc_queue" where
  "drained_queue \<equiv> mpmc_fresh\<lparr>pq_enqueue_pos := 1, pq_dequeue_pos := 1, pq_slots := [\<lparr>slot_sequence = 2, slot_value = 5\<rparr>]\<rparr>"

abbreviation drained_mem :: "mpmc_loc atomics" where
  "drained_mem \<equiv> claim_mem(L_sequence 0 := [msg0, \<lparr>mval = 1, mview = pushed_view\<rparr>, \<lparr>mval = 2, mview = popped_view\<rparr>])"

definition mpmc_drained :: "int mpmc_sys" where
  "mpmc_drained = snapshot drained_queue drained_mem 2 pushed_view popped_view (T_idle (Pushed False)) (T_idle (Popped (Some 5)))
     [5] [(0, 5)]"

lemma mpmc_drained_reachable: "mpmc_reachable mpmc_drained"
proof -
  from mpmc_reading_reachable have "mpmc_reachable (snapshot
      (mpmc_fresh\<lparr>pq_enqueue_pos := 1, pq_dequeue_pos := 1, pq_slots := [\<lparr>slot_sequence = 1, slot_value = 5\<rparr>]\<rparr>)
      claim_mem 2 pushed_view (pushed_view(L_dequeue := 1, L_value 0 := 2)) (T_idle (Pushed False)) (D_release 0 5) [5] [])"
    by (rule run_step [OF _ read_value [of _ 1 0 0 5]]) (auto simp add: run_defs mpmc_reading_def)
  then show ?thesis
    by (rule run_step [OF _ release [of _ 1 0 5 0 2]]) (auto simp add: run_defs mpmc_drained_def)
qed

abbreviation closed_mem :: "mpmc_loc atomics" where
  "closed_mem \<equiv> drained_mem(L_closed_flag := [msg0, \<lparr>mval = 1, mview = pushed_view(L_closed_flag := 1)\<rparr>])"

definition mpmc_last_try :: "int mpmc_sys" where
  "mpmc_last_try = snapshot (drained_queue\<lparr>pq_closed := True\<rparr>) closed_mem 2 (pushed_view(L_closed_flag := 1))
     (popped_view(L_closed_flag := 1)) (T_idle (Pushed False)) (D_seq Pop_last 1) [5] [(0, 5)]"

definition mpmc_given_up :: "int mpmc_sys" where
  "mpmc_given_up = mpmc_last_try\<lparr>tpc := (tpc mpmc_last_try)(1 := T_idle (Popped None))\<rparr>"

lemma mpmc_last_try_reachable: "mpmc_reachable mpmc_last_try"
proof -
  let ?s = "\<lambda>V pc. snapshot (drained_queue\<lparr>pq_closed := True\<rparr>) closed_mem 2 (pushed_view(L_closed_flag := 1)) V
      (T_idle (Pushed False)) pc [5] [(0, 5)]"
  from mpmc_drained_reachable have "mpmc_reachable (?s popped_view (T_idle (Popped (Some 5))))"
    by (rule run_step [OF _ close [of _ 0 "Pushed False"]]) (auto simp add: run_defs mpmc_drained_def)
  then have "mpmc_reachable (?s popped_view (D_pos Pop_again))"
    by (rule run_step [OF _ call_pop [of _ 1 "Popped (Some 5)" Pop_again]]) (auto simp add: run_defs)
  then have "mpmc_reachable (?s popped_view (D_seq Pop_again 1))"
    by (rule run_step [OF _ load_dequeue_pos [of _ 1 Pop_again 1]]) (auto simp add: run_defs)
  then have "mpmc_reachable (?s popped_view D_closed)"
    by (rule run_step [OF _ load_data_sequence [of _ 1 Pop_again 1 0 2]]) (auto simp add: run_defs)
  then have "mpmc_reachable (?s (popped_view(L_closed_flag := 1)) (D_pos Pop_last))"
    by (rule run_step [OF _ pop_load_closed [of _ 1 1]]) (auto simp add: run_defs)
  then show ?thesis
    by (rule run_step [OF _ load_dequeue_pos [of _ 1 Pop_last 1]]) (auto simp add: run_defs mpmc_last_try_def)
qed

lemma mpmc_last_step: "m_step 1 mpmc_last_try mpmc_given_up"
  by (rule back_subst [of "m_step 1 mpmc_last_try", OF load_data_sequence [of _ 1 Pop_last 1 0 2]])
    (auto simp: run_defs mpmc_last_try_def mpmc_given_up_def)

lemmas sample_defs = mpmc_writing_def mpmc_full_try_def mpmc_full_refused_def mpmc_reading_def mpmc_drained_def
  mpmc_last_try_def mpmc_given_up_def mpmc_fresh_def

lemma sample_horizon:
  "horizon mpmc_writing" "horizon mpmc_full_try" "horizon mpmc_reading" "horizon mpmc_drained" "horizon mpmc_last_try"
  by (simp_all add: horizon_def sample_defs)

section \<open>Properties\<close>

text \<open>
  C1. Any number of threads, every interleaving, every stale value and every spurious
  compare-exchange failure the memory model allows: when a producer is about to move a
  value into a slot, or a consumer to move one out, the slot exists, all earlier accesses to
  it happen before this one, and no other thread holds a ticket of that slot. So slot
  accesses never race, although the tickets are distributed with relaxed operations only.
\<close>

theorem mpmc_race_free:
  assumes "mpmc_reachable s" and "horizon s" and "tpc s i = E_write v w \<or> tpc s i = D_read w"
  shows "slot_at s w < nslots s \<and> \<not> races (tview s i) (L_value (slot_at s w)) (pacc s (slot_at s w)) \<and>
    (\<forall>j u. j \<noteq> i \<and> holds_ticket (tpc s j) u \<longrightarrow> u mod nslots s \<noteq> slot_at s w)"
proof -
  note inv = mpmc_reachable_inv [OF assms(1,2)]
  note k = slot_at_mod [OF inv assms(2), of w]
  have "holds_ticket (tpc s i) (unat w)"
    using assms(3) by (auto simp: holds_ticket_def)
  then have "\<forall>j u. j \<noteq> i \<and> holds_ticket (tpc s j) u \<longrightarrow> u mod nslots s \<noteq> slot_at s w"
    using holders_apart [OF inv, of i _ "unat w"] k(1) by metis
  moreover have "\<not> races (tview s i) (L_value (slot_at s w)) (pacc s (slot_at s w))"
    using m_ownerD(1) [OF inv, of i] assms(3) k(1) by (auto simp: races_def Let_def)
  ultimately show ?thesis
    using k(2) by blast
qed

theorem mpmc_race_free_witness:
  "\<not> races (tview mpmc_writing 0) (L_value 0) (pacc mpmc_writing 0) \<and>
   \<not> races (tview mpmc_reading 1) (L_value 0) (pacc mpmc_reading 0)"
  using mpmc_race_free [OF mpmc_writing_reachable sample_horizon(1), of 0 5 0]
    mpmc_race_free [OF mpmc_reading_reachable sample_horizon(3), of 1 0 0]
  by (simp add: sample_defs slot_at_def slot_index_def vector_size_def)

text \<open>
  C3. Tickets of the many-thread queue: a popped value is the one pushed under the same
  ticket, no ticket is delivered twice, a ticket handed to the consumers is delivered or is
  in the hands of exactly one consumer, and at most \<^verbatim>\<open>capacity()\<close> tickets separate the
  producers from the consumers. So nothing is lost, duplicated or made up, and values leave
  in the order of their tickets.
\<close>

theorem mpmc_concurrent_fifo:
  assumes "mpmc_reachable s" and "horizon s"
  shows "distinct (map fst (delivery s)) \<and>
    (\<forall>t x. (t, x) \<in> set (delivery s) \<longrightarrow> t < dcount s \<and> x = claimed s ! t) \<and>
    (\<forall>t < dcount s. t \<notin> fst ` set (delivery s) \<longrightarrow> (\<exists>!i. deq_ticket (tpc s i) = Some t)) \<and>
    dcount s \<le> ecount s \<and> ecount s \<le> dcount s + unat (mpmc_capacity (pqueue s))"
proof -
  note inv = mpmc_reachable_inv [OF assms]
  have N: "unat (mpmc_capacity (pqueue s)) = nslots s"
    using assms(2) by (simp add: mpmc_capacity_def horizon_def unat_vector_size)
  have "\<exists>!i. deq_ticket (tpc s i) = Some t" if "t < dcount s" "t \<notin> fst ` set (delivery s)" for t
    using m_dataD(6) [OF inv that(1)] that(2) m_ownerD(3) [OF inv] by blast
  then show ?thesis
    using m_dataD(2,3,4) [OF inv] m_slotD(5) [OF inv m_memD(1) [OF inv]] ticket_window [OF inv] N by simp
qed

theorem mpmc_concurrent_fifo_witness:
  "distinct (map fst (delivery mpmc_drained)) \<and> ecount mpmc_reading \<le> dcount mpmc_reading + 1"
  using mpmc_concurrent_fifo [OF mpmc_drained_reachable sample_horizon(4)]
    mpmc_concurrent_fifo [OF mpmc_reading_reachable sample_horizon(3)]
  by (simp add: sample_defs mpmc_capacity_def vector_size_def)

text \<open>
  C13. Whenever no call is under way, whatever the threads did before, the queue is in a
  state of the sequential model, with its counters at the tickets handed out; it holds
  exactly the values pushed and not yet popped, oldest first; and the values delivered are,
  as a multiset, exactly the values before those.
\<close>

theorem mpmc_rest_refines:
  assumes "mpmc_reachable s" and "horizon s" and "\<And>i. \<exists>r. tpc s i = T_idle r"
  shows "mpmc_inv (ecount s) (dcount s) (pqueue s) \<and>
    items (mpmc_view (pqueue s)) = drop (dcount s) (claimed s) \<and>
    mset (map snd (delivery s)) + mset (items (mpmc_view (pqueue s))) = mset (claimed s)"
proof -
  note inv = mpmc_reachable_inv [OF assms(1,2)]
  have "mset (take (dcount s) (claimed s)) + mset (drop (dcount s) (claimed s)) = mset (claimed s)"
    by (metis append_take_drop_id mset_append)
  then show ?thesis
    using rest_inv [OF inv assms(2,3)] rest_items [OF inv assms(2,3)] rest_delivered [OF inv assms(3)]
    by (simp del: mpmc_view_sel)
qed

theorem mpmc_rest_refines_witness: "items (mpmc_view (pqueue mpmc_drained)) = drop (dcount mpmc_drained) [5]"
  using mpmc_rest_refines [OF mpmc_drained_reachable sample_horizon(4)]
  by (simp add: sample_defs del: mpmc_view_sel)

text \<open>
  C14. Closed and drained, any number of threads: if every close was made by a thread that
  knew the first \<open>n\<close> pushes to be complete (it had joined the producers, say), then a
  \<^verbatim>\<open>pop\<close> that gives up after it has seen the close finds all those \<open>n\<close> values claimed by
  consumers.
\<close>

theorem mpmc_pop_false_drained:
  assumes "mpmc_reachable s" and "horizon s" and "tpc s i = D_seq Pop_last w"
    and "m_step i s t" and "tpc t i = T_idle (Popped None)"
    and "\<And>m. m \<in> set (pmem s L_closed_flag) \<Longrightarrow> mval m \<noteq> 0 \<Longrightarrow> published_upto s (mview m) n"
  shows "n \<le> dcount s \<and> pq_closed (pqueue s)"
  using final_attempt_drained [OF mpmc_reachable_inv [OF assms(1,2)] mpmc_reachable_final [OF assms(1)] assms(2-6)] by blast

theorem mpmc_pop_false_drained_witness: "ecount mpmc_last_try \<le> dcount mpmc_last_try \<and> pq_closed (pqueue mpmc_last_try)"
proof -
  have "published_upto mpmc_last_try (mview m) 1" if "m \<in> set (pmem mpmc_last_try L_closed_flag)" "mval m \<noteq> 0" for m
    using that by (auto simp: published_upto_def sample_defs)
  from mpmc_pop_false_drained [OF mpmc_last_try_reachable sample_horizon(5) _ mpmc_last_step _ this, of 1] show ?thesis
    by (simp add: sample_defs)
qed

text \<open>
  C18. What a refused push and a fruitless pop mean while other threads are at work. An
  attempt to push that reports ``full'' finds at least \<^verbatim>\<open>capacity()\<close> more tickets handed to
  producers than there are pops the thread knows to be complete; an attempt to pop that
  reports ``empty'' finds all the pushes the thread knows to be complete claimed by
  consumers. Only pushes and pops still under way can make a failure spurious.
\<close>

theorem mpmc_failure_explained:
  assumes "mpmc_reachable s" and "horizon s" and "m_step i s t"
  shows "(tpc s i = E_seq b v w \<and> tpc t i = enqueue_failed b v \<and> released_upto s (tview s i) n \<longrightarrow>
      n + nslots s \<le> ecount s) \<and>
    (tpc s i = D_seq a w \<and> tpc t i = dequeue_failed a \<and> published_upto s (tview s i) n \<longrightarrow> n \<le> dcount s)"
  using failed_enqueue_sees_full [OF mpmc_reachable_inv [OF assms(1,2)] assms(2) _ assms(3)]
    failed_dequeue_sees_nothing [OF mpmc_reachable_inv [OF assms(1,2)] assms(2) _ assms(3)] by blast

theorem mpmc_failure_explained_witness:
  "nslots mpmc_full_try \<le> ecount mpmc_full_try \<and> 1 \<le> dcount mpmc_last_try"
  using mpmc_failure_explained [OF mpmc_full_try_reachable sample_horizon(2) mpmc_full_step, of False 6 1 0]
    mpmc_failure_explained [OF mpmc_last_try_reachable sample_horizon(5) mpmc_last_step, of _ _ 1 1 Pop_last]
  by (simp add: sample_defs enqueue_failed_def dequeue_failed_def released_upto_def published_upto_def)

section \<open>The size seen by a thread\<close>

abbreviation m_run :: "'a mpmc_sys \<Rightarrow> 'a mpmc_sys \<Rightarrow> bool" where
  "m_run \<equiv> (\<lambda>s t. \<exists>i. m_step i s t)\<^sup>*\<^sup>*"

lemma m_run_keeps:
  assumes "m_run s t"
  shows "mpmc_reachable s \<Longrightarrow> mpmc_reachable t" and "horizon t \<Longrightarrow> horizon s"
  using assms by (induction rule: rtranclp_induct) (auto intro: mpmc_reachable.step horizon_before)

text \<open>
  The first load of \<^verbatim>\<open>size()\<close> returns the counter with \<open>j\<close> tickets handed out, and after any steps of
  the threads the second one that with \<open>k\<close>: the result is their difference, clamped at both ends,
  and never wraps.
\<close>

lemma mpmc_size_snapshot:
  assumes "mpmc_reachable s" and run: "m_run s t" and hor: "horizon t"
    and j: "readable (tview s i) (pmem s) L_enqueue j" and k: "readable (tview t i) (pmem t) L_dequeue k"
  shows "unat (mpmc_size_of (mval (pmem s L_enqueue ! j)) (mval (pmem t L_dequeue ! k)) (pqueue t)) = min (j - k) (nslots t)"
proof -
  note S = mpmc_reachable_inv [OF assms(1) m_run_keeps(2) [OF run hor]]
    and T = mpmc_reachable_inv [OF m_run_keeps(1) [OF run assms(1)] hor]
  have le: "j \<le> ecount s" "k \<le> dcount t"
    using j k m_memD(3,4) [OF S] m_memD(4) [OF T] by (simp_all add: readable_def)
  have bound: "j < 2 ^ 62" "k < 2 ^ 62" "nslots t < 2 ^ 62"
    using le m_run_keeps(2) [OF run hor] hor m_slotD(5) [OF T m_memD(1) [OF T]] by (simp_all add: horizon_def)
  have val: "mval (pmem s L_enqueue ! j) = of_nat j" "mval (pmem t L_dequeue ! k) = of_nat k"
    using m_memD(5) [OF S le(1)] m_memD(6) [OF T le(2)] by simp_all
  have dif: "sint (of_nat j - of_nat k :: usize) = int j - int k"
    using sequence_dif_nat [of j k] bound by (simp add: sequence_dif_def)
  have "unat (of_nat j - of_nat k :: usize) = j - k" if "k \<le> j"
    using that bound unat_of_nat_usize [of "j - k"] by (simp add: of_nat_diff)
  then show ?thesis
    using bound unat_vector_size [of "pq_slots (pqueue t)"]
    by (auto simp: mpmc_size_of_def val dif Let_def word_less_nat_alt min_def)
qed

end
