(* ===== verification/Mpmc_Progress.thy ===== *)
theory Mpmc_Progress
  imports Mpmc_Properties
begin

text \<open>
  The non-blocking calls of \<open>MpmcQueue\<close> never wait for another thread: wherever the other
  threads have stopped, holding a ticket or not, a thread that runs alone for a few steps
  returns from its call.
\<close>

section \<open>Runs of one thread alone\<close>

definition returns_within :: "nat \<Rightarrow> nat \<Rightarrow> 'a mpmc_sys \<Rightarrow> bool" where
  "returns_within n i s \<longleftrightarrow> (\<exists>k t r. k \<le> n \<and> (m_step i ^^ k) s t \<and> tpc t i = T_idle r)"

lemma returned: "tpc s i = T_idle r \<Longrightarrow> returns_within n i s"
  unfolding returns_within_def by (intro exI [of _ 0] exI [of _ s]) simp

lemma step_returns:
  assumes "m_step i s t" and "returns_within n i t"
  shows "returns_within (Suc n) i s"
proof -
  obtain k u r where "k \<le> n" "(m_step i ^^ k) t u" "tpc u i = T_idle r"
    using assms(2) by (auto simp: returns_within_def)
  then show ?thesis
    using relpowp_Suc_I2 [where P = "m_step i", OF assms(1)] unfolding returns_within_def
    by (intro exI [of _ "Suc k"]) blast
qed

lemma returns_later: "returns_within n i s \<Longrightarrow> n \<le> m \<Longrightarrow> returns_within m i s"
  unfolding returns_within_def using le_trans by blast

section \<open>Pushing\<close>

lemma publish_returns:
  assumes "tpc s i = E_publish v w"
  shows "returns_within 1 i s"
  using step_returns [OF m_step.publish [OF assms refl] returned [of _ _ "Pushed True" 0]] by simp

lemma write_returns:
  assumes "tpc s i = E_write v w"
  shows "returns_within 2 i s"
  using step_returns [OF m_step.write_value [OF assms refl] publish_returns [of _ _ v w]] by (simp add: numeral_2_eq_2)

lemma win_returns:
  assumes "tpc s i = E_cas b v w" and "mval (last (pmem s L_enqueue)) = w"
  shows "returns_within 3 i s"
  using step_returns [OF m_step.win_ticket [OF assms] write_returns [of _ _ v w]] by (simp add: numeral_eq_Suc)

text \<open>The newest message of a location can always be read.\<close>

lemma newest_readable:
  assumes inv: "m_inv s"
  shows "readable (tview s i) (pmem s) L_enqueue (ecount s)" and "readable (tview s i) (pmem s) L_dequeue (dcount s)"
    and "readable (tview s i) (pmem s) L_closed_flag (length (pmem s L_closed_flag) - 1)"
    and "k < nslots s \<Longrightarrow> readable (tview s i) (pmem s) (L_sequence k) (newest s k)"
  using tview_bounded [OF inv, of i] m_memD(3,4) [OF inv] m_memD(7) [OF inv, of k]
  by (auto simp: m_bounded_def readable_def)

lemma newest_ticket_returns:
  assumes inv: "m_inv s" and hor: "horizon s" and pc: "tpc s i = E_seq False v w" and w: "unat w = ecount s"
  shows "returns_within 4 i s"
proof -
  let ?k = "slot_at s w" and ?J = "2 * (ecount s div nslots s)"
  have k: "?k = ecount s mod nslots s" "?k < nslots s"
    using slot_at_mod [OF inv hor, of w] w by simp_all
  note step = m_step.load_sequence [OF pc refl newest_readable(4) [OF inv k(2)]]
  note dif = dif_enqueue [OF inv hor, of w "newest s ?k"]
  show ?thesis
  proof (cases "?J \<le> newest s ?k")
    case True
    then have "newest s ?k = ?J"
      using enqueue_turn(1) [OF inv] k(1) by simp
    then have "sequence_dif (mval (pmem s (L_sequence ?k) ! newest s ?k)) (2 * w) = 0"
      using dif w k by simp
    moreover have "mval (last (pmem s L_enqueue)) = w"
      using last_enqueue [OF inv] w by (metis word_of_nat_eq_iff word_unat_eq_iff unat_ecount [OF inv hor])
    ultimately show ?thesis
      using step_returns [OF step win_returns [of _ _ False v w]] by (simp add: by_dif_def numeral_eq_Suc)
  next
    case False
    then have "seqval (nslots s) ?k (newest s ?k) < seqval (nslots s) ?k ?J"
      using seqval_less_iff [OF m_memD(1) [OF inv]] by (simp del: seqval_even)
    then have "sequence_dif (mval (pmem s (L_sequence ?k) ! newest s ?k)) (2 * w) < 0"
      using dif w k by (simp del: seqval_even)
    then show ?thesis
      using step_returns [OF step returned [of _ _ "Pushed False" 3]] by (simp add: by_dif_def enqueue_failed_def numeral_eq_Suc)
  qed
qed

text \<open>A load by the thread itself changes neither the memory nor the counts.\<close>

lemma load_inv:
  assumes "m_step i s (set_thread i V pc s)" and "m_inv s" and "horizon s"
  shows "m_inv (set_thread i V pc s)" and "horizon (set_thread i V pc s)"
  using m_step_keeps [OF assms] assms(3) by (simp_all add: horizon_def)

lemma load_returns:
  assumes "m_step i s (set_thread i V pc s)" and "m_inv s" and "horizon s"
    and "\<And>t. m_inv t \<Longrightarrow> horizon t \<Longrightarrow> tpc t i = pc \<Longrightarrow> returns_within 5 i t"
  shows "returns_within 6 i s"
  using step_returns [OF assms(1) assms(4) [OF load_inv [OF assms(1-3)]]] by simp

lemma pos_returns:
  assumes inv: "m_inv s" and hor: "horizon s" and pc: "tpc s i = E_pos False v"
  shows "returns_within 5 i s"
proof -
  note step = m_step.load_enqueue_pos [OF pc newest_readable(1) [OF inv]]
  have "mval (pmem s L_enqueue ! ecount s) = of_nat (ecount s)"
    using m_memD(5) [OF inv] by simp
  then show ?thesis
    using step_returns [OF step newest_ticket_returns [OF load_inv [OF step inv hor]]] unat_ecount [OF inv hor]
    by (simp add: numeral_eq_Suc)
qed

lemma cas_returns:
  assumes inv: "m_inv s" and hor: "horizon s" and pc: "tpc s i = E_cas False v w"
  shows "returns_within 5 i s"
proof (cases "mval (last (pmem s L_enqueue)) = w")
  case True
  then show ?thesis
    using returns_later [OF win_returns [OF pc]] by simp
next
  case False
  note step = m_step.lose_ticket [OF pc newest_readable(1) [OF inv]]
  have "mval (pmem s L_enqueue ! ecount s) = of_nat (ecount s)"
    using m_memD(5) [OF inv] by simp
  then show ?thesis
    using step_returns [OF step newest_ticket_returns [OF load_inv [OF step inv hor]]] unat_ecount [OF inv hor]
    by (simp add: numeral_eq_Suc)
qed

lemma seq_returns:
  assumes inv: "m_inv s" and hor: "horizon s" and pc: "tpc s i = E_seq False v w"
  shows "returns_within 6 i s"
  by (rule load_returns [OF m_step.load_sequence [OF pc refl newest_readable(4) [OF inv slot_at_mod(2) [OF inv hor]]] inv hor])
    (auto simp: by_dif_def enqueue_failed_def dequeue_failed_def split: if_splits intro: cas_returns pos_returns returned)

lemma closed_returns:
  assumes inv: "m_inv s" and hor: "horizon s" and pc: "tpc s i = E_closed False v"
  shows "returns_within 6 i s"
  by (rule load_returns [OF m_step.load_closed [OF pc newest_readable(3) [OF inv]] inv hor])
    (auto simp: by_dif_def enqueue_failed_def dequeue_failed_def split: if_splits intro: pos_returns returned)

section \<open>Popping\<close>

lemma release_returns:
  assumes "tpc s i = D_release w x"
  shows "returns_within 1 i s"
  using step_returns [OF m_step.release [OF assms refl refl] returned [of _ _ "Popped (Some x)" 0]] by simp

lemma read_returns:
  assumes "tpc s i = D_read w"
  shows "returns_within 2 i s"
  using step_returns [OF m_step.read_value [OF assms refl, of undefined] release_returns [of _ _ w]] by (simp add: numeral_2_eq_2)

lemma win_data_returns:
  assumes "tpc s i = D_cas a w" and "mval (last (pmem s L_dequeue)) = w"
  shows "returns_within 3 i s"
  using step_returns [OF m_step.win_data [OF assms] read_returns [of _ _ w]] by (simp add: numeral_eq_Suc)

lemma newest_data_returns:
  assumes inv: "m_inv s" and hor: "horizon s" and pc: "tpc s i = D_seq a w" and w: "unat w = dcount s"
    and a: "a \<noteq> Pop_again"
  shows "returns_within 4 i s"
proof -
  let ?k = "slot_at s w" and ?J = "Suc (2 * (dcount s div nslots s))"
  have k: "?k = dcount s mod nslots s" "?k < nslots s"
    using slot_at_mod [OF inv hor, of w] w by simp_all
  note step = m_step.load_data_sequence [OF pc refl newest_readable(4) [OF inv k(2)]]
  note dif = dif_dequeue [OF inv hor, of w "newest s ?k"]
  show ?thesis
  proof (cases "?J \<le> newest s ?k")
    case True
    then have "newest s ?k = ?J"
      using dequeue_turn(1) [OF inv] k(1) by simp
    then have "sequence_dif (mval (pmem s (L_sequence ?k) ! newest s ?k)) (2 * w + 1) = 0"
      using dif w k by simp
    moreover have "mval (last (pmem s L_dequeue)) = w"
      using last_dequeue [OF inv] w by (metis word_of_nat_eq_iff word_unat_eq_iff unat_dcount [OF inv hor])
    ultimately show ?thesis
      using step_returns [OF step win_data_returns [of _ _ a w]] by (simp add: by_dif_def numeral_eq_Suc)
  next
    case False
    then have "seqval (nslots s) ?k (newest s ?k) < seqval (nslots s) ?k ?J"
      using seqval_less_iff [OF m_memD(1) [OF inv]] by (simp del: seqval_odd)
    then have "sequence_dif (mval (pmem s (L_sequence ?k) ! newest s ?k)) (2 * w + 1) < 0"
      using dif w k by (simp del: seqval_odd)
    then show ?thesis
      using step_returns [OF step returned [of _ _ "Popped None" 3]] a
      by (simp add: by_dif_def dequeue_failed_def numeral_eq_Suc)
  qed
qed

lemma data_pos_returns:
  assumes inv: "m_inv s" and hor: "horizon s" and pc: "tpc s i = D_pos a" and a: "a \<noteq> Pop_again"
  shows "returns_within 5 i s"
proof -
  note step = m_step.load_dequeue_pos [OF pc newest_readable(2) [OF inv]]
  have "mval (pmem s L_dequeue ! dcount s) = of_nat (dcount s)"
    using m_memD(6) [OF inv] by simp
  then show ?thesis
    using step_returns [OF step newest_data_returns [OF load_inv [OF step inv hor], of i a]] unat_dcount [OF inv hor] a
    by (simp add: dcount_def numeral_eq_Suc)
qed

lemma data_cas_returns:
  assumes inv: "m_inv s" and hor: "horizon s" and pc: "tpc s i = D_cas a w" and a: "a \<noteq> Pop_again"
  shows "returns_within 5 i s"
proof (cases "mval (last (pmem s L_dequeue)) = w")
  case True
  then show ?thesis
    using returns_later [OF win_data_returns [OF pc]] by simp
next
  case False
  note step = m_step.lose_data [OF pc newest_readable(2) [OF inv]]
  have "mval (pmem s L_dequeue ! dcount s) = of_nat (dcount s)"
    using m_memD(6) [OF inv] by simp
  then show ?thesis
    using step_returns [OF step newest_data_returns [OF load_inv [OF step inv hor], of i a]] unat_dcount [OF inv hor] a
    by (simp add: dcount_def numeral_eq_Suc)
qed

lemma data_seq_returns:
  assumes inv: "m_inv s" and hor: "horizon s" and pc: "tpc s i = D_seq a w" and a: "a \<noteq> Pop_again"
  shows "returns_within 6 i s"
  by (rule load_returns [OF m_step.load_data_sequence [OF pc refl newest_readable(4) [OF inv slot_at_mod(2) [OF inv hor]]] inv hor])
    (auto simp: by_dif_def enqueue_failed_def dequeue_failed_def a split: if_splits intro: data_cas_returns data_pos_returns returned)

section \<open>Every call that does not block\<close>

text \<open>A thread in \<^verbatim>\<open>try_push\<close>, \<^verbatim>\<open>try_pop\<close>, the last attempt of a \<^verbatim>\<open>pop\<close>, or any call that holds a ticket.\<close>

fun attempting :: "'a mpmc_pc \<Rightarrow> bool" where
  "attempting (T_idle r) = False"
| "attempting (E_closed blocking v) = (\<not> blocking)"
| "attempting (E_pos blocking v) = (\<not> blocking)"
| "attempting (E_seq blocking v w) = (\<not> blocking)"
| "attempting (E_cas blocking v w) = (\<not> blocking)"
| "attempting (E_write v w) = True"
| "attempting (E_publish v w) = True"
| "attempting (D_pos a) = (a \<noteq> Pop_again)"
| "attempting (D_seq a w) = (a \<noteq> Pop_again)"
| "attempting (D_cas a w) = (a \<noteq> Pop_again)"
| "attempting (D_read w) = True"
| "attempting (D_release w x) = True"
| "attempting D_closed = False"

lemmas attempt_returns = closed_returns pos_returns seq_returns cas_returns write_returns publish_returns
  data_pos_returns data_seq_returns data_cas_returns read_returns release_returns

lemma attempting_returns:
  assumes inv: "m_inv s" and hor: "horizon s" and pc: "attempting (tpc s i)"
  shows "returns_within 6 i s"
  using pc attempt_returns [of s i] inv hor
  by (cases "tpc s i") (auto intro: returns_later)

text \<open>
  C19. No thread of an \<open>MpmcQueue\<close> can block another one's non-blocking call: wherever the
  other threads have been suspended, even between winning a ticket and publishing their slot,
  a thread inside \<^verbatim>\<open>try_push\<close>, \<^verbatim>\<open>try_pop\<close> or the last attempt of a \<^verbatim>\<open>pop\<close>, or inside any push
  or pop that holds a ticket, can return within six steps of its own and none of theirs.
\<close>

theorem mpmc_try_completes:
  assumes "mpmc_reachable s" and "horizon s" and "attempting (tpc s i)"
  shows "\<exists>n t r. n \<le> 6 \<and> (m_step i ^^ n) s t \<and> tpc t i = T_idle r"
  using attempting_returns [OF mpmc_reachable_inv [OF assms(1,2)] assms(2,3)] by (simp add: returns_within_def)

text \<open>Thread 0 is suspended with the ticket of the only slot; thread 1, in a \<^verbatim>\<open>try_pop\<close>, can still return.\<close>

definition mpmc_suspended :: "int mpmc_sys" where
  "mpmc_suspended = set_thread 1 (tview mpmc_writing 1) (D_pos Pop_once) mpmc_writing"

lemma mpmc_suspended_reachable: "mpmc_reachable mpmc_suspended" and mpmc_suspended_horizon: "horizon mpmc_suspended"
  unfolding mpmc_suspended_def
  by (rule mpmc_reachable.step [OF mpmc_writing_reachable m_step.call_pop]; simp add: sample_defs)
    (simp add: horizon_def sample_defs)

theorem mpmc_try_completes_witness:
  "tpc mpmc_suspended 0 = E_write 5 0 \<and> (\<exists>n t r. n \<le> 6 \<and> (m_step 1 ^^ n) mpmc_suspended t \<and> tpc t 1 = T_idle r)"
  using mpmc_try_completes [OF mpmc_suspended_reachable mpmc_suspended_horizon, of 1]
  by (simp add: mpmc_suspended_def sample_defs)

end
