(* ===== verification/Mutex_Concurrent.thy ===== *)
theory Mutex_Concurrent
  imports Mutex_Queue
begin

text \<open>
  \<open>MutexQueue\<close> used by any number of threads at the same time: the mutex, the two condition
  variables and the interleaving of calls that Mutex_Queue leaves out. A step is one of:
  lock the mutex, run the code between locking and unlocking, issue one notification, be
  woken (by a notification, by a time-out, or spuriously). A wait releases the mutex and
  goes to sleep in one step, as \<^verbatim>\<open>std::condition_variable\<close> promises; a woken thread locks the
  mutex again before it looks at its predicate.
\<close>

section \<open>Threads\<close>

datatype 'a mutex_call =
    Do_push 'a | Do_try_push 'a | Do_push_for 'a
  | Do_pop 'a | Do_try_pop 'a | Do_pop_for 'a
  | Do_close | Do_closed | Do_size

text \<open>
  Where a thread is: between calls (with the reply of its last one, \<open>None\<close> after an
  exception); about to lock, the flag telling that its wait has timed out; inside the
  critical section; asleep on the condition variable of its call; or, the mutex released,
  about to issue the listed notifications and return.
\<close>

datatype 'a mutex_pc =
    U_idle "'a reply option"
  | U_lock "'a mutex_call" bool
  | U_section "'a mutex_call" bool
  | U_wait "'a mutex_call"
  | U_notify "signal list" "'a reply"

record 'a mutex_sys =
  mqueue :: "'a mutex_queue"
  holder :: "nat option"
  upc :: "nat \<Rightarrow> 'a mutex_pc"
  history :: "('a call \<times> 'a reply) list"

section \<open>Critical sections\<close>

datatype ('q, 'r) section_end = Sleep | Leave 'r 'q "signal list" | Escape exn 'q | Undefined

definition leave_push :: "('a mutex_queue, unit) outcome \<Rightarrow> ('a mutex_queue, 'a reply) section_end" where
  "leave_push r =
     (case r of
        Done _ q \<Rightarrow> Leave (Flag True) q [Notify_one_not_empty]
      | Raised e q \<Rightarrow> Escape e q
      | _ \<Rightarrow> Undefined)"

definition leave_pop :: "('a mutex_queue \<times> 'a, unit) outcome \<Rightarrow> ('a mutex_queue, 'a reply) section_end" where
  "leave_pop r =
     (case r of
        Done _ (q, out) \<Rightarrow> Leave (Got True out) q [Notify_one_not_full]
      | Raised e (q, out) \<Rightarrow> Escape e q
      | _ \<Rightarrow> Undefined)"

text \<open>
  The code between locking and unlocking, up to the point where it releases the mutex: to
  sleep, to return, or because the element's move assignment threw.
\<close>

fun locked_section :: "'a move \<Rightarrow> 'a mutex_call \<Rightarrow> bool \<Rightarrow> 'a mutex_queue \<Rightarrow> ('a mutex_queue, 'a reply) section_end" where
  "locked_section mv (Do_push v) late q =
     (if \<not> not_full_or_closed_locked q then Sleep
      else if mq_closed q then Leave (Flag False) q [] else leave_push (enqueue_locked mv v q))"
| "locked_section mv (Do_push_for v) late q =
     (if \<not> not_full_or_closed_locked q then (if late then Leave (Flag False) q [] else Sleep)
      else if mq_closed q then Leave (Flag False) q [] else leave_push (enqueue_locked mv v q))"
| "locked_section mv (Do_try_push v) late q =
     (if mq_closed q \<or> mq_size q = vector_size (mq_buffer q) then Leave (Flag False) q []
      else leave_push (enqueue_locked mv v q))"
| "locked_section mv (Do_pop out) late q =
     (if \<not> not_empty_or_closed_locked q then Sleep
      else if mq_size q = 0 then Leave (Got False out) q [] else leave_pop (dequeue_locked mv out q))"
| "locked_section mv (Do_pop_for out) late q =
     (if \<not> not_empty_or_closed_locked q then (if late then Leave (Got False out) q [] else Sleep)
      else if mq_size q = 0 then Leave (Got False out) q [] else leave_pop (dequeue_locked mv out q))"
| "locked_section mv (Do_try_pop out) late q =
     (if mq_size q = 0 then Leave (Got False out) q [] else leave_pop (dequeue_locked mv out q))"
| "locked_section mv Do_close late q =
     (if mq_closed q then Leave Unit q []
      else Leave Unit (q\<lparr>mq_closed := True\<rparr>) [Notify_all_not_full, Notify_all_not_empty])"
| "locked_section mv Do_closed late q = Leave (Flag (mq_closed q)) q []"
| "locked_section mv Do_size late q = Leave (Num (unat (mq_size q))) q []"

text \<open>The operation of the abstract queue that a call amounts to when it returns.\<close>

fun linear :: "'a mutex_call \<Rightarrow> 'a call" where
  "linear (Do_push v) = Try_push v"
| "linear (Do_try_push v) = Try_push v"
| "linear (Do_push_for v) = Try_push v"
| "linear (Do_pop out) = Try_pop out"
| "linear (Do_try_pop out) = Try_pop out"
| "linear (Do_pop_for out) = Try_pop out"
| "linear Do_close = Close"
| "linear Do_closed = Is_closed"
| "linear Do_size = Get_size"

section \<open>Condition variables and notifications\<close>

fun blocks_push :: "'a mutex_call \<Rightarrow> bool" where
  "blocks_push (Do_push v) = True"
| "blocks_push (Do_push_for v) = True"
| "blocks_push c = False"

fun blocks_pop :: "'a mutex_call \<Rightarrow> bool" where
  "blocks_pop (Do_pop v) = True"
| "blocks_pop (Do_pop_for v) = True"
| "blocks_pop c = False"

fun timed :: "'a mutex_call \<Rightarrow> bool" where
  "timed (Do_push_for v) = True"
| "timed (Do_pop_for v) = True"
| "timed c = False"

fun asleep_not_full :: "'a mutex_pc \<Rightarrow> bool" where
  "asleep_not_full (U_wait c) = blocks_push c"
| "asleep_not_full pc = False"

fun asleep_not_empty :: "'a mutex_pc \<Rightarrow> bool" where
  "asleep_not_empty (U_wait c) = blocks_pop c"
| "asleep_not_empty pc = False"

definition reaches :: "signal \<Rightarrow> 'a mutex_pc \<Rightarrow> bool" where
  "reaches sig pc =
     (if sig = Notify_one_not_empty \<or> sig = Notify_all_not_empty then asleep_not_empty pc else asleep_not_full pc)"

definition to_one :: "signal \<Rightarrow> bool" where
  "to_one sig \<longleftrightarrow> sig = Notify_one_not_empty \<or> sig = Notify_one_not_full"

fun wake :: "'a mutex_pc \<Rightarrow> 'a mutex_pc" where
  "wake (U_wait c) = U_lock c False"
| "wake pc = pc"

definition after :: "signal list \<Rightarrow> 'a reply \<Rightarrow> 'a mutex_pc" where
  "after sigs r = (if sigs = [] then U_idle (Some r) else U_notify sigs r)"

section \<open>Steps\<close>

inductive u_step :: "'a move \<Rightarrow> nat \<Rightarrow> 'a mutex_sys \<Rightarrow> 'a mutex_sys \<Rightarrow> bool" for mv :: "'a move" and i :: nat where
  call: "upc s i = U_idle r \<Longrightarrow> u_step mv i s (s\<lparr>upc := (upc s)(i := U_lock c False)\<rparr>)"
| acquire: "upc s i = U_lock c late \<Longrightarrow> holder s = None \<Longrightarrow>
    u_step mv i s (s\<lparr>holder := Some i, upc := (upc s)(i := U_section c late)\<rparr>)"
| sleep: "upc s i = U_section c late \<Longrightarrow> locked_section mv c late (mqueue s) = Sleep \<Longrightarrow>
    u_step mv i s (s\<lparr>holder := None, upc := (upc s)(i := U_wait c)\<rparr>)"
| leave: "upc s i = U_section c late \<Longrightarrow> locked_section mv c late (mqueue s) = Leave r q sigs \<Longrightarrow>
    u_step mv i s (s\<lparr>mqueue := q, holder := None, upc := (upc s)(i := after sigs r), history := history s @ [(linear c, r)]\<rparr>)"
| escape: "upc s i = U_section c late \<Longrightarrow> locked_section mv c late (mqueue s) = Escape e q \<Longrightarrow>
    u_step mv i s (s\<lparr>mqueue := q, holder := None, upc := (upc s)(i := U_idle None)\<rparr>)"
| notify_one: "upc s i = U_notify (sig # sigs) r \<Longrightarrow> to_one sig \<Longrightarrow> reaches sig (upc s j) \<Longrightarrow>
    u_step mv i s (s\<lparr>mqueue := mutex_notify sig (mqueue s), upc := (upc s)(j := wake (upc s j), i := after sigs r)\<rparr>)"
| notify_nobody: "upc s i = U_notify (sig # sigs) r \<Longrightarrow> (\<forall>j. \<not> reaches sig (upc s j)) \<Longrightarrow>
    u_step mv i s (s\<lparr>mqueue := mutex_notify sig (mqueue s), upc := (upc s)(i := after sigs r)\<rparr>)"
| notify_all: "upc s i = U_notify (sig # sigs) r \<Longrightarrow> \<not> to_one sig \<Longrightarrow>
    u_step mv i s (s\<lparr>mqueue := mutex_notify sig (mqueue s),
      upc := (\<lambda>j. if reaches sig (upc s j) then wake (upc s j) else upc s j)(i := after sigs r)\<rparr>)"
| timeout: "upc s i = U_wait c \<Longrightarrow> timed c \<Longrightarrow> u_step mv i s (s\<lparr>upc := (upc s)(i := U_lock c True)\<rparr>)"
| spurious: "upc s i = U_wait c \<Longrightarrow> u_step mv i s (s\<lparr>upc := (upc s)(i := U_lock c False)\<rparr>)"

definition mutex_start :: "'a mutex_queue \<Rightarrow> 'a mutex_sys" where
  "mutex_start q = \<lparr>mqueue = q, holder = None, upc = (\<lambda>_. U_idle None), history = []\<rparr>"

inductive mutex_reachable :: "'a move \<Rightarrow> usize \<Rightarrow> 'a mutex_sys \<Rightarrow> bool" for mv :: "'a move" and capacity :: usize where
  start: "mutex_new sz dflt capacity = Inr q \<Longrightarrow> 0 < sz \<Longrightarrow> mutex_reachable mv capacity (mutex_start q)"
| step: "mutex_reachable mv capacity s \<Longrightarrow> u_step mv i s t \<Longrightarrow> mutex_reachable mv capacity t"

end
