(* ===== verification/Mutex_Monitor.thy ===== *)
theory Mutex_Monitor
  imports Mutex_Concurrent
begin

text \<open>
  The monitor discipline of \<open>MutexQueue\<close>: mutual exclusion, every critical section is one
  operation of the abstract queue, and no wake-up is lost. The last is an accounting
  argument that is the same for both condition variables, so it is made once, in the locale
  \<open>wakeups\<close>: while a thread sleeps, there are at least as many threads awake (or
  notifications on their way) for its condition variable as there are units of what it
  waits for.
\<close>

section \<open>What a critical section does\<close>

definition may_throw :: "'a move \<Rightarrow> bool" where
  "may_throw mv \<longleftrightarrow> (\<exists>d s d' s'. mv d s = Move_threw d' s')"

lemma nothrow_never: "nothrow_move_assignable mv \<Longrightarrow> \<not> may_throw mv"
  by (auto simp: may_throw_def nothrow_move_assignable_def nothrow_move_assignable_axioms_def)

lemma leave_push_cases:
  assumes "mutex_wf q" and "\<not> fifo_full (mutex_view q)" and "move_assignable mv"
  shows "(\<exists>q'. leave_push (enqueue_locked mv v q) = Leave (Flag True) q' [Notify_one_not_empty] \<and> mutex_wf q' \<and>
            mutex_view q' = (mutex_view q)\<lparr>items := items (mutex_view q) @ [v]\<rparr>) \<or>
         (\<exists>q'. may_throw mv \<and> leave_push (enqueue_locked mv v q) = Escape Move_assignment_failed q' \<and>
            mutex_wf q' \<and> mutex_view q' = mutex_view q)"
proof (cases "mv (mq_buffer q ! unat (mq_tail q)) v")
  case (Moved d s)
  then have "d = v" by (rule move_assignable.transfers [OF assms(3)])
  with Moved mutex_enqueue_view [OF assms(1,2), of v] show ?thesis
    by (simp add: mutex_enqueue_outcome [OF assms(1)] leave_push_def)
next
  case (Move_threw d s)
  then have "may_throw mv"
    unfolding may_throw_def by blast
  with Move_threw mutex_enqueue_throw_view [OF assms(1,2), of d] show ?thesis
    by (simp add: mutex_enqueue_outcome [OF assms(1)] leave_push_def)
qed

lemma leave_pop_cases:
  assumes "mutex_wf q" and "items (mutex_view q) = x # xs" and "move_assignable mv"
  shows "(\<exists>q'. leave_pop (dequeue_locked mv out q) = Leave (Got True x) q' [Notify_one_not_full] \<and> mutex_wf q' \<and>
            mutex_view q' = (mutex_view q)\<lparr>items := xs\<rparr>) \<or>
         (\<exists>s q'. may_throw mv \<and> leave_pop (dequeue_locked mv out q) = Escape Move_assignment_failed q' \<and>
            mutex_wf q' \<and> mutex_view q' = (mutex_view q)\<lparr>items := s # xs\<rparr>)"
proof (cases "mv out x")
  case (Moved d s)
  then have "d = x" by (rule move_assignable.transfers [OF assms(3)])
  with Moved mutex_dequeue_view(1) [OF assms(1,2)] mutex_dequeue_view(2,3) [OF assms(1,2), where s = s]
  show ?thesis
    by (simp add: mutex_dequeue_outcome [OF assms(1)] leave_pop_def)
next
  case (Move_threw d s)
  then have "may_throw mv"
    unfolding may_throw_def by blast
  with Move_threw mutex_dequeue_view(1) [OF assms(1,2)] mutex_dequeue_throw_view [OF assms(1,2), of s] show ?thesis
    by (auto simp: mutex_dequeue_outcome [OF assms(1)] leave_pop_def)
qed

text \<open>The notifications that a call owes for its reply.\<close>

fun owed :: "'a call \<Rightarrow> 'a reply \<Rightarrow> bool \<Rightarrow> signal list" where
  "owed (Try_push v) (Flag True) was_closed = [Notify_one_not_empty]"
| "owed (Try_pop out) (Got True x) was_closed = [Notify_one_not_full]"
| "owed Close r False = [Notify_all_not_full, Notify_all_not_empty]"
| "owed c r was_closed = []"

definition section_ok :: "'a mutex_call \<Rightarrow> 'a fifo \<Rightarrow> bool \<Rightarrow> ('a mutex_queue, 'a reply) section_end \<Rightarrow> bool" where
  "section_ok c f throws e \<longleftrightarrow>
     (case e of
        Sleep \<Rightarrow> \<not> shut f \<and> (blocks_push c \<and> fifo_full f \<or> blocks_pop c \<and> items f = [])
      | Leave r q sigs \<Rightarrow> mutex_wf q \<and> fifo_call (linear c) f = (r, mutex_view q) \<and> sigs = owed (linear c) r (shut f)
      | Escape x q \<Rightarrow> throws \<and> mutex_wf q \<and> length (items (mutex_view q)) = length (items f) \<and>
          bound (mutex_view q) = bound f \<and> shut (mutex_view q) = shut f
      | Undefined \<Rightarrow> False)"

lemma section_push_ok:
  assumes "mutex_wf q" and "\<not> fifo_full (mutex_view q)" and "\<not> shut (mutex_view q)" and "move_assignable mv" and "linear c = Try_push v"
  shows "section_ok c (mutex_view q) (may_throw mv) (leave_push (enqueue_locked mv v q))"
  using leave_push_cases [OF assms(1,2,4), of v] assms(2,3,5)
  by (auto simp: section_ok_def fifo_try_push_def simp del: mutex_view_sel)

lemma section_pop_ok:
  assumes "mutex_wf q" and "mq_size q \<noteq> 0" and "move_assignable mv" and "linear c = Try_pop out"
  shows "section_ok c (mutex_view q) (may_throw mv) (leave_pop (dequeue_locked mv out q))"
proof -
  obtain x xs where xs: "items (mutex_view q) = x # xs"
    using assms(2) mutex_empty_iff [of q] by (cases "items (mutex_view q)") auto
  show ?thesis
    using leave_pop_cases [OF assms(1) xs assms(3), of out] assms(4) xs
    by (auto simp: section_ok_def fifo_try_pop_def simp del: mutex_view_sel)
qed

lemma locked_section_ok:
  assumes wf: "mutex_wf q" and mv: "move_assignable mv"
  shows "section_ok c (mutex_view q) (may_throw mv) (locked_section mv c late q)"
proof -
  note full = mutex_full_iff [OF wf] mutex_room_iff [OF wf]
  note refuse = section_ok_def fifo_try_push_def fifo_try_pop_def mutex_empty_iff not_full_or_closed_locked_def
    not_empty_or_closed_locked_def
  show ?thesis
  proof (cases c)
    case (Do_push v)
    then show ?thesis
      using section_push_ok [OF wf _ _ mv, of c v] wf full by (auto simp: refuse simp del: mutex_view_sel(1,2))
  next
    case (Do_try_push v)
    then show ?thesis
      using section_push_ok [OF wf _ _ mv, of c v] wf full by (auto simp: refuse simp del: mutex_view_sel(1,2))
  next
    case (Do_push_for v)
    then show ?thesis
      using section_push_ok [OF wf _ _ mv, of c v] wf full by (auto simp: refuse simp del: mutex_view_sel(1,2))
  next
    case (Do_pop out)
    then show ?thesis
      using section_pop_ok [OF wf _ mv, of c out] wf word_gt_0 [of "mq_size q"]
      by (auto simp: refuse simp del: mutex_view_sel(1,2))
  next
    case (Do_try_pop out)
    then show ?thesis
      using section_pop_ok [OF wf _ mv, of c out] wf by (auto simp: refuse simp del: mutex_view_sel(1,2))
  next
    case (Do_pop_for out)
    then show ?thesis
      using section_pop_ok [OF wf _ mv, of c out] wf word_gt_0 [of "mq_size q"]
      by (auto simp: refuse simp del: mutex_view_sel(1,2))
  next
    case Do_close
    then show ?thesis
      using wf by (auto simp: section_ok_def fifo_close_def mutex_wf_def mutex_view_def)
  qed (use wf in \<open>simp_all add: section_ok_def\<close>)
qed

section \<open>Accounting for wake-ups\<close>

text \<open>
  Threads as a function from their names to where they are. \<open>attended\<close>: if some thread
  waits, then either the queue is open and there are at least \<open>n\<close> tokens (threads awake on
  behalf of the condition variable, or about to notify it), or it is closed and a
  notification of all waiters is on its way.
\<close>

definition at :: "('pc \<Rightarrow> bool) \<Rightarrow> (nat \<Rightarrow> 'pc) \<Rightarrow> nat set" where
  "at P f = {j. P (f j)}"

lemma at_upd [simp]: "at P (f(i := x)) = (if P x then insert i (at P f) else at P f - {i})"
  by (auto simp: at_def)

lemma in_at [simp]: "j \<in> at P f \<longleftrightarrow> P (f j)"
  by (simp add: at_def)

definition attended :: "('pc \<Rightarrow> bool) \<Rightarrow> ('pc \<Rightarrow> bool) \<Rightarrow> ('pc \<Rightarrow> bool) \<Rightarrow> (nat \<Rightarrow> 'pc) \<Rightarrow> bool \<Rightarrow> nat \<Rightarrow> bool" where
  "attended waits token announces f closed n \<longleftrightarrow>
     ((\<exists>j. waits (f j)) \<longrightarrow> (if closed then \<exists>j. announces (f j) else n \<le> card (at token f)))"

locale wakeups =
  fixes waits token announces :: "'pc \<Rightarrow> bool"
  assumes waits_token: "waits pc \<Longrightarrow> \<not> token pc" and waits_announces: "waits pc \<Longrightarrow> \<not> announces pc"
begin

lemma no_waiter: "(\<And>j. \<not> waits (f j)) \<Longrightarrow> attended waits token announces f closed n"
  by (simp add: attended_def)

lemma waiter_upd: "\<exists>j. waits ((f(i := x)) j) \<Longrightarrow> \<not> waits x \<Longrightarrow> \<exists>j. waits (f j)"
  by (auto split: if_splits)

text \<open>A thread moves on, keeping its token and its announcement if it had them.\<close>

lemma keeps:
  assumes "attended waits token announces f closed n" and "finite (at token f)" and "\<not> waits x" and "m \<le> n"
    and "token (f i) \<Longrightarrow> token x" and "announces (f i) \<Longrightarrow> announces x"
  shows "attended waits token announces (f(i := x)) closed m"
  unfolding attended_def
proof (intro impI)
  assume "\<exists>j. waits ((f(i := x)) j)"
  then have w: "\<exists>j. waits (f j)"
    using assms(3) by (rule waiter_upd)
  have "at token f \<subseteq> at token (f(i := x))" "finite (at token (f(i := x)))"
    using assms(2,5) by auto
  then have "card (at token f) \<le> card (at token (f(i := x)))"
    by (intro card_mono)
  moreover have "\<exists>j. announces ((f(i := x)) j)" if "\<exists>j. announces (f j)"
    using that assms(6) by (metis fun_upd_apply)
  ultimately show "if closed then \<exists>j. announces ((f(i := x)) j) else m \<le> card (at token (f(i := x)))"
    using assms(1,4) w by (auto simp: attended_def)
qed

text \<open>A thread gives up its token for one unit of what is waited for, or because there is none.\<close>

lemma spends:
  assumes "attended waits token announces f False n" and "finite (at token f)" and "\<not> waits x" and "m \<le> n - 1"
  shows "attended waits token announces (f(i := x)) False m"
  unfolding attended_def
proof (intro impI)
  assume "\<exists>j. waits ((f(i := x)) j)"
  from waiter_upd [OF this assms(3)] have n: "n \<le> card (at token f)"
    using assms(1) by (simp add: attended_def)
  have "card (at token f) - 1 \<le> card (at token (f(i := x)))"
    using assms(2) by (auto simp: card_Diff_singleton_if card_insert_if)
  then show "if False then \<exists>j. announces ((f(i := x)) j) else m \<le> card (at token (f(i := x)))"
    using n assms(4) by simp
qed

text \<open>A thread that adds a unit leaves with a token: it is about to notify.\<close>

lemma earns:
  assumes "attended waits token announces f False n" and "finite (at token f)" and "\<not> waits x"
    and "\<not> token (f i)" and "token x" and "m \<le> Suc n"
  shows "attended waits token announces (f(i := x)) False m"
  unfolding attended_def
proof (intro impI)
  assume "\<exists>j. waits ((f(i := x)) j)"
  from waiter_upd [OF this assms(3)] have "n \<le> card (at token f)"
    using assms(1) by (simp add: attended_def)
  then show "if False then \<exists>j. announces ((f(i := x)) j) else m \<le> card (at token (f(i := x)))"
    using assms(2,4-6) by simp
qed

text \<open>A thread goes to sleep only when there is nothing to wait for.\<close>

lemma sleeps: "attended waits token announces f False 0"
  by (simp add: attended_def)

text \<open>A notification passes the token of its sender on to the thread it wakes.\<close>

lemma hands_over:
  assumes "attended waits token announces f closed n" and "finite (at token f)" and "waits (f j)" and "i \<noteq> j"
    and "token y" and "\<not> waits y" and "\<not> waits x" and "announces (f i) \<Longrightarrow> announces x"
  shows "attended waits token announces (f(j := y, i := x)) closed n"
  unfolding attended_def
proof (intro impI)
  have "\<exists>k. waits (f k)"
    using assms(3) by blast
  then have n: "if closed then \<exists>k. announces (f k) else n \<le> card (at token f)"
    using assms(1) by (simp add: attended_def)
  have "j \<notin> at token f"
    using waits_token [OF assms(3)] by simp
  then have "card (at token f) \<le> card (at token (f(j := y, i := x)))"
    using assms(2,4,5) by (simp add: card_Diff_singleton_if card_insert_if)
  moreover have "\<exists>k. announces ((f(j := y, i := x)) k)" if "announces (f k)" for k
    using that assms(4,8) waits_announces [OF assms(3)] by (intro exI [of _ k]) auto
  ultimately show "if closed then \<exists>k. announces ((f(j := y, i := x)) k) else n \<le> card (at token (f(j := y, i := x)))"
    using n by (cases closed) (simp_all del: fun_upd_apply at_upd, blast)
qed

text \<open>A close comes with an announcement; after it, tokens no longer matter.\<close>

lemma announced: "announces x \<Longrightarrow> attended waits token announces (f(i := x)) True n"
  by (auto simp: attended_def intro!: exI [of _ i])

lemma keeps_closed:
  assumes "attended waits token announces f True n" and "\<not> waits x" and "announces (f i) \<Longrightarrow> announces x"
  shows "attended waits token announces (f(i := x)) True m"
  unfolding attended_def
proof (intro impI)
  assume "\<exists>j. waits ((f(i := x)) j)"
  from waiter_upd [OF this assms(2)] obtain j where "announces (f j)"
    using assms(1) by (auto simp: attended_def)
  then show "if True then \<exists>j. announces ((f(i := x)) j) else m \<le> card (at token (f(i := x)))"
    using assms(3) by (auto intro!: exI [of _ j])
qed

text \<open>What the accounting is for.\<close>

lemma somebody_awake:
  assumes "attended waits token announces f closed n" and "waits (f i)" and "closed \<or> 0 < n"
  shows "\<exists>j. token (f j) \<or> announces (f j)"
proof (cases closed)
  case True
  then show ?thesis
    using assms(1,2) by (auto simp: attended_def)
next
  case False
  then have "0 < card (at token f)"
    using assms unfolding attended_def by (metis less_le_trans)
  then show ?thesis
    by (auto simp: card_gt_0_iff at_def)
qed

end

text \<open>The two condition variables of the queue.\<close>

fun token_not_empty :: "'a mutex_pc \<Rightarrow> bool" where
  "token_not_empty (U_lock c late) = blocks_pop c"
| "token_not_empty (U_section c late) = blocks_pop c"
| "token_not_empty (U_notify sigs r) = (Notify_one_not_empty \<in> set sigs)"
| "token_not_empty pc = False"

fun token_not_full :: "'a mutex_pc \<Rightarrow> bool" where
  "token_not_full (U_lock c late) = blocks_push c"
| "token_not_full (U_section c late) = blocks_push c"
| "token_not_full (U_notify sigs r) = (Notify_one_not_full \<in> set sigs)"
| "token_not_full pc = False"

fun announces :: "signal \<Rightarrow> 'a mutex_pc \<Rightarrow> bool" where
  "announces sig (U_notify sigs r) = (sig \<in> set sigs)"
| "announces sig pc = False"

interpretation not_empty: wakeups asleep_not_empty token_not_empty "announces Notify_all_not_empty"
proof unfold_locales
  show "\<not> token_not_empty pc" "\<not> announces Notify_all_not_empty pc" if "asleep_not_empty pc" for pc
    using that by (cases pc; simp)+
qed

interpretation not_full: wakeups asleep_not_full token_not_full "announces Notify_all_not_full"
proof unfold_locales
  show "\<not> token_not_full pc" "\<not> announces Notify_all_not_full pc" if "asleep_not_full pc" for pc
    using that by (cases pc; simp)+
qed

section \<open>Mutual exclusion\<close>

fun busy :: "'a mutex_pc \<Rightarrow> bool" where
  "busy (U_idle r) = False"
| "busy pc = True"

fun inside :: "'a mutex_pc \<Rightarrow> bool" where
  "inside (U_section c late) = True"
| "inside pc = False"

fun pc_shape :: "'a mutex_pc \<Rightarrow> bool" where
  "pc_shape (U_wait c) \<longleftrightarrow> blocks_push c \<or> blocks_pop c"
| "pc_shape (U_notify sigs r) \<longleftrightarrow> sigs \<noteq> []"
| "pc_shape pc \<longleftrightarrow> True"

definition monitor_inv :: "usize \<Rightarrow> 'a mutex_sys \<Rightarrow> bool" where
  "monitor_inv capacity s \<longleftrightarrow>
     mutex_wf (mqueue s) \<and> bound (mutex_view (mqueue s)) = unat capacity \<and> (\<forall>i. inside (upc s i) \<longleftrightarrow> holder s = Some i) \<and>
     finite (at busy (upc s)) \<and> (\<forall>i. pc_shape (upc s i))"

lemma after_simps [simp]:
  "\<not> inside (after sigs r)" "pc_shape (after sigs r)" "\<not> asleep_not_empty (after sigs r)" "\<not> asleep_not_full (after sigs r)"
  "announces sig (after sigs r) \<longleftrightarrow> sig \<in> set sigs"
  "token_not_empty (after sigs r) \<longleftrightarrow> Notify_one_not_empty \<in> set sigs"
  "token_not_full (after sigs r) \<longleftrightarrow> Notify_one_not_full \<in> set sigs"
  by (simp_all add: after_def)

lemma wake_simps [simp]: "inside (wake pc) = inside pc" "busy (wake pc) = busy pc" "pc_shape pc \<Longrightarrow> pc_shape (wake pc)"
  by (cases pc; simp)+

lemma fifo_call_size: "fifo_call c f = (r, g) \<Longrightarrow> bound g = bound f"
  using fifo_call_bound [of c f] by simp

lemma monitor_outside: "monitor_inv capacity s \<Longrightarrow> \<not> inside (upc s i) \<Longrightarrow> holder s \<noteq> Some i"
  unfolding monitor_inv_def by blast

text \<open>Threads outside the critical section move; the queue keeps its shape.\<close>

lemma monitor_moves:
  assumes "monitor_inv capacity s" and "\<not> inside (upc s i)" and "holder t = holder s" and "upc t = f(i := x)"
    and "mutex_wf (mqueue t)" and "bound (mutex_view (mqueue t)) = bound (mutex_view (mqueue s))"
    and "\<And>j. inside (f j) = inside (upc s j) \<and> busy (f j) = busy (upc s j) \<and> pc_shape (f j)" and "\<not> inside x" and "pc_shape x"
  shows "monitor_inv capacity t"
proof -
  have "at busy f = at busy (upc s)"
    using assms(7) by (auto simp: at_def)
  then show ?thesis
    using assms monitor_outside [OF assms(1,2)] by (auto simp: monitor_inv_def simp del: mutex_view_sel)
qed

lemma monitor_step:
  assumes "u_step mv i s t" and "monitor_inv capacity s" and mv: "move_assignable mv"
  shows "monitor_inv capacity t"
proof -
  note ok = locked_section_ok [OF _ mv]
  show ?thesis
    using assms(1,2)
  proof (induction rule: u_step.induct)
    case (acquire s c late)
    then show ?case
      by (auto simp: monitor_inv_def)
  next
    case (sleep s c late)
    then have "section_ok c (mutex_view (mqueue s)) (may_throw mv) Sleep"
      using ok [of "mqueue s" c late] by (simp add: monitor_inv_def)
    with sleep show ?case
      by (auto simp: monitor_inv_def section_ok_def)
  next
    case (leave s c late r q sigs)
    then have "section_ok c (mutex_view (mqueue s)) (may_throw mv) (Leave r q sigs)"
      using ok [of "mqueue s" c late] by (simp add: monitor_inv_def)
    then have "mutex_wf q" "bound (mutex_view q) = bound (mutex_view (mqueue s))"
      by (auto simp: section_ok_def simp del: mutex_view_sel dest: fifo_call_size)
    with leave show ?case
      by (auto simp: monitor_inv_def simp del: mutex_view_sel)
  next
    case (escape s c late e q)
    then have "section_ok c (mutex_view (mqueue s)) (may_throw mv) (Escape e q)"
      using ok [of "mqueue s" c late] by (simp add: monitor_inv_def)
    with escape show ?case
      by (auto simp: monitor_inv_def section_ok_def simp del: mutex_view_sel)
  next
    case (notify_one s sig sigs r j)
    show ?case
      by (rule monitor_moves [OF notify_one(4), of i _ "(upc s)(j := wake (upc s j))"])
        (use notify_one in \<open>auto simp: monitor_inv_def simp del: mutex_view_sel\<close>)
  next
    case (notify_all s sig sigs r)
    show ?case
      by (rule monitor_moves [OF notify_all(3), of i _ "\<lambda>j. if reaches sig (upc s j) then wake (upc s j) else upc s j"])
        (use notify_all in \<open>auto simp: monitor_inv_def simp del: mutex_view_sel\<close>)
  next
    case (notify_nobody s sig sigs r)
    show ?case
      by (rule monitor_moves [OF notify_nobody(3), of i _ "upc s"])
        (use notify_nobody in \<open>auto simp: monitor_inv_def simp del: mutex_view_sel\<close>)
  next
    case (call s r c)
    show ?case
      by (rule monitor_moves [OF call(2), of i _ "upc s"]) (use call in \<open>auto simp: monitor_inv_def\<close>)
  next
    case (timeout s c)
    show ?case
      by (rule monitor_moves [OF timeout(3), of i _ "upc s"]) (use timeout in \<open>auto simp: monitor_inv_def\<close>)
  next
    case (spurious s c)
    show ?case
      by (rule monitor_moves [OF spurious(2), of i _ "upc s"]) (use spurious in \<open>auto simp: monitor_inv_def\<close>)
  qed
qed

lemma monitor_start:
  assumes "mutex_new sz dflt capacity = Inr q" and "0 < sz"
  shows "monitor_inv capacity (mutex_start q)"
  using mutex_new_wf(1,2) [OF assms] by (simp add: monitor_inv_def mutex_start_def at_def del: mutex_view_sel)

lemma mutex_reachable_monitor: "mutex_reachable mv capacity s \<Longrightarrow> move_assignable mv \<Longrightarrow> monitor_inv capacity s"
  by (induction rule: mutex_reachable.induct) (blast intro: monitor_start monitor_step)+

section \<open>Critical sections are operations of the abstract queue\<close>

definition linear_inv :: "usize \<Rightarrow> 'a mutex_sys \<Rightarrow> bool" where
  "linear_inv capacity s \<longleftrightarrow>
     fifo_run (map fst (history s)) \<lparr>items = [], bound = unat capacity, shut = False\<rparr> =
       (map snd (history s), mutex_view (mqueue s))"

lemma linear_step:
  assumes "u_step mv i s t" and "linear_inv capacity s" and "monitor_inv capacity s" and mv: "nothrow_move_assignable mv"
  shows "linear_inv capacity t"
proof -
  note ok = locked_section_ok [OF _ nothrow_move_assignable.axioms(1) [OF mv]]
  show ?thesis
    using assms(1-3)
  proof (induction rule: u_step.induct)
    case (leave s c late r q sigs)
    then have "fifo_call (linear c) (mutex_view (mqueue s)) = (r, mutex_view q)"
      using ok [of "mqueue s" c late] by (simp add: monitor_inv_def section_ok_def del: mutex_view_sel)
    with leave(3) show ?case
      by (simp add: linear_inv_def fifo_run_snoc)
  next
    case (escape s c late e q)
    then show ?case
      using ok [of "mqueue s" c late] nothrow_never [OF mv] by (simp add: monitor_inv_def section_ok_def)
  qed (simp_all add: linear_inv_def)
qed

lemma mutex_reachable_linear:
  assumes "mutex_reachable mv capacity s" and mv: "nothrow_move_assignable mv"
  shows "linear_inv capacity s"
  using assms(1)
proof (induction rule: mutex_reachable.induct)
  case (start sz dflt q)
  then show ?case
    using mutex_new_wf(2) [OF start] by (simp add: linear_inv_def mutex_start_def)
next
  case (step s i t)
  then show ?case
    using linear_step mutex_reachable_monitor nothrow_move_assignable.axioms(1) [OF mv] mv by blast
qed

section \<open>No wake-up is lost\<close>

definition attended_not_empty :: "(nat \<Rightarrow> 'a mutex_pc) \<Rightarrow> 'a fifo \<Rightarrow> bool" where
  "attended_not_empty f q = attended asleep_not_empty token_not_empty (announces Notify_all_not_empty) f (shut q) (length (items q))"

definition attended_not_full :: "(nat \<Rightarrow> 'a mutex_pc) \<Rightarrow> 'a fifo \<Rightarrow> bool" where
  "attended_not_full f q =
     attended asleep_not_full token_not_full (announces Notify_all_not_full) f (shut q) (bound q - length (items q))"

definition wakeup_inv :: "'a mutex_sys \<Rightarrow> bool" where
  "wakeup_inv s \<longleftrightarrow>
     attended_not_empty (upc s) (mutex_view (mqueue s)) \<and> attended_not_full (upc s) (mutex_view (mqueue s))"

lemmas attended_defs = attended_not_empty_def attended_not_full_def

lemma tokens_finite:
  assumes "finite (at busy f)"
  shows "finite (at token_not_empty f)" and "finite (at token_not_full f)"
proof -
  have "token_not_empty pc \<Longrightarrow> busy pc" "token_not_full pc \<Longrightarrow> busy pc" for pc :: "'a mutex_pc"
    by (cases pc; simp)+
  then have "at token_not_empty f \<subseteq> at busy f" "at token_not_full f \<subseteq> at busy f"
    by auto
  then show "finite (at token_not_empty f)" "finite (at token_not_full f)"
    using assms finite_subset by blast+
qed

lemma attended_same:
  assumes "\<And>j. waits (g j) = waits (f j) \<and> token (g j) = token (f j) \<and> ann (g j) = ann (f j)"
  shows "attended waits token ann g closed n = attended waits token ann f closed n"
  using assms by (simp add: attended_def at_def)

lemma blocks_apart: "blocks_push c \<Longrightarrow> \<not> blocks_pop c" "blocks_pop c \<Longrightarrow> \<not> blocks_push c"
  by (cases c; simp)+

lemma linear_blocks: "linear c = Try_push v \<Longrightarrow> \<not> blocks_pop c" "linear c = Try_pop x \<Longrightarrow> \<not> blocks_push c"
  "linear c = Close \<Longrightarrow> \<not> blocks_push c \<and> \<not> blocks_pop c" "linear c = Is_closed \<Longrightarrow> \<not> blocks_push c \<and> \<not> blocks_pop c"
  "linear c = Get_size \<Longrightarrow> \<not> blocks_push c \<and> \<not> blocks_pop c"
  by (cases c; simp)+

lemma linear_never: "linear c \<noteq> Get_capacity"
  by (cases c) simp_all

text \<open>The end of a critical section, on the abstract queue.\<close>

lemma leave_shut_attended:
  assumes f: "attended_not_empty f q" "attended_not_full f q"
    and sec: "f i = U_section c late" and r: "fifo_call (linear c) q = (r, q')" and shut: "shut q"
  defines "x \<equiv> after (owed (linear c) r (shut q)) r"
  shows "attended_not_empty (f(i := x)) q' \<and> attended_not_full (f(i := x)) q'"
proof -
  have "shut q'"
    using fifo_call_shut [of q "linear c"] r shut by simp
  with shut f [unfolded attended_defs] show ?thesis
    unfolding attended_defs by (auto simp: x_def sec intro!: not_empty.keeps_closed not_full.keeps_closed)
qed

lemma leave_push_attended:
  assumes f: "attended_not_empty f q" "attended_not_full f q" and fin: "finite (at busy f)"
    and sec: "f i = U_section c late" and r: "fifo_call (linear c) q = (r, q')"
    and opened: "\<not> shut q" and c: "linear c = Try_push v"
  defines "x \<equiv> after (owed (linear c) r (shut q)) r"
  shows "attended_not_empty (f(i := x)) q' \<and> attended_not_full (f(i := x)) q'"
proof -
  note fin' = tokens_finite [OF fin] and A = f [unfolded attended_defs] and c' = linear_blocks(1) [OF c]
  show ?thesis
  proof (cases "fifo_full q")
    case True
    then have "q' = q" "r = Flag False" "bound q - length (items q) = 0"
      using r c by (auto simp: fifo_try_push_def fifo_full_def)
    then show ?thesis
      using A opened c' c unfolding attended_defs
      by (auto simp: x_def sec intro!: not_empty.keeps [OF _ fin'(1)] not_full.sleeps)
  next
    case False
    then have "q' = q\<lparr>items := items q @ [v]\<rparr>" "r = Flag True"
      using r c opened by (auto simp: fifo_try_push_def)
    then show ?thesis
      using A opened c' c unfolding attended_defs
      by (auto simp: x_def sec intro!: not_empty.earns [OF _ fin'(1)] not_full.spends [OF _ fin'(2)])
  qed
qed

lemma leave_pop_attended:
  assumes f: "attended_not_empty f q" "attended_not_full f q" and fin: "finite (at busy f)"
    and sec: "f i = U_section c late" and r: "fifo_call (linear c) q = (r, q')"
    and opened: "\<not> shut q" and c: "linear c = Try_pop out"
  defines "x \<equiv> after (owed (linear c) r (shut q)) r"
  shows "attended_not_empty (f(i := x)) q' \<and> attended_not_full (f(i := x)) q'"
proof -
  note fin' = tokens_finite [OF fin] and A = f [unfolded attended_defs] and c' = linear_blocks(2) [OF c]
  show ?thesis
  proof (cases "items q")
    case Nil
    then have "q' = q" "r = Got False out"
      using r c by (auto simp: fifo_try_pop_def)
    then show ?thesis
      using A opened c' c Nil unfolding attended_defs
      by (auto simp: x_def sec intro!: not_full.keeps [OF _ fin'(2)] not_empty.sleeps)
  next
    case (Cons y ys)
    then have "q' = q\<lparr>items := ys\<rparr>" "r = Got True y"
      using r c by (auto simp: fifo_try_pop_def)
    then show ?thesis
      using A opened c' c Cons unfolding attended_defs
      by (auto simp: x_def sec intro!: not_full.earns [OF _ fin'(2)] not_empty.spends [OF _ fin'(1)])
  qed
qed

lemma leave_attended:
  assumes f: "attended_not_empty f q" "attended_not_full f q" and fin: "finite (at busy f)"
    and sec: "f i = U_section c late" and r: "fifo_call (linear c) q = (r, q')"
  defines "x \<equiv> after (owed (linear c) r (shut q)) r"
  shows "attended_not_empty (f(i := x)) q'" and "attended_not_full (f(i := x)) q'"
proof -
  note fin' = tokens_finite [OF fin] and A = f [unfolded attended_defs]
  have "attended_not_empty (f(i := x)) q' \<and> attended_not_full (f(i := x)) q'" if opened: "\<not> shut q"
  proof (cases "linear c")
    case (Try_push v)
    then show ?thesis
      using leave_push_attended [OF f fin sec r opened] by (simp add: x_def)
  next
    case (Try_pop out)
    then show ?thesis
      using leave_pop_attended [OF f fin sec r opened] by (simp add: x_def)
  next
    case Close
    then have "q' = q\<lparr>shut := True\<rparr>" "r = Unit"
      using r by (auto simp: fifo_close_def)
    then show ?thesis
      using opened Close unfolding attended_defs by (auto simp: x_def intro!: not_full.announced not_empty.announced)
  next
    case Is_closed
    then have "q' = q"
      using r by auto
    then show ?thesis
      using A opened linear_blocks(4) [OF Is_closed] Is_closed unfolding attended_defs
      by (auto simp: x_def sec intro!: not_full.keeps [OF _ fin'(2)] not_empty.keeps [OF _ fin'(1)])
  next
    case Get_size
    then have "q' = q"
      using r by auto
    then show ?thesis
      using A opened linear_blocks(5) [OF Get_size] Get_size unfolding attended_defs
      by (auto simp: x_def sec intro!: not_full.keeps [OF _ fin'(2)] not_empty.keeps [OF _ fin'(1)])
  qed (simp add: linear_never)
  then show "attended_not_empty (f(i := x)) q'" "attended_not_full (f(i := x)) q'"
    using leave_shut_attended [OF f sec r, folded x_def] by blast+
qed

text \<open>A thread that sleeps on neither condition variable moves and keeps what it holds.\<close>

lemma moves_attended:
  assumes "attended_not_empty f q" and "attended_not_full f q" and "finite (at busy f)"
    and "\<not> asleep_not_empty x" and "\<not> asleep_not_full x"
    and "token_not_empty (f i) \<Longrightarrow> token_not_empty x" and "token_not_full (f i) \<Longrightarrow> token_not_full x"
    and "\<And>sig. sig = Notify_all_not_empty \<or> sig = Notify_all_not_full \<Longrightarrow> announces sig (f i) \<Longrightarrow> announces sig x"
  shows "attended_not_empty (f(i := x)) q" and "attended_not_full (f(i := x)) q"
  using not_empty.keeps [of f "shut q" "length (items q)" x "length (items q)" i]
    not_full.keeps [of f "shut q" "bound q - length (items q)" x "bound q - length (items q)" i]
    assms tokens_finite [OF assms(3)] unfolding attended_defs by auto

lemma sleep_attended:
  assumes f: "attended_not_empty f q" "attended_not_full f q" and fin: "finite (at busy f)" and open_: "\<not> shut q"
    and sec: "f i = U_section c late" and why: "blocks_push c \<and> fifo_full q \<or> blocks_pop c \<and> items q = []"
  shows "attended_not_empty (f(i := U_wait c)) q" and "attended_not_full (f(i := U_wait c)) q"
proof -
  note fin' = tokens_finite [OF fin] and A = f [unfolded attended_defs]
  from why have "attended_not_empty (f(i := U_wait c)) q \<and> attended_not_full (f(i := U_wait c)) q"
  proof
    assume "blocks_push c \<and> fifo_full q"
    then show ?thesis
      using A open_ blocks_apart [of c] unfolding attended_defs
      by (auto simp: sec fifo_full_def intro!: not_empty.keeps [OF _ fin'(1)] not_full.sleeps)
  next
    assume "blocks_pop c \<and> items q = []"
    then show ?thesis
      using A open_ blocks_apart [of c] unfolding attended_defs
      by (auto simp: sec intro!: not_full.keeps [OF _ fin'(2)] not_empty.sleeps)
  qed
  then show "attended_not_empty (f(i := U_wait c)) q" "attended_not_full (f(i := U_wait c)) q"
    by simp_all
qed

text \<open>The notifications of a thread, one at a time.\<close>

lemma notify_one_attended:
  assumes f: "attended_not_empty f q" "attended_not_full f q" and fin: "finite (at busy f)"
    and i: "f i = U_notify (sig # sigs) r" and one: "to_one sig" and j: "reaches sig (f j)"
  shows "attended_not_empty (f(j := wake (f j), i := after sigs r)) q"
    and "attended_not_full (f(j := wake (f j), i := after sigs r)) q"
proof -
  note fin' = tokens_finite [OF fin] and A = f [unfolded attended_defs]
  have ij: "i \<noteq> j"
    using i j by (auto simp: reaches_def split: if_splits)
  obtain c where c: "f j = U_wait c"
    using j by (cases "f j") (auto simp: reaches_def split: if_splits)
  have "attended_not_empty (f(j := wake (f j), i := after sigs r)) q \<and>
      attended_not_full (f(j := wake (f j), i := after sigs r)) q"
  proof (cases "sig = Notify_one_not_empty")
    case True
    then have b: "blocks_pop c" "\<not> blocks_push c"
      using j c blocks_apart [of c] by (auto simp: reaches_def)
    have "attended_not_full (f(j := wake (f j))) q"
      using A(2) b c unfolding attended_defs by (auto intro!: not_full.keeps [OF _ fin'(2)])
    then have "attended_not_full (f(j := wake (f j), i := after sigs r)) q"
      using True i ij fin'(2) c unfolding attended_defs
      by (auto intro!: not_full.keeps [where f = "f(j := U_lock c False)"])
    moreover have "attended_not_empty (f(j := wake (f j), i := after sigs r)) q"
      using A(1) True i ij c b unfolding attended_defs by (auto intro!: not_empty.hands_over [OF _ fin'(1)])
    ultimately show ?thesis by simp
  next
    case False
    then have sig: "sig = Notify_one_not_full"
      using one by (simp add: to_one_def)
    then have b: "blocks_push c" "\<not> blocks_pop c"
      using j c blocks_apart [of c] by (auto simp: reaches_def)
    have "attended_not_empty (f(j := wake (f j))) q"
      using A(1) b c unfolding attended_defs by (auto intro!: not_empty.keeps [OF _ fin'(1)])
    then have "attended_not_empty (f(j := wake (f j), i := after sigs r)) q"
      using sig i ij fin'(1) c unfolding attended_defs
      by (auto intro!: not_empty.keeps [where f = "f(j := U_lock c False)"])
    moreover have "attended_not_full (f(j := wake (f j), i := after sigs r)) q"
      using A(2) sig i ij c b unfolding attended_defs by (auto intro!: not_full.hands_over [OF _ fin'(2)])
    ultimately show ?thesis by simp
  qed
  then show "attended_not_empty (f(j := wake (f j), i := after sigs r)) q"
    "attended_not_full (f(j := wake (f j), i := after sigs r)) q"
    by simp_all
qed

text \<open>Once nobody sleeps on the notified condition variable, the notification may be forgotten.\<close>

lemma notified_attended:
  assumes f: "attended_not_empty f q" "attended_not_full f q" and fin: "finite (at busy f)"
    and i: "f i = U_notify (sig # sigs) r" and nobody: "\<And>j. \<not> reaches sig (f j)"
  shows "attended_not_empty (f(i := after sigs r)) q" and "attended_not_full (f(i := after sigs r)) q"
proof -
  note fin' = tokens_finite [OF fin] and A = f [unfolded attended_defs]
  have "attended_not_empty (f(i := after sigs r)) q \<and> attended_not_full (f(i := after sigs r)) q"
  proof (cases "sig = Notify_one_not_empty \<or> sig = Notify_all_not_empty")
    case True
    then have "\<not> asleep_not_empty ((f(i := after sigs r)) j)" for j
      using nobody [of j] by (auto simp: reaches_def)
    then show ?thesis
      using A(2) True i unfolding attended_defs by (auto intro!: not_empty.no_waiter not_full.keeps [OF _ fin'(2)])
  next
    case False
    then have "\<not> asleep_not_full ((f(i := after sigs r)) j)" for j
      using nobody [of j] by (auto simp: reaches_def)
    then show ?thesis
      using A(1) False i unfolding attended_defs by (auto intro!: not_full.no_waiter not_empty.keeps [OF _ fin'(1)])
  qed
  then show "attended_not_empty (f(i := after sigs r)) q" "attended_not_full (f(i := after sigs r)) q"
    by simp_all
qed

lemma both_False: "blocks_push c \<Longrightarrow> blocks_pop c \<Longrightarrow> False"
  by (cases c) simp_all

lemma wake_all_attended:
  fixes f :: "nat \<Rightarrow> 'a mutex_pc" and sig :: signal
  assumes f: "attended_not_empty f q" "attended_not_full f q"
  defines "g \<equiv> \<lambda>j. if reaches sig (f j) then wake (f j) else f j"
  shows "attended_not_empty g q" and "attended_not_full g q" and "\<And>j. \<not> reaches sig (g j)"
proof -
  have woken: "\<exists>c. f j = U_wait c" if "reaches sig (f j)" for j
    using that by (cases "f j") (auto simp: reaches_def split: if_splits)
  show none: "\<not> reaches sig (g j)" for j
    using woken [of j] by (auto simp: g_def reaches_def split: if_splits)
  have "attended_not_empty g q \<and> attended_not_full g q"
  proof (cases "sig = Notify_one_not_empty \<or> sig = Notify_all_not_empty")
    case True
    then have "asleep_not_full (g j) = asleep_not_full (f j) \<and> token_not_full (g j) = token_not_full (f j) \<and>
        announces Notify_all_not_full (g j) = announces Notify_all_not_full (f j)" for j
      using woken [of j] by (auto simp: g_def reaches_def) (blast dest: both_False)+
    moreover have "\<not> asleep_not_empty (g j)" for j
      using none [of j] True by (auto simp: reaches_def)
    ultimately show ?thesis
      using f(2) unfolding attended_defs by (auto intro!: not_empty.no_waiter simp: attended_same [of _ g f])
  next
    case False
    then have "asleep_not_empty (g j) = asleep_not_empty (f j) \<and> token_not_empty (g j) = token_not_empty (f j) \<and>
        announces Notify_all_not_empty (g j) = announces Notify_all_not_empty (f j)" for j
      using woken [of j] by (auto simp: g_def reaches_def) (blast dest: both_False)+
    moreover have "\<not> asleep_not_full (g j)" for j
      using none [of j] False by (auto simp: reaches_def)
    ultimately show ?thesis
      using f(1) unfolding attended_defs by (auto intro!: not_full.no_waiter simp: attended_same [of _ g f])
  qed
  then show "attended_not_empty g q" "attended_not_full g q"
    by simp_all
qed

lemma wakeup_step:
  assumes "u_step mv i s t" and "wakeup_inv s" and "monitor_inv capacity s" and mv: "nothrow_move_assignable mv"
  shows "wakeup_inv t"
proof -
  note ok = locked_section_ok [OF _ nothrow_move_assignable.axioms(1) [OF mv]]
  have fin: "finite (at busy (upc s))"
    using assms(3) by (simp add: monitor_inv_def)
  show ?thesis
    using assms(1-3) fin
  proof (induction rule: u_step.induct)
    case (call s r c)
    then show ?case
      using moves_attended [of "upc s" "mutex_view (mqueue s)" "U_lock c False" i] by (simp add: wakeup_inv_def del: mutex_view_sel)
  next
    case (acquire s c late)
    then show ?case
      using moves_attended [of "upc s" "mutex_view (mqueue s)" "U_section c late" i] by (simp add: wakeup_inv_def del: mutex_view_sel)
  next
    case (sleep s c late)
    then have "section_ok c (mutex_view (mqueue s)) (may_throw mv) Sleep"
      using ok [of "mqueue s" c late] by (simp add: monitor_inv_def)
    with sleep show ?case
      using sleep_attended [of "upc s" "mutex_view (mqueue s)" i c late]
      by (simp add: section_ok_def wakeup_inv_def del: mutex_view_sel)
  next
    case (leave s c late r q sigs)
    then have "section_ok c (mutex_view (mqueue s)) (may_throw mv) (Leave r q sigs)"
      using ok [of "mqueue s" c late] by (simp add: monitor_inv_def)
    with leave show ?case
      using leave_attended [of "upc s" "mutex_view (mqueue s)" i c late r "mutex_view q"]
      by (simp add: section_ok_def wakeup_inv_def del: mutex_view_sel)
  next
    case (escape s c late e q)
    then show ?case
      using ok [of "mqueue s" c late] nothrow_never [OF mv] by (simp add: monitor_inv_def section_ok_def)
  next
    case (notify_one s sig sigs r j)
    then show ?case
      using notify_one_attended [of "upc s" "mutex_view (mqueue s)" i sig sigs r j] by (simp add: wakeup_inv_def del: mutex_view_sel)
  next
    case (notify_nobody s sig sigs r)
    then show ?case
      using notified_attended [of "upc s" "mutex_view (mqueue s)" i sig sigs r] by (simp add: wakeup_inv_def del: mutex_view_sel)
  next
    case (notify_all s sig sigs r)
    let ?g = "\<lambda>j. if reaches sig (upc s j) then wake (upc s j) else upc s j"
    have "at busy ?g = at busy (upc s)" "?g i = upc s i"
      using notify_all(1) by (auto simp: at_def reaches_def)
    then show ?case
      using notify_all notified_attended [of ?g "mutex_view (mqueue s)" i sig sigs r]
        wake_all_attended [of "upc s" "mutex_view (mqueue s)" sig] by (simp add: wakeup_inv_def del: mutex_view_sel)
  next
    case (timeout s c)
    then show ?case
      using moves_attended [of "upc s" "mutex_view (mqueue s)" "U_lock c True" i] by (simp add: wakeup_inv_def del: mutex_view_sel)
  next
    case (spurious s c)
    then show ?case
      using moves_attended [of "upc s" "mutex_view (mqueue s)" "U_lock c False" i] by (simp add: wakeup_inv_def del: mutex_view_sel)
  qed
qed

lemma mutex_reachable_wakeups:
  assumes "mutex_reachable mv capacity s" and mv: "nothrow_move_assignable mv"
  shows "wakeup_inv s"
  using assms(1)
proof (induction rule: mutex_reachable.induct)
  case (start sz dflt q)
  then show ?case
    by (simp add: wakeup_inv_def mutex_start_def attended_defs attended_def)
next
  case (step s i t)
  then show ?case
    using wakeup_step mutex_reachable_monitor nothrow_move_assignable.axioms(1) [OF mv] mv by blast
qed

section \<open>Progress\<close>

fun awake :: "'a mutex_pc \<Rightarrow> bool" where
  "awake (U_lock c late) = True"
| "awake (U_section c late) = True"
| "awake (U_notify sigs r) = True"
| "awake pc = False"

lemma holds_awake: "token_not_empty pc \<or> announces sig pc \<Longrightarrow> awake pc" "token_not_full pc \<or> announces sig pc \<Longrightarrow> awake pc"
  by (cases pc; simp)+

text \<open>A thread inside its critical section, or about to notify, can always go on.\<close>

lemma inside_steps:
  assumes "monitor_inv capacity s" and "move_assignable mv" and "upc s i = U_section c late"
  shows "\<exists>t. u_step mv i s t"
proof -
  have "section_ok c (mutex_view (mqueue s)) (may_throw mv) (locked_section mv c late (mqueue s))"
    using assms(1,2) by (intro locked_section_ok) (simp_all add: monitor_inv_def)
  then show ?thesis
  proof (cases "locked_section mv c late (mqueue s)")
    case Sleep
    then show ?thesis
      using u_step.sleep [OF assms(3)] by blast
  next
    case (Leave r q sigs)
    then show ?thesis
      using u_step.leave [OF assms(3)] by blast
  next
    case (Escape e q)
    then show ?thesis
      using u_step.escape [OF assms(3)] by blast
  qed (simp add: section_ok_def)
qed

lemma notifier_steps:
  assumes "upc s i = U_notify (sig # sigs) r"
  shows "\<exists>t. u_step mv i s t"
  using u_step.notify_one [OF assms] u_step.notify_nobody [OF assms] u_step.notify_all [OF assms] by blast

lemma awake_progress:
  assumes inv: "monitor_inv capacity s" and mv: "move_assignable mv" and j: "awake (upc s j)"
  shows "\<exists>k t. awake (upc s k) \<and> u_step mv k s t"
proof (cases "upc s j")
  case (U_lock c late)
  show ?thesis
  proof (cases "holder s")
    case None
    then show ?thesis
      using u_step.acquire [OF U_lock] j by blast
  next
    case (Some k)
    then have "inside (upc s k)"
      using inv by (simp add: monitor_inv_def)
    then obtain c' late' where "upc s k = U_section c' late'"
      by (cases "upc s k") simp_all
    then show ?thesis
      using inside_steps [OF inv mv, of k] by (metis awake.simps(2))
  qed
next
  case (U_section c late)
  then show ?thesis
    using inside_steps [OF inv mv] j by blast
next
  case (U_notify sigs r)
  then obtain sig sigs' where "sigs = sig # sigs'"
    using inv unfolding monitor_inv_def by (metis list.exhaust pc_shape.simps(2))
  then show ?thesis
    using notifier_steps [of s j sig sigs' r] U_notify j by blast
qed (use j in simp_all)

end
