(* ===== verification/Mutex_Properties.thy ===== *)
theory Mutex_Properties
  imports Mutex_Monitor
begin

text \<open>
  What holds of \<open>MutexQueue\<close> under every interleaving of any number of threads: its calls are
  linearizable to the abstract queue, and no wake-up is lost, as long as the element's move
  assignment does not throw; if it may throw, one can be.
\<close>

section \<open>A sample run\<close>

text \<open>
  Threads 1 and 2 call \<^verbatim>\<open>pop\<close> on an empty queue of capacity 1 and go to sleep; thread 0 pushes
  5 and is about to notify.
\<close>

abbreviation one_slot :: "int \<Rightarrow> usize \<Rightarrow> signal list \<Rightarrow> int mutex_queue" where
  "one_slot v n sigs \<equiv> \<lparr>mq_buffer = [v], mq_head = 0, mq_tail = 0, mq_size = n, mq_closed = False, mq_signals = sigs\<rparr>"

lemma mutex_new_one: "mutex_new 4 (0::int) 1 = Inr (one_slot 0 0 [])"
  by (simp add: mutex_new_def vector_new_def vector_max_size_def replicate_small)

abbreviation three :: "int mutex_queue \<Rightarrow> nat option \<Rightarrow> int mutex_pc \<Rightarrow> int mutex_pc \<Rightarrow> int mutex_pc \<Rightarrow>
    (int call \<times> int reply) list \<Rightarrow> int mutex_sys" where
  "three q h pc0 pc1 pc2 xs \<equiv>
     \<lparr>mqueue = q, holder = h, upc = (\<lambda>_. U_idle None)(0 := pc0, 1 := pc1, 2 := pc2), history = xs\<rparr>"

lemma monitor_run: "mutex_reachable mv n s \<Longrightarrow> u_step mv i s t \<Longrightarrow> t = u \<Longrightarrow> mutex_reachable mv n u"
  using mutex_reachable.step by blast

definition mutex_pushed :: "int mutex_sys" where
  "mutex_pushed = three (one_slot 5 1 []) None (U_notify [Notify_one_not_empty] (Flag True)) (U_wait (Do_pop (- 1)))
     (U_wait (Do_pop 0)) [(Try_push 5, Flag True)]"

lemmas section_defs = not_full_or_closed_locked_def not_empty_or_closed_locked_def enqueue_locked_def dequeue_locked_def
  leave_push_def leave_pop_def mutex_next_def vector_size_def after_def fun_eq_iff

lemma mutex_pushed_reachable:
  assumes "mv 0 5 = Moved 5 (5::int)"
  shows "mutex_reachable mv 1 mutex_pushed"
proof -
  let ?e = "one_slot 0 0 []" and ?i = "U_idle None :: int mutex_pc"
  let ?w1 = "U_wait (Do_pop (- 1)) :: int mutex_pc" and ?w2 = "U_wait (Do_pop 0) :: int mutex_pc"
  have "mutex_reachable mv 1 (mutex_start ?e)"
    by (rule mutex_reachable.start [OF mutex_new_one]) simp
  then have "mutex_reachable mv 1 (three ?e None ?i (U_lock (Do_pop (- 1)) False) ?i [])"
    by (rule monitor_run [OF _ call [of _ 1 None _ "Do_pop (- 1)"]]) (simp_all add: mutex_start_def fun_eq_iff)
  then have "mutex_reachable mv 1 (three ?e (Some 1) ?i (U_section (Do_pop (- 1)) False) ?i [])"
    by (rule monitor_run [OF _ acquire [of _ 1 "Do_pop (- 1)" False]]) (simp_all add: fun_eq_iff)
  then have "mutex_reachable mv 1 (three ?e None ?i ?w1 ?i [])"
    by (rule monitor_run [OF _ sleep [of _ 1 "Do_pop (- 1)" False]]) (simp_all add: section_defs)
  then have "mutex_reachable mv 1 (three ?e None ?i ?w1 (U_lock (Do_pop 0) False) [])"
    by (rule monitor_run [OF _ call [of _ 2 None _ "Do_pop 0"]]) (simp_all add: fun_eq_iff)
  then have "mutex_reachable mv 1 (three ?e (Some 2) ?i ?w1 (U_section (Do_pop 0) False) [])"
    by (rule monitor_run [OF _ acquire [of _ 2 "Do_pop 0" False]]) (simp_all add: fun_eq_iff)
  then have "mutex_reachable mv 1 (three ?e None ?i ?w1 ?w2 [])"
    by (rule monitor_run [OF _ sleep [of _ 2 "Do_pop 0" False]]) (simp_all add: section_defs)
  then have "mutex_reachable mv 1 (three ?e None (U_lock (Do_push 5) False) ?w1 ?w2 [])"
    by (rule monitor_run [OF _ call [of _ 0 None _ "Do_push 5"]]) (simp_all add: fun_eq_iff)
  then have "mutex_reachable mv 1 (three ?e (Some 0) (U_section (Do_push 5) False) ?w1 ?w2 [])"
    by (rule monitor_run [OF _ acquire [of _ 0 "Do_push 5" False]]) (simp_all add: fun_eq_iff)
  then show ?thesis
    by (rule monitor_run [OF _ leave [of _ 0 "Do_push 5" False mv "Flag True" "one_slot 5 1 []" "[Notify_one_not_empty]"]])
      (simp_all add: section_defs mutex_pushed_def assms)
qed

text \<open>
  An element type whose move assignment throws when the destination is negative. Thread 1
  pops into such a destination: it is woken by the notification and throws.
\<close>

definition brittle_move :: "int move" where
  "brittle_move d s = (if d < 0 then Move_threw d s else Moved s s)"

interpretation brittle: move_assignable brittle_move
  by unfold_locales (simp add: brittle_move_def split: if_splits)

definition mutex_stranded :: "int mutex_sys" where
  "mutex_stranded = three (one_slot 5 1 [Notify_one_not_empty]) None (U_idle (Some (Flag True))) (U_idle None)
     (U_wait (Do_pop 0)) [(Try_push 5, Flag True)]"

lemma mutex_stranded_reachable: "mutex_reachable brittle_move 1 mutex_stranded"
proof -
  let ?q = "one_slot 5 1 [Notify_one_not_empty]" and ?r = "U_idle (Some (Flag True)) :: int mutex_pc"
  let ?w2 = "U_wait (Do_pop 0) :: int mutex_pc" and ?h = "[(Try_push 5, Flag True)] :: (int call \<times> int reply) list"
  have "mutex_reachable brittle_move 1 mutex_pushed"
    by (rule mutex_pushed_reachable) (simp add: brittle_move_def)
  then have "mutex_reachable brittle_move 1 (three ?q None ?r (U_lock (Do_pop (- 1)) False) ?w2 ?h)"
    by (rule monitor_run [OF _ notify_one [of _ 0 Notify_one_not_empty "[]" "Flag True" 1]])
      (simp_all add: mutex_pushed_def to_one_def reaches_def mutex_notify_def after_def fun_eq_iff)
  then have "mutex_reachable brittle_move 1 (three ?q (Some 1) ?r (U_section (Do_pop (- 1)) False) ?w2 ?h)"
    by (rule monitor_run [OF _ acquire [of _ 1 "Do_pop (- 1)" False]]) (simp_all add: fun_eq_iff)
  then show ?thesis
    by (rule monitor_run [OF _ escape [of _ 1 "Do_pop (- 1)" False _ Move_assignment_failed ?q]])
      (simp_all add: section_defs mutex_stranded_def brittle_move_def)
qed

section \<open>Properties\<close>

text \<open>
  C4. Any number of threads calling \<^verbatim>\<open>push\<close>, \<^verbatim>\<open>try_push\<close>, \<^verbatim>\<open>try_push_for\<close>, \<^verbatim>\<open>pop\<close>,
  \<^verbatim>\<open>try_pop\<close>, \<^verbatim>\<open>try_pop_for\<close>, \<^verbatim>\<open>close\<close>, \<^verbatim>\<open>closed\<close> and \<^verbatim>\<open>size\<close> of one \<open>MutexQueue\<close> in
  every interleaving, with time-outs and spurious wake-ups: at most one thread is in a
  critical section, and the replies, in the order of the critical sections that produced
  them, are those of the abstract queue, whose final state the queue represents. As a
  call's critical section lies between its invocation and its return, the calls are
  linearizable.
\<close>

theorem mutex_linearizable:
  assumes "mutex_reachable mv capacity s" and "nothrow_move_assignable mv"
  shows "fifo_run (map fst (history s)) \<lparr>items = [], bound = unat capacity, shut = False\<rparr> =
      (map snd (history s), mutex_view (mqueue s)) \<and>
    mutex_wf (mqueue s) \<and> (\<forall>i j. inside (upc s i) \<and> inside (upc s j) \<longrightarrow> i = j)"
proof -
  have "monitor_inv capacity s"
    using mutex_reachable_monitor [OF assms(1)] nothrow_move_assignable.axioms(1) [OF assms(2)] by blast
  then show ?thesis
    using mutex_reachable_linear [OF assms] by (auto simp: linear_inv_def monitor_inv_def)
qed

theorem mutex_linearizable_witness:
  "fifo_run [Try_push 5] \<lparr>items = [], bound = 1, shut = False\<rparr> = ([Flag True], mutex_view (mqueue mutex_pushed))"
  using mutex_linearizable [OF mutex_pushed_reachable [of scalar_move] scalar.nothrow_move_assignable_axioms]
  by (simp add: mutex_pushed_def scalar_move_def)

text \<open>
  C5. No lost wake-up: if a thread is asleep in \<^verbatim>\<open>pop\<close> or \<^verbatim>\<open>try_pop_for\<close> while the queue is
  nonempty or closed, or asleep in \<^verbatim>\<open>push\<close> or \<^verbatim>\<open>try_push_for\<close> while it is not full or
  closed, then some thread that is awake in the middle of a call can take a step. While the
  queue is open there are even at least as many threads awake for a pop (or about to notify
  one) as there are items, and as many for a push as there are free slots. So a blocked
  call never depends on a later call, a time-out or a spurious wake-up to notice that it
  may go on.
\<close>

theorem mutex_no_lost_wakeup:
  assumes "mutex_reachable mv capacity s" and "nothrow_move_assignable mv"
  shows "(asleep_not_empty (upc s i) \<and> not_empty_or_closed_locked (mqueue s) \<longrightarrow>
      (\<exists>k t. awake (upc s k) \<and> u_step mv k s t) \<and>
      (mq_closed (mqueue s) \<or> unat (mq_size (mqueue s)) \<le> card (at token_not_empty (upc s)))) \<and>
    (asleep_not_full (upc s i) \<and> not_full_or_closed_locked (mqueue s) \<longrightarrow>
      (\<exists>k t. awake (upc s k) \<and> u_step mv k s t) \<and>
      (mq_closed (mqueue s) \<or> unat capacity - unat (mq_size (mqueue s)) \<le> card (at token_not_full (upc s))))"
proof -
  have mv: "move_assignable mv"
    by (rule nothrow_move_assignable.axioms(1) [OF assms(2)])
  note inv = mutex_reachable_monitor [OF assms(1) mv]
  have wf: "mutex_wf (mqueue s)" and N: "length (mq_buffer (mqueue s)) = unat capacity"
    using inv by (simp_all add: monitor_inv_def)
  note W = mutex_reachable_wakeups [OF assms, unfolded wakeup_inv_def attended_defs mutex_view_sel length_ring_items]
  have "\<exists>k t. awake (upc s k) \<and> u_step mv k s t" if "asleep_not_empty (upc s i)" "not_empty_or_closed_locked (mqueue s)"
  proof -
    have "mq_closed (mqueue s) \<or> 0 < unat (mq_size (mqueue s))"
      using that(2) by (simp add: not_empty_or_closed_locked_def word_less_nat_alt)
    from not_empty.somebody_awake [OF conjunct1 [OF W] that(1) this] show ?thesis
      using holds_awake awake_progress [OF inv mv] by blast
  qed
  moreover have "\<exists>k t. awake (upc s k) \<and> u_step mv k s t" if "asleep_not_full (upc s i)" "not_full_or_closed_locked (mqueue s)"
  proof -
    have "mq_closed (mqueue s) \<or> 0 < length (mq_buffer (mqueue s)) - unat (mq_size (mqueue s))"
      using that(2) mutex_room_iff [OF wf] wf by (auto simp: not_full_or_closed_locked_def fifo_full_def mutex_wf_def)
    from not_full.somebody_awake [OF conjunct2 [OF W] that(1) this] show ?thesis
      using holds_awake awake_progress [OF inv mv] by blast
  qed
  ultimately show ?thesis
    using W N unfolding attended_def by (auto split: if_splits)
qed

theorem mutex_no_lost_wakeup_witness: "\<exists>k t. awake (upc mutex_pushed k) \<and> u_step scalar_move k mutex_pushed t"
  using mutex_no_lost_wakeup [OF mutex_pushed_reachable [of scalar_move] scalar.nothrow_move_assignable_axioms, of 2]
  by (simp add: mutex_pushed_def scalar_move_def not_empty_or_closed_locked_def)

text \<open>
  C27. If the element's move assignment may throw, a wake-up can be lost: a \<^verbatim>\<open>pop\<close> that was
  woken and then throws passes the notification on to nobody. There is a reachable state in
  which a thread sleeps in \<^verbatim>\<open>pop\<close> on an open queue that holds an item, and no other thread
  is in a call: it sleeps until some later push, close or spurious wake-up.
\<close>

theorem mutex_throw_strands_waiter:
  "move_assignable brittle_move \<and>
   (\<exists>s. mutex_reachable brittle_move 1 s \<and> upc s 2 = U_wait (Do_pop 0) \<and> not_empty_or_closed_locked (mqueue s) \<and>
      \<not> mq_closed (mqueue s) \<and> holder s = None \<and> {j. \<forall>r. upc s j \<noteq> U_idle r} = {2})"
  using mutex_stranded_reachable brittle.move_assignable_axioms
  by (intro conjI exI [of _ mutex_stranded]) (auto simp: mutex_stranded_def not_empty_or_closed_locked_def)

end
