(* ===== verification/Bench_Harness.thy ===== *)
theory Bench_Harness
  imports Complex_Main Mutex_Queue Spsc_Queue Mpmc_Queue
begin

text \<open>
  The benchmark harness (bench/queue_bench.cpp, bench/try_operation.hpp): the shape a queue
  is adapted to, the half-full start, the bodies of the benchmarks and the table of what is
  registered. Time is not modelled: a benchmark is what its threads do, not how fast. One
  call of a queue is one step here, which for threads at work at the same time is the
  abstraction that the concurrent models of the queues justify.
\<close>

section \<open>The shape of a benchmarked queue\<close>

text \<open>
  A blocking call that cannot go on is \<open>Waiting\<close>. Elements are \<^verbatim>\<open>std::uint64_t\<close>. The
  non-blocking sweeps also need \<^verbatim>\<open>try_pop\<close>, which the external adapters do not have.
\<close>

record 'q bench_queue =
  bq_new :: "usize \<Rightarrow> exn + 'q"
  bq_push :: "usize \<Rightarrow> 'q \<Rightarrow> ('q, bool) outcome"
  bq_try_push :: "usize \<Rightarrow> 'q \<Rightarrow> ('q, bool) outcome"
  bq_pop :: "usize \<Rightarrow> 'q \<Rightarrow> ('q \<times> usize, bool) outcome"

record 'q try_queue = "'q bench_queue" +
  bq_try_pop :: "usize \<Rightarrow> 'q \<Rightarrow> ('q \<times> usize, bool) outcome"

definition mutex_bench :: "usize mutex_queue try_queue" where
  "mutex_bench =
     \<lparr>bq_new = mutex_new 8 0, bq_push = mutex_push [] scalar_move, bq_try_push = mutex_try_push scalar_move,
      bq_pop = mutex_pop [] scalar_move, bq_try_pop = mutex_try_pop scalar_move\<rparr>"

definition spsc_bench :: "usize spsc_queue try_queue" where
  "spsc_bench =
     \<lparr>bq_new = spsc_new 8 0, bq_push = spsc_push [] scalar_move, bq_try_push = spsc_try_push scalar_move,
      bq_pop = spsc_pop [] scalar_move, bq_try_pop = spsc_try_pop scalar_move\<rparr>"

definition mpmc_bench :: "bool list \<Rightarrow> usize mpmc_queue try_queue" where
  "mpmc_bench cas =
     \<lparr>bq_new = mpmc_new 16 0, bq_push = mpmc_push cas [] scalar_move, bq_try_push = mpmc_try_push cas scalar_move,
      bq_pop = mpmc_pop cas cas [] scalar_move, bq_try_pop = mpmc_try_pop cas scalar_move\<rparr>"

text \<open>
  The adapters of the external queues. What the adapters call is a parameter: the members of
  \<^verbatim>\<open>tbb::concurrent_bounded_queue\<close> and of \<^verbatim>\<open>moodycamel::ConcurrentQueue\<close>.
\<close>

record 'q tbb_queue =
  tbb_empty :: 'q
  tbb_set_capacity :: "int \<Rightarrow> 'q \<Rightarrow> 'q"
  tbb_push :: "usize \<Rightarrow> 'q \<Rightarrow> ('q, unit) outcome"
  tbb_try_push :: "usize \<Rightarrow> 'q \<Rightarrow> ('q, bool) outcome"
  tbb_pop :: "usize \<Rightarrow> 'q \<Rightarrow> ('q \<times> usize, unit) outcome"

definition TbbBoundedQueue :: "'q tbb_queue \<Rightarrow> 'q bench_queue" where
  "TbbBoundedQueue t =
     \<lparr>bq_new = (\<lambda>capacity. Inr (tbb_set_capacity t (sint capacity) (tbb_empty t))),
      bq_push = (\<lambda>v q. map_outcome id (\<lambda>_. True) (tbb_push t v q)),
      bq_try_push = tbb_try_push t,
      bq_pop = (\<lambda>out q. map_outcome id (\<lambda>_. True) (tbb_pop t out q))\<rparr>"

record 'q moodycamel_queue =
  mc_sized :: "usize \<Rightarrow> 'q"
  mc_enqueue :: "usize \<Rightarrow> 'q \<Rightarrow> ('q, bool) outcome"
  mc_try_dequeue :: "usize \<Rightarrow> 'q \<Rightarrow> ('q \<times> usize, bool) outcome"

text \<open>\<open>es\<close>: what other threads do during each yield of the polling loop.\<close>

fun moodycamel_pop :: "'q moodycamel_queue \<Rightarrow> ('q \<Rightarrow> 'q) list \<Rightarrow> usize \<Rightarrow> 'q \<Rightarrow> ('q \<times> usize, bool) outcome" where
  "moodycamel_pop m es out q =
     (case mc_try_dequeue m out q of
        Done True s \<Rightarrow> Done True s
      | Done False (q', out') \<Rightarrow> (case es of [] \<Rightarrow> Waiting (q', out') | e # es' \<Rightarrow> moodycamel_pop m es' out' (e q'))
      | Raised e s \<Rightarrow> Raised e s
      | Crash \<Rightarrow> Crash
      | Waiting s \<Rightarrow> Waiting s)"

definition MoodycamelQueue :: "'q moodycamel_queue \<Rightarrow> 'q bench_queue" where
  "MoodycamelQueue m =
     \<lparr>bq_new = (\<lambda>capacity. Inr (mc_sized m capacity)), bq_push = mc_enqueue m, bq_try_push = mc_enqueue m,
      bq_pop = moodycamel_pop m []\<rparr>"

section \<open>Constants and the half-full start\<close>

definition kCapacity :: usize where "kCapacity = 1024"
definition kBulkBatch :: usize where "kBulkBatch = 64"
definition kSpscThreads :: nat where "kSpscThreads = 2"
definition kMpmcThreads :: nat where "kMpmcThreads = 8"
definition paired_threads :: bool where "paired_threads \<longleftrightarrow> kSpscThreads mod 2 = 0 \<and> kMpmcThreads mod 2 = 0"
definition capacity_sweep :: "int list" where "capacity_sweep = [1, 2, 8, 64, 1024]"

text \<open>How the set-up ends; \<open>Setup_stuck\<close>: in a call that is undefined or does not return.\<close>

datatype 'q install = Installed 'q | Setup_threw exn | Aborted | Setup_stuck

function prefill :: "('q, 'x) bench_queue_scheme \<Rightarrow> usize \<Rightarrow> usize \<Rightarrow> 'q \<Rightarrow> 'q install" where
  "prefill b half i q =
     (if i < half
      then (case bq_try_push b i q of
              Done True q' \<Rightarrow> prefill b half (i + 1) q'
            | Done False q' \<Rightarrow> Aborted
            | Raised e q' \<Rightarrow> Setup_threw e
            | Crash \<Rightarrow> Setup_stuck
            | Waiting q' \<Rightarrow> Setup_stuck)
      else Installed q)"
  by auto

termination prefill
proof (relation "measure (\<lambda>(b, half, i, q). unat half - unat i)")
  fix half i :: usize
  assume "i < half"
  then have lt: "unat i < unat half"
    by (simp add: word_less_nat_alt)
  moreover have "unat half < 2 ^ 64"
    using unsigned_less [of half] by simp
  ultimately have "unat (i + 1) = unat i + 1"
    by (intro unat_succ) simp
  with lt show "((b, half, i + 1, q'), b, half, i, q) \<in> measure (\<lambda>(b, half, i, q). unat half - unat i)" for b q' q
    by simp
qed simp

declare prefill.simps [simp del]

definition install_half_full_queue :: "('q, 'x) bench_queue_scheme \<Rightarrow> usize \<Rightarrow> 'q install" where
  "install_half_full_queue b capacity =
     (case bq_new b capacity of Inl e \<Rightarrow> Setup_threw e | Inr q \<Rightarrow> prefill b (capacity div 2) 0 q)"

text \<open>The two hooks: the fixed capacity, and the capacity of the registered argument.\<close>

definition setup_queue :: "('q, 'x) bench_queue_scheme \<Rightarrow> 'q install" where
  "setup_queue b = install_half_full_queue b kCapacity"

definition setup_queue_at_capacity :: "('q, 'x) bench_queue_scheme \<Rightarrow> int \<Rightarrow> 'q install" where
  "setup_queue_at_capacity b range0 = install_half_full_queue b (word_of_int range0)"

text \<open>
  \<^verbatim>\<open>shared_queue\<close> between runs, as a pointer: \<open>None\<close> is the null pointer, and a reset destroys the
  queue with what is left in it.
\<close>

definition teardown_queue :: "'q option \<Rightarrow> 'q option" where
  "teardown_queue p = None"

section \<open>Retrying\<close>

text \<open>\<open>es\<close>: what other threads do during each yield.\<close>

fun count_failures_until_success ::
  "('s \<Rightarrow> ('s, bool) outcome) \<Rightarrow> ('s \<Rightarrow> 's) list \<Rightarrow> usize \<Rightarrow> 's \<Rightarrow> ('s, usize) outcome" where
  "count_failures_until_success operation es failures s =
     (case operation s of
        Done True s' \<Rightarrow> Done failures s'
      | Done False s' \<Rightarrow>
          (case es of
             [] \<Rightarrow> Waiting s'
           | e # es' \<Rightarrow> count_failures_until_success operation es' (failures + 1) (e s'))
      | Raised e s' \<Rightarrow> Raised e s'
      | Crash \<Rightarrow> Crash
      | Waiting s' \<Rightarrow> Waiting s')"

declare count_failures_until_success.simps [simp del] moodycamel_pop.simps [simp del]

section \<open>The threads of a benchmark\<close>

text \<open>
  The state of a running benchmark: the shared queue and, for each thread, the iterations
  its loop still has to make, the next item of a producer, the last value of a consumer and
  the failed attempts counted so far.
\<close>

record 'q bench_sys =
  shared :: 'q
  left :: "nat \<Rightarrow> nat"
  item :: "nat \<Rightarrow> usize"
  got :: "nat \<Rightarrow> usize"
  retries :: "nat \<Rightarrow> usize"

definition is_producer :: "nat \<Rightarrow> nat \<Rightarrow> bool" where
  "is_producer threads i \<longleftrightarrow> i < threads div 2"

definition bench_start :: "nat \<Rightarrow> nat \<Rightarrow> 'q \<Rightarrow> 'q bench_sys" where
  "bench_start threads iterations q =
     \<lparr>shared = q, left = (\<lambda>i. if i < threads then iterations else 0), item = (\<lambda>_. 0), got = (\<lambda>_. 0),
      retries = (\<lambda>_. 0)\<rparr>"

text \<open>A call that has to wait makes no step: the thread stays where it is until another one moves.\<close>

inductive throughput_step :: "('q, 'x) bench_queue_scheme \<Rightarrow> nat \<Rightarrow> nat \<Rightarrow> 'q bench_sys \<Rightarrow> 'q bench_sys \<Rightarrow> bool"
  for b :: "('q, 'x) bench_queue_scheme" and threads :: nat where
  push: "is_producer threads i \<Longrightarrow> left s i = Suc m \<Longrightarrow> bq_push b (item s i) (shared s) = Done r q \<Longrightarrow>
    throughput_step b threads i s
      (s\<lparr>shared := q, left := (left s)(i := m), item := (item s)(i := item s i + 1)\<rparr>)"
| pop: "i < threads \<Longrightarrow> \<not> is_producer threads i \<Longrightarrow> left s i = Suc m \<Longrightarrow>
    bq_pop b (got s i) (shared s) = Done r (q, v) \<Longrightarrow>
    throughput_step b threads i s (s\<lparr>shared := q, left := (left s)(i := m), got := (got s)(i := v)\<rparr>)"

text \<open>One attempt of \<open>count_failures_until_success\<close> is one step; a failed one stays in its iteration.\<close>

inductive try_throughput_step :: "('q, 'x) try_queue_scheme \<Rightarrow> nat \<Rightarrow> nat \<Rightarrow> 'q bench_sys \<Rightarrow> 'q bench_sys \<Rightarrow> bool"
  for b :: "('q, 'x) try_queue_scheme" and threads :: nat where
  push_ok: "is_producer threads i \<Longrightarrow> left s i = Suc m \<Longrightarrow> bq_try_push b (item s i) (shared s) = Done True q \<Longrightarrow>
    try_throughput_step b threads i s
      (s\<lparr>shared := q, left := (left s)(i := m), item := (item s)(i := item s i + 1)\<rparr>)"
| push_retry: "is_producer threads i \<Longrightarrow> left s i = Suc m \<Longrightarrow>
    bq_try_push b (item s i) (shared s) = Done False q \<Longrightarrow>
    try_throughput_step b threads i s (s\<lparr>shared := q, retries := (retries s)(i := retries s i + 1)\<rparr>)"
| pop_ok: "i < threads \<Longrightarrow> \<not> is_producer threads i \<Longrightarrow> left s i = Suc m \<Longrightarrow>
    bq_try_pop b (got s i) (shared s) = Done True (q, v) \<Longrightarrow>
    try_throughput_step b threads i s (s\<lparr>shared := q, left := (left s)(i := m), got := (got s)(i := v)\<rparr>)"
| pop_retry: "i < threads \<Longrightarrow> \<not> is_producer threads i \<Longrightarrow> left s i = Suc m \<Longrightarrow>
    bq_try_pop b (got s i) (shared s) = Done False (q, v) \<Longrightarrow>
    try_throughput_step b threads i s
      (s\<lparr>shared := q, got := (got s)(i := v), retries := (retries s)(i := retries s i + 1)\<rparr>)"

inductive bench_reachable :: "('i \<Rightarrow> 's \<Rightarrow> 's \<Rightarrow> bool) \<Rightarrow> 's \<Rightarrow> 's \<Rightarrow> bool" for step and s where
  start: "bench_reachable step s s"
| move: "bench_reachable step s t \<Longrightarrow> step i t u \<Longrightarrow> bench_reachable step s u"

definition completed :: "nat \<Rightarrow> 'q bench_sys \<Rightarrow> bool" where
  "completed threads s \<longleftrightarrow> (\<forall>i<threads. left s i = 0)"

text \<open>
  The uncontended round trip: one thread pushes 1 and pops it again. It is the only user, so
  a call that had to wait would wait for ever.
\<close>

fun single_thread_loop :: "('q, 'x) bench_queue_scheme \<Rightarrow> nat \<Rightarrow> usize \<Rightarrow> 'q \<Rightarrow> ('q \<times> usize, unit) outcome" where
  "single_thread_loop b 0 value q = Done () (q, value)"
| "single_thread_loop b (Suc n) value q =
     (case bq_push b 1 q of
        Done _ q1 \<Rightarrow>
          (case bq_pop b value q1 of
             Done _ (q2, value') \<Rightarrow> single_thread_loop b n value' q2
           | Raised e s \<Rightarrow> Raised e s
           | Crash \<Rightarrow> Crash
           | Waiting s \<Rightarrow> Waiting s)
      | Raised e q1 \<Rightarrow> Raised e (q1, value)
      | Crash \<Rightarrow> Crash
      | Waiting q1 \<Rightarrow> Waiting (q1, value))"

definition BM_QueuePushPopSingleThread ::
  "('q, 'x) bench_queue_scheme \<Rightarrow> nat \<Rightarrow> (exn + ('q \<times> usize, unit) outcome) \<times> nat" where
  "BM_QueuePushPopSingleThread b iterations =
     ((case bq_new b kCapacity of Inl e \<Rightarrow> Inl e | Inr q \<Rightarrow> Inr (single_thread_loop b iterations 0 q)),
      iterations * 2)"

section \<open>The bulk benchmark\<close>

text \<open>Thread 0 produces, thread 1 consumes; \<open>done\<close> counts within the running batch.\<close>

record bulk_sys =
  bulk_shared :: "usize spsc_queue"
  bulk_left :: "bool \<Rightarrow> nat"
  bulk_done :: "bool \<Rightarrow> usize"
  bulk_buf :: "bool \<Rightarrow> usize list"

definition bulk_start :: "nat \<Rightarrow> usize spsc_queue \<Rightarrow> bulk_sys" where
  "bulk_start iterations q =
     \<lparr>bulk_shared = q, bulk_left = (\<lambda>_. iterations), bulk_done = (\<lambda>_. 0), bulk_buf = (\<lambda>_. replicate (unat kBulkBatch) 0)\<rparr>"

text \<open>What a call that moved \<open>count\<close> items leaves of the batch: its end ends the iteration.\<close>

definition bulk_advance :: "bool \<Rightarrow> usize \<Rightarrow> bulk_sys \<Rightarrow> bulk_sys" where
  "bulk_advance side count s =
     (let d = bulk_done s side + count in
      if d < kBulkBatch then s\<lparr>bulk_done := (bulk_done s)(side := d)\<rparr>
      else s\<lparr>bulk_done := (bulk_done s)(side := 0), bulk_left := (bulk_left s)(side := bulk_left s side - 1)\<rparr>)"

definition put_subspan :: "usize \<Rightarrow> usize list \<Rightarrow> usize list \<Rightarrow> usize list" where
  "put_subspan d span' buf = take (unat d) buf @ span'"

inductive bulk_step :: "bool \<Rightarrow> bulk_sys \<Rightarrow> bulk_sys \<Rightarrow> bool" where
  bulk_push: "0 < bulk_left s True \<Longrightarrow>
    try_push_n scalar_move (drop (unat (bulk_done s True)) (bulk_buf s True)) (bulk_shared s) = Done count (q, xs) \<Longrightarrow>
    bulk_step True s (bulk_advance True count
      (s\<lparr>bulk_shared := q, bulk_buf := (bulk_buf s)(True := put_subspan (bulk_done s True) xs (bulk_buf s True))\<rparr>))"
| bulk_pop: "0 < bulk_left s False \<Longrightarrow>
    try_pop_n scalar_move (drop (unat (bulk_done s False)) (bulk_buf s False)) (bulk_shared s) = Done count (q, xs) \<Longrightarrow>
    bulk_step False s (bulk_advance False count
      (s\<lparr>bulk_shared := q, bulk_buf := (bulk_buf s)(False := put_subspan (bulk_done s False) xs (bulk_buf s False))\<rparr>))"

definition bulk_completed :: "bulk_sys \<Rightarrow> bool" where
  "bulk_completed s \<longleftrightarrow> bulk_left s True = 0 \<and> bulk_left s False = 0"

section \<open>What a thread reports\<close>

text \<open>Numbers of type \<^verbatim>\<open>double\<close> are taken as reals.\<close>

definition items_processed :: "nat \<Rightarrow> nat \<Rightarrow> real" where
  "items_processed iterations threads = real (iterations * threads)"

definition bulk_items_processed :: "nat \<Rightarrow> nat \<Rightarrow> real" where
  "bulk_items_processed iterations threads = real (iterations * unat kBulkBatch * threads)"

definition side_retries :: "usize \<Rightarrow> real" where
  "side_retries r = 2 * real (unat r)"

definition push_retries_counter :: "nat \<Rightarrow> (nat \<Rightarrow> usize) \<Rightarrow> nat \<Rightarrow> real" where
  "push_retries_counter threads r i = (if is_producer threads i then side_retries (r i) else 0)"

definition pop_retries_counter :: "nat \<Rightarrow> (nat \<Rightarrow> usize) \<Rightarrow> nat \<Rightarrow> real" where
  "pop_retries_counter threads r i = (if is_producer threads i then 0 else side_retries (r i))"

definition retries_counter :: "(nat \<Rightarrow> usize) \<Rightarrow> nat \<Rightarrow> real" where
  "retries_counter r i = real (unat (r i))"

section \<open>What is registered\<close>

datatype queue_kind = Mutex_kind | Spsc_kind | Mpmc_kind | Tbb_kind | Moodycamel_kind

datatype bench_body = Queue_throughput | Spsc_bulk_throughput | Queue_try_throughput | Push_pop_single_thread

datatype bench_setup = No_setup | Setup_queue | Setup_queue_at_capacity

record registration =
  reg_body :: bench_body
  reg_queue :: queue_kind
  reg_setup :: bench_setup
  reg_teardown :: bool
  reg_args :: "int list"
  reg_threads :: "nat list"
  reg_real_time :: bool
  reg_min_time :: real
  reg_name :: string

definition kMinTimeSeconds :: real where "kMinTimeSeconds = 1"

definition throughput_registration :: "queue_kind \<Rightarrow> nat list \<Rightarrow> string \<Rightarrow> registration" where
  "throughput_registration k threads name =
     \<lparr>reg_body = Queue_throughput, reg_queue = k, reg_setup = Setup_queue, reg_teardown = True,
      reg_args = [], reg_threads = threads, reg_real_time = True, reg_min_time = kMinTimeSeconds, reg_name = name\<rparr>"

definition bulk_registration :: registration where
  "bulk_registration =
     \<lparr>reg_body = Spsc_bulk_throughput, reg_queue = Spsc_kind, reg_setup = Setup_queue, reg_teardown = True, reg_args = [],
      reg_threads = [kSpscThreads], reg_real_time = True, reg_min_time = kMinTimeSeconds,
      reg_name = ''SpscQueue/bulk64_throughput''\<rparr>"

definition try_registration :: "queue_kind \<Rightarrow> string \<Rightarrow> registration" where
  "try_registration k name =
     \<lparr>reg_body = Queue_try_throughput, reg_queue = k, reg_setup = Setup_queue_at_capacity, reg_teardown = True,
      reg_args = capacity_sweep, reg_threads = [kSpscThreads], reg_real_time = True, reg_min_time = kMinTimeSeconds, reg_name = name\<rparr>"

text \<open>A benchmark registered without a thread count runs on one thread.\<close>

definition single_registration :: "queue_kind \<Rightarrow> string \<Rightarrow> registration" where
  "single_registration k name =
     \<lparr>reg_body = Push_pop_single_thread, reg_queue = k, reg_setup = No_setup, reg_teardown = False,
      reg_args = [], reg_threads = [1], reg_real_time = True, reg_min_time = kMinTimeSeconds, reg_name = name\<rparr>"

definition throughput_registrations :: "registration list" where
  "throughput_registrations =
     [throughput_registration Mutex_kind [kSpscThreads, kMpmcThreads] ''MutexQueue/throughput'',
      throughput_registration Spsc_kind [kSpscThreads] ''SpscQueue/throughput'',
      bulk_registration,
      throughput_registration Mpmc_kind [kSpscThreads, kMpmcThreads] ''MpmcQueue/throughput'',
      throughput_registration Tbb_kind [kSpscThreads, kMpmcThreads] ''TbbBoundedQueue/throughput'',
      throughput_registration Moodycamel_kind [kSpscThreads, kMpmcThreads] ''MoodycamelQueue/throughput'']"

definition try_registrations :: "registration list" where
  "try_registrations =
     [try_registration Mutex_kind ''MutexQueue/try_throughput'',
      try_registration Spsc_kind ''SpscQueue/try_throughput'',
      try_registration Mpmc_kind ''MpmcQueue/try_throughput'']"

definition single_registrations :: "registration list" where
  "single_registrations =
     [single_registration Mutex_kind ''MutexQueue/single_thread_roundtrip'',
      single_registration Spsc_kind ''SpscQueue/single_thread_roundtrip'',
      single_registration Mpmc_kind ''MpmcQueue/single_thread_roundtrip'',
      single_registration Tbb_kind ''TbbBoundedQueue/single_thread_roundtrip'',
      single_registration Moodycamel_kind ''MoodycamelQueue/single_thread_roundtrip'']"

text \<open>What a run leaves in \<^verbatim>\<open>shared_queue\<close>.\<close>

definition shared_after :: "registration \<Rightarrow> 'q option \<Rightarrow> 'q option" where
  "shared_after r p = (if reg_teardown r then teardown_queue p else p)"

definition registrations :: "registration list" where
  "registrations = throughput_registrations @ try_registrations @ single_registrations"

end
