(* ===== verification/Bench_Runs.thy ===== *)
theory Bench_Runs
  imports Bench_Harness
begin

text \<open>
  What the harness relies on in a queue, as the interface \<open>bench_fifo\<close>, interpreted on the
  three queues of the library; and what a run of a benchmark does, proved once inside it:
  the half-full start never aborts, the blocking and the retrying runs move the same items,
  and a run can be completed exactly when the prefill covers what the consumers lack.
\<close>

section \<open>A queue that never reaches its horizon\<close>

text \<open>
  A queue of a power-of-two capacity stays well formed however many pushes there are; that
  is what \<open>\<forall>n. wf n q\<close> says, and every operation keeps it.
\<close>

context blocking_fifo
begin

lemma always_try_push:
  assumes "\<forall>n. wf n q"
  shows "\<exists>q'. op_try_push ops v q = Done (fst (fifo_try_push v (view q))) q' \<and>
    view q' = snd (fifo_try_push v (view q)) \<and> (\<forall>n. wf n q')"
  using try_push_law [of _ q v] assms by (metis outcome.inject(1))

lemma always_try_pop:
  assumes "\<forall>n. wf n q"
  shows "\<exists>q'. op_try_pop ops out q =
      Done (fst (fst (fifo_try_pop out (view q)))) (q', snd (fst (fifo_try_pop out (view q)))) \<and>
    view q' = snd (fifo_try_pop out (view q)) \<and> (\<forall>n. wf n q')"
  using try_pop_law [of _ q out] assms by (metis outcome.inject(1) prod.inject)

lemma always_push:
  assumes "\<forall>n. wf n q" and "\<not> shut (view q)" and "\<not> fifo_full (view q)"
  shows "\<exists>q'. push_at k css v q = Done True q' \<and> view q' = (view q)\<lparr>items := items (view q) @ [v]\<rparr> \<and> (\<forall>n. wf n q')"
  using push_room [of _ q k css v] assms by (metis outcome.inject(1))

lemma always_pop:
  assumes "\<forall>n. wf n q" and "items (view q) = x # xs"
  shows "\<exists>q'. pop_at k css out q = Done True (q', x) \<and> view q' = (view q)\<lparr>items := xs\<rparr> \<and> (\<forall>n. wf n q')"
  using pop_item [of _ q x xs k css out] assms by (metis outcome.inject(1) prod.inject)

lemma always_push_waits:
  "\<forall>n. wf n q \<Longrightarrow> \<not> shut (view q) \<Longrightarrow> fifo_full (view q) \<Longrightarrow> \<exists>q'. push_at k [] v q = Waiting q'"
  using push_wait [of 0 q k v] by blast

lemma always_pop_waits:
  "\<forall>n. wf n q \<Longrightarrow> \<not> shut (view q) \<Longrightarrow> items (view q) = [] \<Longrightarrow> \<exists>q'. pop_at k [] out q = Waiting q'"
  using pop_wait [of 0 q k out] by blast

end

section \<open>The interface the harness relies on\<close>

locale bench_fifo =
  fixes b :: "'q try_queue" and wf :: "'q \<Rightarrow> bool" and view :: "'q \<Rightarrow> usize fifo"
  assumes new_law: "bq_new b c = Inr q \<Longrightarrow> has_single_bit c \<Longrightarrow>
      wf q \<and> view q = \<lparr>items = [], bound = unat c, shut = False\<rparr>"
    and new_swept: "i \<in> set capacity_sweep \<Longrightarrow> \<exists>q. bq_new b (word_of_int i) = Inr q"
    and bounded: "wf q \<Longrightarrow> fifo_ok (view q)"
    and push_room: "wf q \<Longrightarrow> \<not> shut (view q) \<Longrightarrow> \<not> fifo_full (view q) \<Longrightarrow>
      \<exists>q'. bq_push b v q = Done True q' \<and> view q' = (view q)\<lparr>items := items (view q) @ [v]\<rparr> \<and> wf q'"
    and push_full: "wf q \<Longrightarrow> \<not> shut (view q) \<Longrightarrow> fifo_full (view q) \<Longrightarrow> \<exists>q'. bq_push b v q = Waiting q'"
    and pop_item: "wf q \<Longrightarrow> items (view q) = x # xs \<Longrightarrow>
      \<exists>q'. bq_pop b out q = Done True (q', x) \<and> view q' = (view q)\<lparr>items := xs\<rparr> \<and> wf q'"
    and pop_empty: "wf q \<Longrightarrow> \<not> shut (view q) \<Longrightarrow> items (view q) = [] \<Longrightarrow> \<exists>s. bq_pop b out q = Waiting s"
    and try_push_law: "wf q \<Longrightarrow> \<exists>q'. bq_try_push b v q = Done (fst (fifo_try_push v (view q))) q' \<and>
      view q' = snd (fifo_try_push v (view q)) \<and> wf q'"
    and try_pop_law: "wf q \<Longrightarrow> \<exists>q'. bq_try_pop b out q =
        Done (fst (fst (fifo_try_pop out (view q)))) (q', snd (fst (fifo_try_pop out (view q)))) \<and>
      view q' = snd (fifo_try_pop out (view q)) \<and> wf q'"

lemma swept_capacity: "c \<in> set capacity_sweep \<Longrightarrow> c \<in> {1, 2, 8, 64, 1024}"
  by (simp add: capacity_sweep_def)

lemma swept_single_bit:
  assumes "c \<in> set capacity_sweep"
  shows "has_single_bit (word_of_int c)"
proof -
  have "c = 2 ^ 0 \<or> c = 2 ^ 1 \<or> c = 2 ^ 3 \<or> c = 2 ^ 6 \<or> c = 2 ^ 10"
    using swept_capacity [OF assms] by auto
  then obtain k where "k < 64" "c = 2 ^ k"
    by (metis (lifting) numeral_less_iff semiring_norm(76,78,81,79,80,68,77) zero_less_numeral one_less_numeral_iff)
  then show ?thesis
    by (auto simp: has_single_bit_iff)
qed

lemma new_swept_queues:
  assumes "c \<in> set capacity_sweep"
  shows "\<exists>q. mutex_new 8 (0::usize) (word_of_int c) = Inr q"
    and "\<exists>q. spsc_new 8 (0::usize) (word_of_int c) = Inr q"
    and "\<exists>q. mpmc_new 16 (0::usize) (word_of_int c) = Inr q"
  using swept_capacity [OF assms]
  by (auto simp: mutex_new_def spsc_new_def ring_slots_def mpmc_new_def make_slots_def vector_new_def vector_max_size_def)

text \<open>A queue whose members are handed to the harness as they are provides the interface.\<close>

locale handed_over = blocking_fifo ops wf view push_at pop_at push_peer pop_peer
  for ops :: "('q, usize) queue_ops" and wf view push_at pop_at push_peer pop_peer +
  fixes b :: "'q try_queue"
  assumes members: "bq_push b = push_at 0 []" "bq_pop b = pop_at 0 []"
      "bq_try_push b = op_try_push ops" "bq_try_pop b = op_try_pop ops"
    and new_open: "bq_new b c = Inr q \<Longrightarrow> has_single_bit c \<Longrightarrow>
      (\<forall>n. wf n q) \<and> view q = \<lparr>items = [], bound = unat c, shut = False\<rparr>"
    and new_registered: "i \<in> set capacity_sweep \<Longrightarrow> \<exists>q. bq_new b (word_of_int i) = Inr q"

sublocale handed_over \<subseteq> bench: bench_fifo b "\<lambda>q. \<forall>n. wf n q" view
  by unfold_locales
    (simp_all only: members, (fact new_open new_registered always_push always_push_waits always_pop
      always_pop_waits always_try_push always_try_pop | (drule spec, erule wf_ok))+)

interpretation mutex_bench: handed_over "mutex_ops scalar_move" "\<lambda>_. mutex_wf" mutex_view
  "\<lambda>_ css. mutex_push (mutex_others scalar_move css) scalar_move"
  "\<lambda>_ css. mutex_pop (mutex_others scalar_move css) scalar_move" "\<lambda>_. True" "\<lambda>_. True" mutex_bench
  by unfold_locales
    (use mutex_new_wf [of 8 0] new_swept_queues(1) in \<open>auto simp: mutex_bench_def mutex_others_def mutex_ops_def\<close>)

interpretation spsc_bench: handed_over "spsc_ops scalar_move" "\<lambda>_. spsc_wf" spsc_view
  "spsc_push_at scalar_move" "spsc_pop_at scalar_move" consumer_call "\<lambda>_. True" spsc_bench
proof unfold_locales
  show "bq_push spsc_bench = spsc_push_at scalar_move 0 []" "bq_pop spsc_bench = spsc_pop_at scalar_move 0 []"
    using spsc_push_at_0 [of scalar_move "[]"] spsc_pop_at_0 [of scalar_move "[]"]
    by (auto simp: spsc_bench_def spsc_others_def fun_eq_iff)
qed (use spsc_new_wf [of 8 0] new_swept_queues(2) in \<open>auto simp: spsc_bench_def spsc_ops_def\<close>)

locale bench_cas = weak_cas "scalar_move :: usize move" cas for cas

sublocale bench_cas \<subseteq> mpmc_bench: handed_over "mpmc_ops cas scalar_move" mpmc_wf mpmc_view
  "mpmc_push_at cas scalar_move" "mpmc_pop_at cas scalar_move" "\<lambda>_. True" "\<lambda>_. True" "mpmc_bench cas"
proof unfold_locales
  show "bq_push (mpmc_bench cas) = mpmc_push_at cas scalar_move 0 []" "bq_pop (mpmc_bench cas) = mpmc_pop_at cas scalar_move 0 []"
    using mpmc_push_at_0 [of cas scalar_move "[]"] mpmc_pop_at_0 [of cas scalar_move "[]"]
    by (auto simp: mpmc_bench_def mpmc_others_def fun_eq_iff)
qed (use mpmc_new_inv(3) [of 16 0] new_swept_queues(3) in
    \<open>auto simp: mpmc_bench_def mpmc_ops_def intro: mpmc_new_wf [of 16 "0::usize"]\<close>)

interpretation registered_cas: bench_cas "[True, False]"
  by unfold_locales simp

section \<open>The half-full start\<close>

context bench_fifo
begin

lemma prefill_items:
  assumes "wf q" and "view q = \<lparr>items = map of_nat [0..<unat i], bound = B, shut = False\<rparr>"
    and "i \<le> half" and "unat half < B"
  shows "\<exists>q'. prefill b half i q = Installed q' \<and> wf q' \<and>
    view q' = \<lparr>items = map of_nat [0..<unat half], bound = B, shut = False\<rparr>"
  using assms
proof (induction "unat half - unat i" arbitrary: i q)
  case 0
  then have "i = half"
    by (simp add: word_le_nat_alt word_unat_eq_iff)
  with 0 show ?case
    by (simp add: prefill.simps [of b half])
next
  case (Suc n)
  then have lt: "unat i < unat half"
    by simp
  moreover have "unat half < 2 ^ 64"
    using unsigned_less [of half] by simp
  ultimately have i1: "unat (i + 1) = Suc (unat i)"
    using unat_succ [of i] by simp
  obtain q1 where q1: "bq_try_push b i q = Done True q1" "wf q1"
      "view q1 = \<lparr>items = map of_nat [0..<unat (i + 1)], bound = B, shut = False\<rparr>"
    using try_push_law [OF Suc.prems(1), of i] Suc.prems lt i1 by (auto simp: fifo_try_push_def fifo_full_def)
  have "i + 1 \<le> half" "n = unat half - unat (i + 1)"
    using Suc.hyps(2) lt i1 by (auto simp: word_le_nat_alt)
  from Suc.hyps(1) [OF this(2) q1(2,3) this(1) Suc.prems(4)] q1(1) lt show ?case
    by (simp add: prefill.simps [of b half] word_less_nat_alt)
qed

lemma install_items:
  assumes "bq_new b c = Inr q" and "has_single_bit c"
  shows "\<exists>q'. install_half_full_queue b c = Installed q' \<and> wf q' \<and>
    view q' = \<lparr>items = map of_nat [0..<unat c div 2], bound = unat c, shut = False\<rparr>"
proof -
  note N = new_law [OF assms]
  have "0 < unat c"
    using bounded [of q] N by (simp add: fifo_ok_def)
  then have half: "unat (c div 2) < unat c" "unat (c div 2) = unat c div 2"
    by (simp_all add: unat_div_distrib)
  show ?thesis
    using prefill_items [of q 0 "unat c" "c div 2"] N assms(1) half
    by (simp add: install_half_full_queue_def)
qed

lemma install_swept:
  assumes "i \<in> set capacity_sweep"
  shows "\<exists>q. install_half_full_queue b (word_of_int i) = Installed q \<and> wf q \<and>
    view q = \<lparr>items = map of_nat [0..<nat i div 2], bound = nat i, shut = False\<rparr>"
proof -
  have "unat (word_of_int i :: usize) = nat i"
    using swept_capacity [OF assms] by auto
  then show ?thesis
    using new_swept [OF assms] install_items [OF _ swept_single_bit [OF assms]] by auto
qed

end

section \<open>The balance of a run\<close>

text \<open>
  What is in the queue and what the producers still have to push, against what was there at
  the start and what the consumers still have to pop.
\<close>

definition balanced :: "nat \<Rightarrow> nat \<Rightarrow> nat \<Rightarrow> 'a fifo \<Rightarrow> (nat \<Rightarrow> nat) \<Rightarrow> bool" where
  "balanced threads iterations half f l \<longleftrightarrow>
     length (items f) + sum l {..<threads div 2} + (threads - threads div 2) * iterations =
     half + (threads div 2) * iterations + sum l {threads div 2..<threads}"

text \<open>The consumers' surplus of operations is covered by the items of the half-full start.\<close>

definition covered :: "nat \<Rightarrow> nat \<Rightarrow> nat \<Rightarrow> bool" where
  "covered threads iterations half \<longleftrightarrow> (threads - threads div 2 - threads div 2) * iterations \<le> half"

definition enabled :: "nat \<Rightarrow> nat \<Rightarrow> 'a fifo \<Rightarrow> (nat \<Rightarrow> nat) \<Rightarrow> bool" where
  "enabled threads i f l \<longleftrightarrow>
     i < threads \<and> 0 < l i \<and> (if is_producer threads i then \<not> fifo_full f else items f \<noteq> [])"

text \<open>One successful operation of thread \<open>i\<close>.\<close>

definition worked :: "nat \<Rightarrow> nat \<Rightarrow> 'a fifo \<Rightarrow> (nat \<Rightarrow> nat) \<Rightarrow> 'a fifo \<Rightarrow> (nat \<Rightarrow> nat) \<Rightarrow> bool" where
  "worked threads i f l f' l' \<longleftrightarrow>
     i < threads \<and> 0 < l i \<and> l' = l(i := l i - 1) \<and> shut f' = shut f \<and> bound f' = bound f \<and>
     (if is_producer threads i then length (items f') = Suc (length (items f))
      else length (items f) = Suc (length (items f')))"

lemma sum_finished:
  fixes l :: "nat \<Rightarrow> nat"
  assumes "finite S" and "i \<in> S" and "0 < l i"
  shows "Suc (sum (l(i := l i - 1)) S) = sum l S"
proof -
  have "sum (l(i := l i - 1)) (S - {i}) = sum l (S - {i})"
    by (rule sum.cong) auto
  then show ?thesis
    using assms sum.remove [OF assms(1,2), of l] sum.remove [OF assms(1,2), of "l(i := l i - 1)"] by simp
qed

lemma sum_untouched: "i \<notin> S \<Longrightarrow> sum (l(i := m :: nat)) S = sum l S"
  by (rule sum.cong) auto

lemma worked_balanced:
  assumes "worked threads i f l f' l'" and "balanced threads iterations half f l"
  shows "balanced threads iterations half f' l'"
proof (cases "is_producer threads i")
  case True
  with assms show ?thesis
    using sum_finished [of "{..<threads div 2}" i l] sum_untouched [of i "{threads div 2..<threads}" l "l i - 1"]
    by (simp add: worked_def balanced_def is_producer_def)
next
  case False
  with assms show ?thesis
    using sum_finished [of "{threads div 2..<threads}" i l] sum_untouched [of i "{..<threads div 2}" l "l i - 1"]
    by (simp add: worked_def balanced_def is_producer_def)
qed

lemma start_balanced:
  "length (items f) = half \<Longrightarrow> balanced threads iterations half f (\<lambda>i. if i < threads then iterations else 0)"
proof -
  have "(\<Sum>i<threads div 2. if i < threads then iterations else 0) = (\<Sum>i<threads div 2. iterations)"
    by (intro sum.cong) auto
  then show "length (items f) = half \<Longrightarrow> ?thesis"
    by (simp add: balanced_def)
qed

lemma covered_iff:
  "covered threads iterations half \<longleftrightarrow> (threads - threads div 2) * iterations \<le> half + (threads div 2) * iterations"
proof -
  have "(c - p) * iterations \<le> half \<longleftrightarrow> c * iterations \<le> half + p * iterations" for c p
    by (simp add: diff_mult_distrib le_diff_conv)
  then show ?thesis
    by (simp only: covered_def)
qed

lemma completed_covered:
  assumes "balanced threads iterations half f l" and "\<forall>i<threads. l i = 0"
  shows "covered threads iterations half"
proof -
  have "sum l {..<threads div 2} = 0" "sum l {threads div 2..<threads} = 0"
    using assms(2) by auto
  then show ?thesis
    using assms(1) unfolding balanced_def covered_iff by linarith
qed

lemma some_enabled:
  assumes bal: "balanced threads iterations half f l" and cov: "covered threads iterations half"
    and ok: "fifo_ok f" "half < bound f" and i: "i < threads" "0 < l i"
  shows "\<exists>j. enabled threads j f l"
proof (rule ccontr)
  assume "\<not> ?thesis"
  then have none: "\<not> enabled threads j f l" for j
    by blast
  have cov': "(threads - threads div 2) * iterations \<le> half + (threads div 2) * iterations"
    using cov by (simp only: covered_iff)
  have more: "(threads div 2) * iterations \<le> (threads - threads div 2) * iterations"
    by (intro mult_right_mono) auto
  show False
  proof (cases "items f = []")
    case True
    then have "\<not> fifo_full f"
      using ok by (simp add: fifo_ok_def fifo_full_def)
    then have "l j = 0" if "j < threads div 2" for j
      using none [of j] that by (simp add: enabled_def is_producer_def)
    then have idle: "sum l {..<threads div 2} = 0"
      by simp
    then have "i \<in> {threads div 2..<threads}"
      using i by (cases "i < threads div 2") auto
    then have "0 < sum l {threads div 2..<threads}"
      using i(2) by (auto intro: sum_pos2)
    then show False
      using bal cov' True idle by (simp add: balanced_def)
  next
    case False
    then have "l j = 0" if "threads div 2 \<le> j" "j < threads" for j
      using none [of j] that by (simp add: enabled_def is_producer_def)
    then have idle: "sum l {threads div 2..<threads} = 0"
      by simp
    then have "i < threads div 2"
      using i by (cases "i < threads div 2") auto
    then have "fifo_full f"
      using none [of i] i by (simp add: enabled_def is_producer_def)
    then show False
      using bal more ok(2) idle by (simp add: balanced_def fifo_full_def)
  qed
qed

section \<open>Runs\<close>

text \<open>From every reachable state the run can be brought to its end; no reachable state is its end.\<close>

definition completes :: "(nat \<Rightarrow> 'q bench_sys \<Rightarrow> 'q bench_sys \<Rightarrow> bool) \<Rightarrow> nat \<Rightarrow> 'q bench_sys \<Rightarrow> bool" where
  "completes step threads s0 \<longleftrightarrow>
     (\<forall>s. bench_reachable step s0 s \<longrightarrow> (\<exists>t. bench_reachable step s t \<and> completed threads t))"

definition never_completes :: "(nat \<Rightarrow> 'q bench_sys \<Rightarrow> 'q bench_sys \<Rightarrow> bool) \<Rightarrow> nat \<Rightarrow> 'q bench_sys \<Rightarrow> bool" where
  "never_completes step threads s0 \<longleftrightarrow> (\<forall>s. bench_reachable step s0 s \<longrightarrow> \<not> completed threads s)"

lemma bench_reachable_first:
  assumes "step i s t" and "bench_reachable step t u"
  shows "bench_reachable step s u"
  using assms(2)
proof induction
  case start
  show ?case
    by (rule bench_reachable.move, rule bench_reachable.start) (rule assms(1))
next
  case (move u j v)
  show ?case
    by (rule bench_reachable.move [where i = j]) fact+
qed

text \<open>The two kinds of run, over the interface.\<close>

locale bench_run = bench_fifo b wf view
  for b :: "'q try_queue" and wf :: "'q \<Rightarrow> bool" and view :: "'q \<Rightarrow> usize fifo" +
  fixes step :: "nat \<Rightarrow> nat \<Rightarrow> 'q bench_sys \<Rightarrow> 'q bench_sys \<Rightarrow> bool"
  assumes step_law: "wf (shared s) \<Longrightarrow> \<not> shut (view (shared s)) \<Longrightarrow> step threads i s t \<Longrightarrow>
      wf (shared t) \<and> (worked threads i (view (shared s)) (left s) (view (shared t)) (left t) \<or>
        view (shared t) = view (shared s) \<and> left t = left s)"
    and enabled_law: "wf (shared s) \<Longrightarrow> \<not> shut (view (shared s)) \<Longrightarrow> enabled threads i (view (shared s)) (left s) \<Longrightarrow>
      \<exists>t. step threads i s t \<and> worked threads i (view (shared s)) (left s) (view (shared t)) (left t)"
begin

lemma reachable_balanced:
  assumes "wf q" and "view q = \<lparr>items = xs, bound = B, shut = False\<rparr>" and "length xs = half"
    and "bench_reachable (step threads) (bench_start threads iterations q) s"
  shows "wf (shared s) \<and> \<not> shut (view (shared s)) \<and> bound (view (shared s)) = B \<and>
    balanced threads iterations half (view (shared s)) (left s)"
  using assms(4)
proof induction
  case start
  then show ?case
    using assms(1-3) start_balanced [of "view q"] by (simp add: bench_start_def)
next
  case (move s i t)
  then show ?case
    using step_law [of s threads i t] worked_balanced [of threads i "view (shared s)" "left s"]
    by (auto simp: worked_def)
qed

lemma can_complete:
  assumes "wf (shared s)" "\<not> shut (view (shared s))" "half < bound (view (shared s))"
    and "balanced threads iterations half (view (shared s)) (left s)" and "covered threads iterations half"
  shows "\<exists>t. bench_reachable (step threads) s t \<and> completed threads t"
  using assms
proof (induction "sum (left s) {..<threads}" arbitrary: s rule: less_induct)
  case less
  show ?case
  proof (cases "completed threads s")
    case True
    then show ?thesis
      by (intro exI [of _ s] conjI bench_reachable.start)
  next
    case False
    then obtain i where "i < threads" "0 < left s i"
      by (auto simp: completed_def)
    then obtain j where j: "enabled threads j (view (shared s)) (left s)"
      using some_enabled [OF less.prems(4,5) bounded [OF less.prems(1)] less.prems(3)] by blast
    then obtain t where t: "step threads j s t" "worked threads j (view (shared s)) (left s) (view (shared t)) (left t)"
      using enabled_law [OF less.prems(1,2)] by blast
    have wf: "wf (shared t)"
      using step_law [OF less.prems(1,2) t(1)] by blast
    have less: "sum (left t) {..<threads} < sum (left s) {..<threads}"
      using t(2) sum_finished [of "{..<threads}" j "left s"] by (simp add: worked_def)
    have same: "\<not> shut (view (shared t))" "half < bound (view (shared t))"
      using t(2) less.prems(2,3) by (simp_all add: worked_def)
    obtain u where "bench_reachable (step threads) t u" "completed threads u"
      using less.hyps [OF less wf same worked_balanced [OF t(2) less.prems(4)] less.prems(5)] by blast
    then show ?thesis
      using bench_reachable_first [where step = "step threads", OF t(1)] by blast
  qed
qed

lemma run_completes_iff:
  assumes "wf q" and "view q = \<lparr>items = xs, bound = B, shut = False\<rparr>" and "length xs = half" and "half < B"
  shows "if covered threads iterations half
    then completes (step threads) threads (bench_start threads iterations q)
    else never_completes (step threads) threads (bench_start threads iterations q)"
proof -
  note R = reachable_balanced [OF assms(1-3)]
  have "completes (step threads) threads (bench_start threads iterations q)" if "covered threads iterations half"
    using R can_complete that assms(4) by (fastforce simp: completes_def)
  moreover have "never_completes (step threads) threads (bench_start threads iterations q)"
    if "\<not> covered threads iterations half"
    using R completed_covered that by (fastforce simp: never_completes_def completed_def)
  ultimately show ?thesis by simp
qed

lemma swept_completes_iff:
  assumes "i \<in> set capacity_sweep"
  shows "\<exists>q. install_half_full_queue b (word_of_int i) = Installed q \<and>
    (if covered threads iterations (nat i div 2)
     then completes (step threads) threads (bench_start threads iterations q)
     else never_completes (step threads) threads (bench_start threads iterations q))"
proof -
  have "nat i div 2 < nat i"
    using swept_capacity [OF assms] by auto
  then show ?thesis
    using install_swept [OF assms] run_completes_iff by (metis length_map length_upt diff_zero)
qed

end

lemma producer_in_range: "is_producer threads i \<Longrightarrow> i < threads"
  by (auto simp: is_producer_def)

context bench_fifo
begin

lemma push_returns_room:
  assumes "wf q" and "\<not> shut (view q)" and "bq_push b v q = Done r q'"
  shows "wf q' \<and> view q' = (view q)\<lparr>items := items (view q) @ [v]\<rparr>"
  using push_room [OF assms(1,2), of v] push_full [OF assms(1,2), of v] assms(3) by (cases "fifo_full (view q)") auto

lemma pop_returns_item:
  assumes "wf q" and "\<not> shut (view q)" and "bq_pop b out q = Done r (q', v)"
  shows "wf q' \<and> items (view q) = v # items (view q') \<and> view q' = (view q)\<lparr>items := items (view q')\<rparr>"
  using pop_item [OF assms(1), of _ _ out] pop_empty [OF assms(1,2), of out] assms(3)
  by (cases "items (view q)") auto

lemma throughput_step_law:
  assumes "throughput_step b threads i s t" and "wf (shared s)" "\<not> shut (view (shared s))"
  shows "wf (shared t) \<and> worked threads i (view (shared s)) (left s) (view (shared t)) (left t)"
  using assms
proof cases
  case (push m r q)
  then show ?thesis
    using push_returns_room [OF assms(2,3), of "item s i" r q] producer_in_range [of threads i] by (simp add: worked_def)
next
  case (pop m r q v)
  then show ?thesis
    using pop_returns_item [OF assms(2,3), of "got s i" r q v]
    by (auto simp: worked_def) (metis fifo.select_convs fifo.surjective fifo.update_convs)+
qed

lemma throughput_enabled:
  assumes "wf (shared s)" "\<not> shut (view (shared s))" and "enabled threads i (view (shared s)) (left s)"
  shows "\<exists>t. throughput_step b threads i s t"
proof -
  obtain m where m: "left s i = Suc m"
    using assms(3) by (auto simp: enabled_def gr0_conv_Suc)
  show ?thesis
  proof (cases "is_producer threads i")
    case True
    then show ?thesis
      using push_room [OF assms(1,2), of "item s i"] assms(3) throughput_step.push [OF True m]
      by (auto simp: enabled_def)
  next
    case False
    then obtain x xs where "items (view (shared s)) = x # xs"
      using assms(3) by (auto simp: enabled_def neq_Nil_conv)
    then show ?thesis
      using pop_item [OF assms(1), of x xs "got s i"] assms(3) throughput_step.pop [OF _ False m, of b]
      unfolding enabled_def by blast
  qed
qed

lemma try_throughput_step_law:
  assumes "try_throughput_step b threads i s t" and "wf (shared s)" "\<not> shut (view (shared s))"
  shows "wf (shared t) \<and>
    (if enabled threads i (view (shared s)) (left s)
     then worked threads i (view (shared s)) (left s) (view (shared t)) (left t)
     else view (shared t) = view (shared s) \<and> left t = left s)"
  using assms(1)
proof cases
  case (push_ok m q)
  then show ?thesis
    using try_push_law [OF assms(2), of "item s i"] assms(3) producer_in_range [of threads i]
    by (auto simp: worked_def enabled_def fifo_try_push_def split: if_splits)
next
  case (push_retry m q)
  then show ?thesis
    using try_push_law [OF assms(2), of "item s i"] assms(3) producer_in_range [of threads i]
    by (auto simp: worked_def enabled_def fifo_try_push_def split: if_splits)
next
  case (pop_ok m q v)
  then show ?thesis
    using try_pop_law [OF assms(2), of "got s i"] assms(3)
    by (auto simp: worked_def enabled_def fifo_try_pop_def split: list.splits)
next
  case (pop_retry m q v)
  then show ?thesis
    using try_pop_law [OF assms(2), of "got s i"] assms(3)
    by (auto simp: worked_def enabled_def fifo_try_pop_def split: list.splits)
qed

lemma try_throughput_enabled:
  assumes "wf (shared s)" "\<not> shut (view (shared s))" and "enabled threads i (view (shared s)) (left s)"
  shows "\<exists>t. try_throughput_step b threads i s t"
proof -
  obtain m where m: "left s i = Suc m"
    using assms(3) by (auto simp: enabled_def gr0_conv_Suc)
  show ?thesis
  proof (cases "is_producer threads i")
    case True
    then show ?thesis
      using try_push_law [OF assms(1), of "item s i"] assms(2,3) try_throughput_step.push_ok [OF True m]
      by (auto simp: enabled_def fifo_try_push_def)
  next
    case False
    then show ?thesis
      using try_pop_law [OF assms(1), of "got s i"] assms(3) try_throughput_step.pop_ok [OF _ False m]
      by (auto simp: enabled_def fifo_try_pop_def split: list.splits)
  qed
qed

end

sublocale bench_fifo \<subseteq> blocking_run: bench_run b wf view "throughput_step b"
  by unfold_locales (blast dest: throughput_step_law throughput_enabled)+

sublocale bench_fifo \<subseteq> retrying_run: bench_run b wf view "try_throughput_step b"
proof unfold_locales
  fix s t :: "'q bench_sys" and threads i
  assume q: "wf (shared s)" "\<not> shut (view (shared s))"
  note L = try_throughput_step_law [OF _ q, of threads i]
  show "wf (shared t) \<and> (worked threads i (view (shared s)) (left s) (view (shared t)) (left t) \<or>
      view (shared t) = view (shared s) \<and> left t = left s)" if "try_throughput_step b threads i s t"
    using L [OF that] by (auto split: if_splits)
  show "\<exists>t. try_throughput_step b threads i s t \<and>
      worked threads i (view (shared s)) (left s) (view (shared t)) (left t)"
    if "enabled threads i (view (shared s)) (left s)"
    using try_throughput_enabled [OF q that] L that by auto
qed

section \<open>The single-thread round trip\<close>

context bench_fifo
begin

lemma round_trips:
  assumes "wf q" and "view q = \<lparr>items = [], bound = B, shut = False\<rparr>" and "0 < B"
  shows "\<exists>q'. single_thread_loop b n value q = Done () (q', if n = 0 then value else 1) \<and> wf q' \<and> view q' = view q"
  using assms
proof (induction n arbitrary: q "value")
  case 0
  then show ?case by simp
next
  case (Suc n)
  obtain q1 where q1: "bq_push b 1 q = Done True q1" "view q1 = \<lparr>items = [1], bound = B, shut = False\<rparr>" "wf q1"
    using push_room [OF Suc.prems(1), of 1] Suc.prems by (auto simp: fifo_full_def)
  obtain q2 where q2: "bq_pop b value q1 = Done True (q2, 1)" "view q2 = view q" "wf q2"
    using pop_item [OF q1(3), of 1 "[]" "value"] q1(2) Suc.prems(2) by auto
  show ?case
    using Suc.IH [OF q2(3), of 1] Suc.prems q1 q2 by (auto split: if_splits)
qed

lemma single_thread_round_trips:
  "\<exists>q. bq_new b kCapacity = Inr q \<and>
    (\<exists>q'. BM_QueuePushPopSingleThread b n = (Inr (Done () (q', if n = 0 then 0 else 1)), 2 * n) \<and>
      wf q' \<and> view q' = \<lparr>items = [], bound = 1024, shut = False\<rparr>)"
proof -
  have k: "kCapacity = word_of_int 1024" "1024 \<in> set capacity_sweep"
    by (simp_all add: kCapacity_def capacity_sweep_def)
  obtain q where q: "bq_new b kCapacity = Inr q"
    using new_swept [OF k(2)] k(1) by auto
  moreover have "wf q \<and> view q = \<lparr>items = [], bound = 1024, shut = False\<rparr>"
    using new_law [OF q] swept_single_bit [OF k(2)] k(1) by (simp add: kCapacity_def)
  ultimately show ?thesis
    using round_trips [of q 1024 n 0] by (auto simp: BM_QueuePushPopSingleThread_def mult.commute)
qed

end

section \<open>Retrying and blocking\<close>

text \<open>The pop of the moodycamel adapter is the same retry loop.\<close>

lemma moodycamel_pop_retries:
  "moodycamel_pop m es out q =
     map_outcome id (\<lambda>_. True) (count_failures_until_success (\<lambda>(q, out). mc_try_dequeue m out q)
       (map (\<lambda>e. map_prod e id) es) k (q, out))"
proof (induction es arbitrary: k out q)
  case Nil
  then show ?case
    by (auto simp: moodycamel_pop.simps [of m "[]"] count_failures_until_success.simps [of _ "[]"]
        split: outcome.splits bool.splits prod.splits)
next
  case (Cons e es)
  show ?case
    using Cons.IH [where k = "k + 1"]
    by (auto simp: moodycamel_pop.simps [of m "e # es"] count_failures_until_success.simps [of _ "_ # _"]
        split: outcome.splits bool.splits prod.splits)
qed

text \<open>The waits of an abstract blocking call.\<close>

fun push_waits :: "'a call list list \<Rightarrow> 'a fifo \<Rightarrow> nat" where
  "push_waits [] f = 0"
| "push_waits (cs # css) f = (if fifo_full f then Suc (push_waits css (snd (fifo_run cs f))) else 0)"

fun pop_waits :: "'a call list list \<Rightarrow> 'a fifo \<Rightarrow> nat" where
  "pop_waits [] f = 0"
| "pop_waits (cs # css) f = (if items f = [] then Suc (pop_waits css (snd (fifo_run cs f))) else 0)"

definition no_close :: "'a call list list \<Rightarrow> bool" where
  "no_close css \<longleftrightarrow> Close \<notin> set (concat css)"

lemma fifo_run_open: "Close \<notin> set cs \<Longrightarrow> \<not> shut f \<Longrightarrow> \<not> shut (snd (fifo_run cs f))"
proof (induction cs arbitrary: f)
  case (Cons c cs)
  then have "\<not> shut (snd (fifo_call c f))"
    by (cases c) (auto simp: fifo_defs Let_def split: list.splits)
  with Cons show ?case
    by (simp add: fifo_run_Cons)
qed simp

context blocking_fifo
begin

lemma always_meanwhile:
  assumes "\<forall>n. wf n q"
  shows "view (meanwhile ops cs q) = snd (fifo_run cs (view q))" and "\<forall>n. wf n (meanwhile ops cs q)"
  using meanwhile_view [of _ cs q] assms by auto

lemma retried_push:
  assumes "\<forall>n. wf n q" and "\<not> shut (view q)" and "no_close css"
  shows "map_outcome view id (count_failures_until_success (op_try_push ops v) (map (meanwhile ops) css) k q) =
    map_outcome id (\<lambda>_. k + of_nat (push_waits css (view q))) (fifo_push css v (view q))"
  using assms
proof (induction css arbitrary: q k)
  case Nil
  then show ?case
    using always_try_push [of q v]
    by (auto simp: count_failures_until_success.simps [of _ "[]"] fifo_push.simps [of "[]"] fifo_try_push_def)
next
  case (Cons cs css)
  obtain q1 where q1: "op_try_push ops v q = Done (fst (fifo_try_push v (view q))) q1"
      "view q1 = snd (fifo_try_push v (view q))" "\<forall>n. wf n q1"
    using always_try_push [OF Cons.prems(1)] by blast
  note M = always_meanwhile [OF q1(3), of cs]
  show ?case
  proof (cases "fifo_full (view q)")
    case True
    then have "\<not> shut (view (meanwhile ops cs q1))"
      using Cons.prems q1(2) M(1) fifo_run_open [of cs "view q"] by (simp add: fifo_try_push_def no_close_def)
    then show ?thesis
      using Cons.IH [OF M(2), of "k + 1"] Cons.prems q1 M(1) True
      by (simp add: count_failures_until_success.simps [of _ "_ # _"] fifo_push.simps [of "cs # css"] fifo_try_push_def
          no_close_def add_ac)
  next
    case False
    then show ?thesis
      using q1 Cons.prems
      by (simp add: count_failures_until_success.simps [of _ "_ # _"] fifo_push.simps [of "cs # css"] fifo_try_push_def)
  qed
qed

lemma retried_pop:
  assumes "\<forall>n. wf n q" and "\<not> shut (view q)" and "no_close css"
  shows "map_outcome (map_prod view id) id (count_failures_until_success (\<lambda>(q, out). op_try_pop ops out q)
      (map (\<lambda>cs. map_prod (meanwhile ops cs) id) css) k (q, out)) =
    map_outcome id (\<lambda>_. k + of_nat (pop_waits css (view q))) (fifo_pop css out (view q))"
  using assms
proof (induction css arbitrary: q k)
  case Nil
  then show ?case
    using always_try_pop [of q out]
    by (auto simp: count_failures_until_success.simps [of _ "[]"] fifo_pop.simps [of "[]"] fifo_try_pop_def split: list.splits)
next
  case (Cons cs css)
  obtain q1 where q1: "op_try_pop ops out q =
        Done (fst (fst (fifo_try_pop out (view q)))) (q1, snd (fst (fifo_try_pop out (view q))))"
      "view q1 = snd (fifo_try_pop out (view q))" "\<forall>n. wf n q1"
    using always_try_pop [OF Cons.prems(1)] by blast
  note M = always_meanwhile [OF q1(3), of cs]
  show ?case
  proof (cases "items (view q)")
    case Nil
    then have "\<not> shut (view (meanwhile ops cs q1))"
      using Cons.prems q1(2) M(1) fifo_run_open [of cs "view q"] by (simp add: fifo_try_pop_def no_close_def)
    then show ?thesis
      using Cons.IH [OF M(2), of "k + 1"] Cons.prems q1 M(1) Nil
      by (simp add: count_failures_until_success.simps [of _ "_ # _"] fifo_pop.simps [of "cs # css"] fifo_try_pop_def
          no_close_def add_ac)
  next
    case (Cons x xs)
    then show ?thesis
      using q1
      by (simp add: count_failures_until_success.simps [of _ "_ # _"] fifo_pop.simps [of "cs # css"] fifo_try_pop_def)
  qed
qed

lemma retried_is_push:
  assumes "\<forall>n. wf n q" and "\<not> shut (view q)" and "no_close css" and "list_all push_peer (concat css)"
  shows "map_outcome view id (count_failures_until_success (op_try_push ops v) (map (meanwhile ops) css) 0 q) =
    map_outcome view (\<lambda>_. of_nat (push_waits css (view q))) (push_at 0 css v q)"
proof -
  have "map_outcome view id (push_at 0 css v q) = fifo_push css v (view q)"
    using push_refines [of 0 css q 0 v] assms(1,4) by simp
  from this [symmetric] show ?thesis
    using retried_push [OF assms(1-3), of v 0] by (simp add: outcome.map_comp comp_def)
qed

lemma retried_is_pop:
  assumes "\<forall>n. wf n q" and "\<not> shut (view q)" and "no_close css" and "list_all pop_peer (concat css)"
  shows "map_outcome (map_prod view id) id (count_failures_until_success (\<lambda>(q, out). op_try_pop ops out q)
      (map (\<lambda>cs. map_prod (meanwhile ops cs) id) css) 0 (q, out)) =
    map_outcome (map_prod view id) (\<lambda>_. of_nat (pop_waits css (view q))) (pop_at 0 css out q)"
proof -
  have "map_outcome (map_prod view id) id (pop_at 0 css out q) = fifo_pop css out (view q)"
    using pop_refines [of 0 css q 0 out] assms(1,4) by simp
  from this [symmetric] show ?thesis
    using retried_pop [OF assms(1-3), of 0 out] by (simp add: outcome.map_comp comp_def)
qed

end

end
