(* ===== verification/Bench_Bulk.thy ===== *)
theory Bench_Bulk
  imports Bench_Runs
begin

text \<open>
  The bulk benchmark of \<^verbatim>\<open>SpscQueue\<close>: one thread pushes batches of \<^verbatim>\<open>kBulkBatch\<close> items with
  \<^verbatim>\<open>try_push_n\<close>, the other pops batches with \<^verbatim>\<open>try_pop_n\<close>; a call may move less than it was
  asked for and the rest of the batch is tried again. From every state the two can reach,
  they can complete their batches.
\<close>

text \<open>
  \<open>bulk_inv\<close>: a batch under way is short of \<^verbatim>\<open>kBulkBatch\<close> items, and what is in the queue
  balances what the two sides have moved.
\<close>

definition bulk_inv :: "bulk_sys \<Rightarrow> bool" where
  "bulk_inv s \<longleftrightarrow>
     spsc_wf (bulk_shared s) \<and> \<not> shut (spsc_view (bulk_shared s)) \<and> bound (spsc_view (bulk_shared s)) = 1024 \<and>
     (\<forall>side. length (bulk_buf s side) = 64 \<and> unat (bulk_done s side) < 64 \<and>
       (bulk_left s side = 0 \<longrightarrow> bulk_done s side = 0)) \<and>
     length (items (spsc_view (bulk_shared s))) + 64 * bulk_left s True + unat (bulk_done s False) =
     512 + 64 * bulk_left s False + unat (bulk_done s True)"

definition bulk_work :: "bulk_sys \<Rightarrow> bool \<Rightarrow> nat" where
  "bulk_work s side = 64 * bulk_left s side - unat (bulk_done s side)"

lemma bulk_advance_sel [simp]:
  "bulk_shared (bulk_advance side count s) = bulk_shared s"
  "bulk_buf (bulk_advance side count s) = bulk_buf s"
  "other \<noteq> side \<Longrightarrow> bulk_done (bulk_advance side count s) other = bulk_done s other"
  "other \<noteq> side \<Longrightarrow> bulk_left (bulk_advance side count s) other = bulk_left s other"
  by (simp_all add: bulk_advance_def Let_def)

lemma bulk_advance_moved:
  assumes "unat (bulk_done s side) + unat count \<le> 64" and "0 < bulk_left s side" and "unat (bulk_done s side) < 64"
  shows "unat (bulk_done (bulk_advance side count s) side) < 64"
    and "bulk_left (bulk_advance side count s) side = 0 \<Longrightarrow> bulk_done (bulk_advance side count s) side = 0"
    and "64 * bulk_left (bulk_advance side count s) side + unat (bulk_done s side) + unat count =
      64 * bulk_left s side + unat (bulk_done (bulk_advance side count s) side)"
proof -
  have sum: "unat (bulk_done s side + count) = unat (bulk_done s side) + unat count"
    using assms(1) by (simp add: unat_word_ariths)
  have lt: "bulk_done s side + count < kBulkBatch \<longleftrightarrow> unat (bulk_done s side) + unat count < 64"
    by (simp add: kBulkBatch_def word_less_nat_alt sum)
  obtain m where m: "bulk_left s side = Suc m"
    using assms(2) by (auto simp: gr0_conv_Suc)
  show "unat (bulk_done (bulk_advance side count s) side) < 64"
    and "bulk_left (bulk_advance side count s) side = 0 \<Longrightarrow> bulk_done (bulk_advance side count s) side = 0"
    and "64 * bulk_left (bulk_advance side count s) side + unat (bulk_done s side) + unat count =
      64 * bulk_left s side + unat (bulk_done (bulk_advance side count s) side)"
    using assms m lt sum by (auto simp: bulk_advance_def Let_def split: if_splits)
qed

text \<open>One call of each side.\<close>

lemma bulk_push_call:
  assumes "bulk_inv s"
  shows "\<exists>count q xs. try_push_n scalar_move (drop (unat (bulk_done s True)) (bulk_buf s True)) (bulk_shared s) =
      Done count (q, xs) \<and> spsc_wf q \<and> \<not> shut (spsc_view q) \<and> bound (spsc_view q) = 1024 \<and>
    length (items (spsc_view q)) = length (items (spsc_view (bulk_shared s))) + unat count \<and>
    length xs = 64 - unat (bulk_done s True) \<and> unat (bulk_done s True) + unat count \<le> 64 \<and>
    (\<not> fifo_full (spsc_view (bulk_shared s)) \<longrightarrow> 0 < unat count)"
proof -
  have B: "length (bulk_buf s True) = 64" "unat (bulk_done s True) < 64"
    using assms by (auto simp: bulk_inv_def)
  then have "length (drop (unat (bulk_done s True)) (bulk_buf s True)) < 2 ^ 64"
    by simp
  then obtain count q xs where "try_push_n scalar_move (drop (unat (bulk_done s True)) (bulk_buf s True)) (bulk_shared s) =
        Done count (q, xs)" "spsc_wf q" "length xs = 64 - unat (bulk_done s True)" "unat (bulk_done s True) + unat count \<le> 64"
      and v: "spsc_view q = (spsc_view (bulk_shared s))\<lparr>items := items (spsc_view (bulk_shared s)) @
        take (unat count) (drop (unat (bulk_done s True)) (bulk_buf s True))\<rparr>"
      and "count = 0 \<longleftrightarrow> fifo_full (spsc_view (bulk_shared s))"
    using scalar.try_push_n_result [of "bulk_shared s" "drop (unat (bulk_done s True)) (bulk_buf s True)"] assms B
    by (auto simp: bulk_inv_def le_diff_conv2 add.commute simp del: spsc_view_sel)
  moreover have "shut (spsc_view q) = shut (spsc_view (bulk_shared s))" "bound (spsc_view q) = bound (spsc_view (bulk_shared s))"
    by (simp_all add: v del: spsc_view_sel)
  moreover have "length (items (spsc_view q)) = length (items (spsc_view (bulk_shared s))) + unat count"
    using calculation B by (simp add: v del: spsc_view_sel)
  ultimately show ?thesis
    using assms B by (intro exI conjI) (auto simp: bulk_inv_def unat_gt_0 simp del: spsc_view_sel)
qed

lemma bulk_pop_call:
  assumes "bulk_inv s"
  shows "\<exists>count q xs. try_pop_n scalar_move (drop (unat (bulk_done s False)) (bulk_buf s False)) (bulk_shared s) =
      Done count (q, xs) \<and> spsc_wf q \<and> \<not> shut (spsc_view q) \<and> bound (spsc_view q) = 1024 \<and>
    length (items (spsc_view q)) + unat count = length (items (spsc_view (bulk_shared s))) \<and>
    length xs = 64 - unat (bulk_done s False) \<and> unat (bulk_done s False) + unat count \<le> 64 \<and>
    (items (spsc_view (bulk_shared s)) \<noteq> [] \<longrightarrow> 0 < unat count)"
proof -
  have B: "length (bulk_buf s False) = 64" "unat (bulk_done s False) < 64"
    using assms by (auto simp: bulk_inv_def)
  then have "length (drop (unat (bulk_done s False)) (bulk_buf s False)) < 2 ^ 64"
    by simp
  then obtain count q xs where "try_pop_n scalar_move (drop (unat (bulk_done s False)) (bulk_buf s False)) (bulk_shared s) =
        Done count (q, xs)" "spsc_wf q" "length xs = 64 - unat (bulk_done s False)" "unat (bulk_done s False) + unat count \<le> 64"
      and v: "spsc_view q = (spsc_view (bulk_shared s))\<lparr>items := drop (unat count) (items (spsc_view (bulk_shared s)))\<rparr>"
      and n: "unat count \<le> length (items (spsc_view (bulk_shared s)))"
      and "count = 0 \<longleftrightarrow> items (spsc_view (bulk_shared s)) = []"
    using scalar.try_pop_n_result [of "bulk_shared s" "drop (unat (bulk_done s False)) (bulk_buf s False)"] assms B
    by (auto simp: bulk_inv_def le_diff_conv2 add.commute simp del: spsc_view_sel)
  moreover have "shut (spsc_view q) = shut (spsc_view (bulk_shared s))" "bound (spsc_view q) = bound (spsc_view (bulk_shared s))"
    by (simp_all add: v del: spsc_view_sel)
  moreover have "length (items (spsc_view q)) + unat count = length (items (spsc_view (bulk_shared s)))"
    using n by (simp add: v del: spsc_view_sel)
  ultimately show ?thesis
    using assms B by (intro exI conjI) (auto simp: bulk_inv_def unat_gt_0 simp del: spsc_view_sel)
qed

text \<open>What one call does to the invariant and to the work left.\<close>

lemma bulk_moved:
  assumes inv: "bulk_inv s" and left: "0 < bulk_left s side" and count: "unat (bulk_done s side) + unat count \<le> 64"
    and q: "spsc_wf q" "\<not> shut (spsc_view q)" "bound (spsc_view q) = 1024" "length buf = 64"
    and len: "if side then length (items (spsc_view q)) = length (items (spsc_view (bulk_shared s))) + unat count
      else length (items (spsc_view q)) + unat count = length (items (spsc_view (bulk_shared s)))"
    and t: "t = bulk_advance side count (s\<lparr>bulk_shared := q, bulk_buf := (bulk_buf s)(side := buf)\<rparr>)"
  shows "bulk_inv t" and "bulk_work t (\<not> side) = bulk_work s (\<not> side)"
    and "bulk_work t side + unat count = bulk_work s side"
proof -
  let ?s = "s\<lparr>bulk_shared := q, bulk_buf := (bulk_buf s)(side := buf)\<rparr>"
  have S: "bulk_done ?s = bulk_done s" "bulk_left ?s = bulk_left s" "unat (bulk_done s side) < 64"
    using inv by (auto simp: bulk_inv_def)
  note M = bulk_advance_moved [of ?s side count, unfolded S(1,2), OF count left S(3), folded t]
  have T: "bulk_shared t = q" "bulk_buf t = (bulk_buf s)(side := buf)"
      "bulk_done t (\<not> side) = bulk_done s (\<not> side)" "bulk_left t (\<not> side) = bulk_left s (\<not> side)"
    by (simp_all add: t)
  show "bulk_inv t"
    using inv q len M T by (cases side) (auto simp: bulk_inv_def all_bool_eq)
  show "bulk_work t (\<not> side) = bulk_work s (\<not> side)"
    by (simp add: bulk_work_def T)
  show "bulk_work t side + unat count = bulk_work s side"
    using M(3,2,1) count left S(3) by (cases "bulk_left t side") (auto simp: bulk_work_def)
qed

lemma put_subspan_length: "unat d < 64 \<Longrightarrow> length buf = 64 \<Longrightarrow> length xs = 64 - unat d \<Longrightarrow> length (put_subspan d xs buf) = 64"
  by (simp add: put_subspan_def)

lemma bulk_step_inv:
  assumes "bulk_step side s t" and "bulk_inv s"
  shows "bulk_inv t"
  using assms(1)
proof cases
  case (bulk_push count q xs)
  have "length (put_subspan (bulk_done s True) xs (bulk_buf s True)) = 64"
    using bulk_push_call [OF assms(2)] assms(2) bulk_push by (intro put_subspan_length) (auto simp: bulk_inv_def)
  then show ?thesis
    using bulk_push_call [OF assms(2)] bulk_push bulk_moved(1) [OF assms(2), of True count q] by auto
next
  case (bulk_pop count q xs)
  have "length (put_subspan (bulk_done s False) xs (bulk_buf s False)) = 64"
    using bulk_pop_call [OF assms(2)] assms(2) bulk_pop by (intro put_subspan_length) (auto simp: bulk_inv_def)
  then show ?thesis
    using bulk_pop_call [OF assms(2)] bulk_pop bulk_moved(1) [OF assms(2), of False count q] by auto
qed

text \<open>A side that has room (an item) has a call that moves something.\<close>

lemma bulk_push_works:
  assumes inv: "bulk_inv s" and "0 < bulk_left s True" and "\<not> fifo_full (spsc_view (bulk_shared s))"
  shows "\<exists>t. bulk_step True s t \<and> bulk_work t True + bulk_work t False < bulk_work s True + bulk_work s False"
proof -
  let ?xs = "drop (unat (bulk_done s True)) (bulk_buf s True)"
  obtain count q xs where c: "try_push_n scalar_move ?xs (bulk_shared s) = Done count (q, xs)" "0 < unat count"
      "spsc_wf q" "\<not> shut (spsc_view q)" "bound (spsc_view q) = 1024" "unat (bulk_done s True) + unat count \<le> 64"
      "length (items (spsc_view q)) = length (items (spsc_view (bulk_shared s))) + unat count"
      "length xs = 64 - unat (bulk_done s True)"
    using bulk_push_call [OF inv] assms(3) by blast
  have "length (put_subspan (bulk_done s True) xs (bulk_buf s True)) = 64"
    using inv c(8) by (intro put_subspan_length) (auto simp: bulk_inv_def)
  note M = bulk_moved(2,3) [OF inv assms(2) c(6,3,4,5) this _ refl] and S = bulk_step.bulk_push [OF assms(2) c(1)]
  show ?thesis
    by (rule exI, rule conjI, rule S) (use M c(2,7) in auto)
qed

lemma bulk_pop_works:
  assumes inv: "bulk_inv s" and "0 < bulk_left s False" and "items (spsc_view (bulk_shared s)) \<noteq> []"
  shows "\<exists>t. bulk_step False s t \<and> bulk_work t True + bulk_work t False < bulk_work s True + bulk_work s False"
proof -
  let ?xs = "drop (unat (bulk_done s False)) (bulk_buf s False)"
  obtain count q xs where c: "try_pop_n scalar_move ?xs (bulk_shared s) = Done count (q, xs)" "0 < unat count"
      "spsc_wf q" "\<not> shut (spsc_view q)" "bound (spsc_view q) = 1024" "unat (bulk_done s False) + unat count \<le> 64"
      "length (items (spsc_view q)) + unat count = length (items (spsc_view (bulk_shared s)))"
      "length xs = 64 - unat (bulk_done s False)"
    using bulk_pop_call [OF inv] assms(3) by blast
  have "length (put_subspan (bulk_done s False) xs (bulk_buf s False)) = 64"
    using inv c(8) by (intro put_subspan_length) (auto simp: bulk_inv_def)
  note M = bulk_moved(2,3) [OF inv assms(2) c(6,3,4,5) this _ refl] and S = bulk_step.bulk_pop [OF assms(2) c(1)]
  show ?thesis
    by (rule exI, rule conjI, rule S) (use M c(2,7) in auto)
qed

lemma bulk_works:
  assumes inv: "bulk_inv s" and "\<not> bulk_completed s"
  shows "\<exists>side t. bulk_step side s t \<and> bulk_work t True + bulk_work t False < bulk_work s True + bulk_work s False"
proof (cases "0 < bulk_left s True \<and> \<not> fifo_full (spsc_view (bulk_shared s))")
  case True
  then show ?thesis
    using bulk_push_works [OF inv] by blast
next
  case False
  have "unat (bulk_done s True) < 64" "bulk_left s True = 0 \<longrightarrow> unat (bulk_done s True) = 0"
      "unat (bulk_done s False) < 64"
      "length (items (spsc_view (bulk_shared s))) + 64 * bulk_left s True + unat (bulk_done s False) =
       512 + 64 * bulk_left s False + unat (bulk_done s True)"
    using inv by (auto simp: bulk_inv_def simp del: spsc_view_sel)
  moreover have "bulk_left s True = 0 \<and> 0 < bulk_left s False \<or> length (items (spsc_view (bulk_shared s))) = 1024"
    using False assms by (auto simp: bulk_inv_def bulk_completed_def fifo_full_def simp del: spsc_view_sel)
  ultimately have "0 < bulk_left s False \<and> 0 < length (items (spsc_view (bulk_shared s)))"
    by linarith
  then show ?thesis
    using bulk_pop_works [OF inv] by blast
qed

lemma bulk_reachable_inv: "bench_reachable bulk_step s t \<Longrightarrow> bulk_inv s \<Longrightarrow> bulk_inv t"
  by (induction rule: bench_reachable.induct) (auto dest: bulk_step_inv)

lemma bulk_can_complete:
  "bulk_inv s \<Longrightarrow> \<exists>t. bench_reachable bulk_step s t \<and> bulk_completed t"
proof (induction "bulk_work s True + bulk_work s False" arbitrary: s rule: less_induct)
  case less
  show ?case
  proof (cases "bulk_completed s")
    case True
    then show ?thesis
      by (intro exI [of _ s] conjI bench_reachable.start)
  next
    case False
    obtain side t where t: "bulk_step side s t"
        "bulk_work t True + bulk_work t False < bulk_work s True + bulk_work s False"
      using bulk_works [OF less.prems False] by blast
    obtain u where "bench_reachable bulk_step t u" "bulk_completed u"
      using less.hyps [OF t(2) bulk_step_inv [OF t(1) less.prems]] by blast
    then show ?thesis
      using bench_reachable_first [where step = bulk_step, OF t(1)] by blast
  qed
qed

lemma bulk_start_inv:
  assumes "spsc_wf q" and "spsc_view q = \<lparr>items = xs, bound = 1024, shut = False\<rparr>" and "length xs = 512"
  shows "bulk_inv (bulk_start iterations q)"
  using assms by (simp add: bulk_inv_def bulk_start_def kBulkBatch_def del: spsc_view_sel)

end
