(* ===== verification/Bench_Properties.thy ===== *)
theory Bench_Properties
  imports Bench_Bulk
begin

text \<open>
  What the benchmark harness relies on and reports: the half-full start never aborts, a run
  completes exactly under the condition its comment gives, the retrying rows do what the
  blocking rows do, the single-thread rows are round trips, the counters mean what their
  names say, and everything registered ends.
\<close>

section \<open>Completion\<close>

context bench_fifo
begin

lemma started_run:
  assumes "i \<in> set capacity_sweep"
  shows "\<exists>q. setup_queue_at_capacity b i = Installed q \<and>
    view q = \<lparr>items = map of_nat [0..<nat i div 2], bound = nat i, shut = False\<rparr> \<and>
    (\<forall>threads iterations.
       if (threads - threads div 2 - threads div 2) * iterations \<le> nat i div 2
       then completes (throughput_step b threads) threads (bench_start threads iterations q) \<and>
            completes (try_throughput_step b threads) threads (bench_start threads iterations q)
       else never_completes (throughput_step b threads) threads (bench_start threads iterations q) \<and>
            never_completes (try_throughput_step b threads) threads (bench_start threads iterations q))"
proof -
  obtain q where q: "install_half_full_queue b (word_of_int i) = Installed q" "wf q"
      "view q = \<lparr>items = map of_nat [0..<nat i div 2], bound = nat i, shut = False\<rparr>"
    using install_swept [OF assms] by blast
  have half: "nat i div 2 < nat i"
    using swept_capacity [OF assms] by auto
  note B = blocking_run.run_completes_iff [OF q(2,3) _ half] and T = retrying_run.run_completes_iff [OF q(2,3) _ half]
  show ?thesis
    using q(1,3) B T by (intro exI [of _ q]) (auto simp: setup_queue_at_capacity_def covered_def)
qed

lemma paired_run:
  assumes "i \<in> set capacity_sweep"
  shows "\<exists>q. setup_queue_at_capacity b i = Installed q \<and>
    view q = \<lparr>items = map of_nat [0..<nat i div 2], bound = nat i, shut = False\<rparr> \<and>
    (\<forall>iterations.
       completes (throughput_step b 2) 2 (bench_start 2 iterations q) \<and>
       completes (try_throughput_step b 2) 2 (bench_start 2 iterations q))"
proof -
  obtain q where q: "setup_queue_at_capacity b i = Installed q"
      "view q = \<lparr>items = map of_nat [0..<nat i div 2], bound = nat i, shut = False\<rparr>"
    and r: "\<forall>threads iterations.
       if (threads - threads div 2 - threads div 2) * iterations \<le> nat i div 2
       then completes (throughput_step b threads) threads (bench_start threads iterations q) \<and>
            completes (try_throughput_step b threads) threads (bench_start threads iterations q)
       else never_completes (throughput_step b threads) threads (bench_start threads iterations q) \<and>
            never_completes (try_throughput_step b threads) threads (bench_start threads iterations q)"
    using started_run [OF assms] by blast
  show ?thesis
    using q r [rule_format, of 2] by auto
qed

end

lemma bench_casI: "False \<in> set cas \<Longrightarrow> bench_cas cas"
  by unfold_locales

section \<open>Retrying and blocking iterations\<close>

text \<open>
  One iteration of each side of \<^verbatim>\<open>BM_QueueTryThroughput\<close>; \<open>css\<close> lists the calls other
  threads make at each yield. The attempt of a consumer writes through \<^verbatim>\<open>value\<close>, so its state
  is the queue and \<^verbatim>\<open>value\<close>.
\<close>

definition retry_push ::
  "('q, usize) queue_ops \<Rightarrow> ('q, 'x) try_queue_scheme \<Rightarrow> usize call list list \<Rightarrow> usize \<Rightarrow> 'q \<Rightarrow> ('q, usize) outcome" where
  "retry_push ops b css v q = count_failures_until_success (bq_try_push b v) (map (meanwhile ops) css) 0 q"

definition retry_pop ::
  "('q, usize) queue_ops \<Rightarrow> ('q, 'x) try_queue_scheme \<Rightarrow> usize call list list \<Rightarrow> usize \<Rightarrow> 'q \<Rightarrow> ('q \<times> usize, usize) outcome" where
  "retry_pop ops b css value q =
     count_failures_until_success (\<lambda>(q, value). bq_try_pop b value q) (map (\<lambda>cs. map_prod (meanwhile ops cs) id) css) 0 (q, value)"

context handed_over
begin

lemma retry_push_blocks:
  assumes "\<forall>n. wf n q" and "\<not> shut (view q)" and "no_close css" and "list_all push_peer (concat css)"
  shows "map_outcome view id (retry_push ops b css v q) =
    map_outcome view (\<lambda>_. of_nat (push_waits css (view q))) (push_at 0 css v q)"
  using retried_is_push [OF assms] by (simp add: retry_push_def members)

lemma retry_pop_blocks:
  assumes "\<forall>n. wf n q" and "\<not> shut (view q)" and "no_close css" and "list_all pop_peer (concat css)"
  shows "map_outcome (map_prod view id) id (retry_pop ops b css out q) =
    map_outcome (map_prod view id) (\<lambda>_. of_nat (pop_waits css (view q))) (pop_at 0 css out q)"
  using retried_is_pop [OF assms] by (simp add: retry_pop_def members)

end

context bench_cas
begin

lemmas mpmc_started_run = mpmc_bench.bench.started_run
lemmas mpmc_round_trips = mpmc_bench.bench.single_thread_round_trips
lemmas mpmc_retry_push = mpmc_bench.retry_push_blocks
lemmas mpmc_retry_pop = mpmc_bench.retry_pop_blocks

end

section \<open>What a run does\<close>

text \<open>
  C22. The set-up never reaches \<^verbatim>\<open>std::abort\<close>: at every capacity of the sweep it installs a
  queue that holds \<open>0, 1, \<dots>\<close> up to half its capacity. From there a run of the blocking or of
  the retrying benchmark can be brought to its end from every state it reaches, if
  \<open>(consumers - producers) * iterations \<le> capacity / 2\<close>, and otherwise never ends: the
  condition the comment gives for thread counts that do not split evenly. (\<^verbatim>\<open>SpscQueue\<close> allows one
  thread a side: two threads.)
\<close>

theorem bench_completes_iff:
  assumes "i \<in> set capacity_sweep" and "False \<in> set cas"
  shows "(\<exists>q. setup_queue_at_capacity mutex_bench i = Installed q \<and>
      mutex_view q = \<lparr>items = map of_nat [0..<nat i div 2], bound = nat i, shut = False\<rparr> \<and>
      (\<forall>threads iterations.
         if (threads - threads div 2 - threads div 2) * iterations \<le> nat i div 2
         then completes (throughput_step mutex_bench threads) threads (bench_start threads iterations q) \<and>
              completes (try_throughput_step mutex_bench threads) threads (bench_start threads iterations q)
         else never_completes (throughput_step mutex_bench threads) threads (bench_start threads iterations q) \<and>
              never_completes (try_throughput_step mutex_bench threads) threads (bench_start threads iterations q))) \<and>
    (\<exists>q. setup_queue_at_capacity (mpmc_bench cas) i = Installed q \<and>
      mpmc_view q = \<lparr>items = map of_nat [0..<nat i div 2], bound = nat i, shut = False\<rparr> \<and>
      (\<forall>threads iterations.
         if (threads - threads div 2 - threads div 2) * iterations \<le> nat i div 2
         then completes (throughput_step (mpmc_bench cas) threads) threads (bench_start threads iterations q) \<and>
              completes (try_throughput_step (mpmc_bench cas) threads) threads (bench_start threads iterations q)
         else never_completes (throughput_step (mpmc_bench cas) threads) threads (bench_start threads iterations q) \<and>
              never_completes (try_throughput_step (mpmc_bench cas) threads) threads (bench_start threads iterations q))) \<and>
    (\<exists>q. setup_queue_at_capacity spsc_bench i = Installed q \<and>
      spsc_view q = \<lparr>items = map of_nat [0..<nat i div 2], bound = nat i, shut = False\<rparr> \<and>
      (\<forall>iterations.
         completes (throughput_step spsc_bench 2) 2 (bench_start 2 iterations q) \<and>
         completes (try_throughput_step spsc_bench 2) 2 (bench_start 2 iterations q)))"
proof (intro conjI)
  show "\<exists>q. setup_queue_at_capacity spsc_bench i = Installed q \<and>
      spsc_view q = \<lparr>items = map of_nat [0..<nat i div 2], bound = nat i, shut = False\<rparr> \<and>
      (\<forall>iterations.
         completes (throughput_step spsc_bench 2) 2 (bench_start 2 iterations q) \<and>
         completes (try_throughput_step spsc_bench 2) 2 (bench_start 2 iterations q))"
    by (rule spsc_bench.bench.paired_run [OF assms(1)])
qed (rule mutex_bench.bench.started_run [OF assms(1)], rule bench_cas.mpmc_started_run [OF bench_casI [OF assms(2)] assms(1)])

theorem bench_completes_iff_witness:
  "\<exists>q. setup_queue_at_capacity mutex_bench 2 = Installed q \<and>
    completes (throughput_step mutex_bench 3) 3 (bench_start 3 1 q) \<and>
    never_completes (throughput_step mutex_bench 3) 3 (bench_start 3 2 q)"
proof -
  have "2 \<in> set capacity_sweep"
    by (simp add: capacity_sweep_def)
  from bench_completes_iff [OF this, of "[False]"] obtain q where
    "setup_queue_at_capacity mutex_bench 2 = Installed q" and
    r: "\<forall>threads iterations.
         if (threads - threads div 2 - threads div 2) * iterations \<le> nat 2 div 2
         then completes (throughput_step mutex_bench threads) threads (bench_start threads iterations q) \<and>
              completes (try_throughput_step mutex_bench threads) threads (bench_start threads iterations q)
         else never_completes (throughput_step mutex_bench threads) threads (bench_start threads iterations q) \<and>
              never_completes (try_throughput_step mutex_bench threads) threads (bench_start threads iterations q)"
    by auto
  with r [rule_format, of 3 1] r [rule_format, of 3 2] show ?thesis by auto
qed

text \<open>
  C23. Retrying an attempt until it succeeds (\<^verbatim>\<open>count_failures_until_success\<close>) does what the
  blocking call does, on each queue and whatever calls other threads make at the yields short of
  a close: the same items move, it goes on exactly as long, and what it returns is the number
  of times the blocking call would have waited. So the retrying rows measure the work of the
  blocking rows.
\<close>

theorem bench_retry_is_blocking:
  assumes "no_close css" and "False \<in> set cas"
  shows "(mutex_wf mq \<and> \<not> mq_closed mq \<longrightarrow>
      map_outcome mutex_view id (retry_push (mutex_ops scalar_move) mutex_bench css v mq) =
        map_outcome mutex_view (\<lambda>_. of_nat (push_waits css (mutex_view mq)))
          (mutex_push (mutex_others scalar_move css) scalar_move v mq) \<and>
      map_outcome (map_prod mutex_view id) id (retry_pop (mutex_ops scalar_move) mutex_bench css out mq) =
        map_outcome (map_prod mutex_view id) (\<lambda>_. of_nat (pop_waits css (mutex_view mq)))
          (mutex_pop (mutex_others scalar_move css) scalar_move out mq)) \<and>
    ((\<forall>n. mpmc_wf n pq) \<and> \<not> pq_closed pq \<longrightarrow>
      map_outcome mpmc_view id (retry_push (mpmc_ops cas scalar_move) (mpmc_bench cas) css v pq) =
        map_outcome mpmc_view (\<lambda>_. of_nat (push_waits css (mpmc_view pq)))
          (mpmc_push cas (mpmc_others cas scalar_move css) scalar_move v pq) \<and>
      map_outcome (map_prod mpmc_view id) id (retry_pop (mpmc_ops cas scalar_move) (mpmc_bench cas) css out pq) =
        map_outcome (map_prod mpmc_view id) (\<lambda>_. of_nat (pop_waits css (mpmc_view pq)))
          (mpmc_pop cas cas (mpmc_others cas scalar_move css) scalar_move out pq)) \<and>
    (spsc_wf sq \<and> \<not> sq_closed sq \<longrightarrow>
      (list_all consumer_call (concat css) \<longrightarrow>
        map_outcome spsc_view id (retry_push (spsc_ops scalar_move) spsc_bench css v sq) =
        map_outcome spsc_view (\<lambda>_. of_nat (push_waits css (spsc_view sq)))
          (spsc_push (spsc_others scalar_move css) scalar_move v sq)) \<and>
      map_outcome (map_prod spsc_view id) id (retry_pop (spsc_ops scalar_move) spsc_bench css out sq) =
        map_outcome (map_prod spsc_view id) (\<lambda>_. of_nat (pop_waits css (spsc_view sq)))
          (spsc_pop (spsc_others scalar_move css) scalar_move out sq))"
proof -
  note mutex = mutex_bench.retry_push_blocks [OF _ _ assms(1), of mq v]
    mutex_bench.retry_pop_blocks [OF _ _ assms(1), of mq out]
  note mpmc = bench_cas.mpmc_retry_push [OF bench_casI [OF assms(2)] _ _ assms(1), of pq v]
    bench_cas.mpmc_retry_pop [OF bench_casI [OF assms(2)] _ _ assms(1), of pq out]
  note spsc = spsc_bench.retry_push_blocks [OF _ _ assms(1), of sq v]
    spsc_bench.retry_pop_blocks [OF _ _ assms(1), of sq out]
  show ?thesis
    using mutex mpmc spsc
    by (intro conjI impI) (simp_all add: list.pred_True mpmc_push_at_0 mpmc_pop_at_0 spsc_push_at_0 spsc_pop_at_0)
qed

theorem bench_retry_is_blocking_witness:
  "\<exists>mq pq sq. mutex_new 8 0 2 = Inr mq \<and> mpmc_new 16 0 2 = Inr pq \<and> spsc_new 8 0 2 = Inr sq \<and>
    map_outcome mutex_view id (retry_push (mutex_ops scalar_move) mutex_bench [[Try_pop 0]] 7 mq) =
      map_outcome mutex_view (\<lambda>_. 0) (mutex_push (mutex_others scalar_move [[Try_pop 0]]) scalar_move 7 mq) \<and>
    map_outcome (map_prod mpmc_view id) id (retry_pop (mpmc_ops [False] scalar_move) (mpmc_bench [False]) [[Try_pop 0]] 9 pq) =
      map_outcome (map_prod mpmc_view id) (\<lambda>_. 1) (mpmc_pop [False] [False] (mpmc_others [False] scalar_move [[Try_pop 0]]) scalar_move 9 pq) \<and>
    map_outcome spsc_view id (retry_push (spsc_ops scalar_move) spsc_bench [[Try_pop 0]] 7 sq) =
      map_outcome spsc_view (\<lambda>_. 0) (spsc_push (spsc_others scalar_move [[Try_pop 0]]) scalar_move 7 sq)"
proof -
  have sweep: "2 \<in> set capacity_sweep" and hyps: "no_close [[Try_pop 0]]" "False \<in> set [False]"
    by (simp_all add: capacity_sweep_def no_close_def)
  obtain mq pq sq where new: "mutex_new 8 (0::usize) 2 = Inr mq" "mpmc_new 16 (0::usize) 2 = Inr pq" "spsc_new 8 (0::usize) 2 = Inr sq"
    using new_swept_queues [OF sweep] by auto
  have "has_single_bit (2 :: usize)"
    using swept_single_bit [OF sweep] by simp
  then have wf: "\<forall>n. mpmc_wf n pq"
    using mpmc_new_wf [OF new(2)] by simp
  have v: "mutex_view mq = \<lparr>items = [], bound = 2, shut = False\<rparr>" "mpmc_view pq = \<lparr>items = [], bound = 2, shut = False\<rparr>"
      "spsc_view sq = \<lparr>items = [], bound = 2, shut = False\<rparr>"
    using mutex_new_wf(2) [OF new(1)] mpmc_new_inv(3) [OF new(2)] spsc_new_wf(2) [OF new(3)] by simp_all
  then have "\<not> mq_closed mq" "\<not> pq_closed pq" "\<not> sq_closed sq"
    by (metis fifo.select_convs(3) mutex_view_sel(3), metis fifo.select_convs(3) mpmc_view_sel(3),
        metis fifo.select_convs(3) spsc_view_sel(3))
  with bench_retry_is_blocking [OF hyps, of mq 7 9 pq sq] bench_retry_is_blocking [OF hyps, of mq 7 7 pq sq]
    mutex_new_wf(1) [OF new(1)] wf spsc_new_wf(1) [OF new(3)] new
  show ?thesis
    by (intro exI [of _ mq] exI [of _ pq] exI [of _ sq]) (simp add: v fifo_full_def)
qed

text \<open>
  C37. The single-thread benchmark is a round trip: every pop returns what the push before it
  put in, none of its calls has to wait, the queue is empty again at the end, and two operations
  an iteration are reported.
\<close>

theorem bench_roundtrip:
  assumes "False \<in> set cas"
  shows "(\<exists>q. BM_QueuePushPopSingleThread mutex_bench n = (Inr (Done () (q, if n = 0 then 0 else 1)), 2 * n) \<and>
      mutex_view q = \<lparr>items = [], bound = 1024, shut = False\<rparr>) \<and>
    (\<exists>q. BM_QueuePushPopSingleThread (mpmc_bench cas) n = (Inr (Done () (q, if n = 0 then 0 else 1)), 2 * n) \<and>
      mpmc_view q = \<lparr>items = [], bound = 1024, shut = False\<rparr>) \<and>
    (\<exists>q. BM_QueuePushPopSingleThread spsc_bench n = (Inr (Done () (q, if n = 0 then 0 else 1)), 2 * n) \<and>
      spsc_view q = \<lparr>items = [], bound = 1024, shut = False\<rparr>)"
  using mutex_bench.bench.single_thread_round_trips [of n] spsc_bench.bench.single_thread_round_trips [of n]
    bench_cas.mpmc_round_trips [OF bench_casI [OF assms], of n] by blast

theorem bench_roundtrip_witness:
  "\<exists>q. BM_QueuePushPopSingleThread (mpmc_bench [True, False]) 3 = (Inr (Done () (q, 1)), 6)"
  using bench_roundtrip [of "[True, False]" 3] by auto

section \<open>What is reported\<close>

lemma push_counters:
  "sum_list (map (push_retries_counter threads r) [0..<threads]) = 2 * (\<Sum>i<threads div 2. real (unat (r i)))"
proof -
  have "sum_list (map (push_retries_counter threads r) [0..<threads]) = (\<Sum>i<threads. push_retries_counter threads r i)"
    by (simp add: interv_sum_list_conv_sum_set_nat atLeast0LessThan)
  also have "\<dots> = (\<Sum>i<threads div 2. push_retries_counter threads r i)"
    by (rule sum.mono_neutral_right) (auto simp: push_retries_counter_def is_producer_def)
  also have "\<dots> = (\<Sum>i<threads div 2. 2 * real (unat (r i)))"
    by (rule sum.cong) (auto simp: push_retries_counter_def is_producer_def side_retries_def)
  finally show ?thesis by (simp add: sum_distrib_left)
qed

lemma pop_counters:
  "sum_list (map (pop_retries_counter threads r) [0..<threads]) = 2 * (\<Sum>i=threads div 2..<threads. real (unat (r i)))"
proof -
  have "sum_list (map (pop_retries_counter threads r) [0..<threads]) = (\<Sum>i<threads. pop_retries_counter threads r i)"
    by (simp add: interv_sum_list_conv_sum_set_nat atLeast0LessThan)
  also have "\<dots> = (\<Sum>i=threads div 2..<threads. pop_retries_counter threads r i)"
    by (rule sum.mono_neutral_right) (auto simp: pop_retries_counter_def is_producer_def)
  also have "\<dots> = (\<Sum>i=threads div 2..<threads. 2 * real (unat (r i)))"
    by (rule sum.cong) (auto simp: pop_retries_counter_def is_producer_def side_retries_def)
  finally show ?thesis by (simp add: sum_distrib_left)
qed

text \<open>
  C38. The counters mean what their names say. A counter of the library is summed over the
  threads and divided by the iterations of all threads (\<open>avg\<close>), a rate by the time of all
  threads (\<open>rate\<close>). For every even thread count the push (pop) counter is then the retries of
  the producers (consumers) for each of their own operations, and the rate is the operations of
  all threads over the wall-clock time; for an odd count the push counter is too low as soon
  as a producer retried.
\<close>

theorem bench_counters:
  fixes avg :: "real list \<Rightarrow> nat \<Rightarrow> real" and rate :: "real list \<Rightarrow> real list \<Rightarrow> real"
  assumes avg: "\<And>xs total. avg xs total = sum_list xs / real total"
    and rate: "\<And>xs times. rate xs times = sum_list xs / sum_list times"
    and pos: "0 < threads" "0 < iterations" "0 < wall"
  shows "(even threads \<longrightarrow>
      avg (map (push_retries_counter threads r) [0..<threads]) (threads * iterations) =
        (\<Sum>i<threads div 2. real (unat (r i))) / real (threads div 2 * iterations) \<and>
      avg (map (pop_retries_counter threads r) [0..<threads]) (threads * iterations) =
        (\<Sum>i=threads div 2..<threads. real (unat (r i))) / real ((threads - threads div 2) * iterations)) \<and>
    (odd threads \<and> (\<exists>i. is_producer threads i \<and> r i \<noteq> 0) \<longrightarrow>
      avg (map (push_retries_counter threads r) [0..<threads]) (threads * iterations) <
        (\<Sum>i<threads div 2. real (unat (r i))) / real (threads div 2 * iterations)) \<and>
    avg (map (retries_counter r) [0..<threads]) (threads * iterations) =
      (\<Sum>i<threads. real (unat (r i))) / real (threads * iterations) \<and>
    rate (replicate threads (items_processed iterations threads)) (replicate threads wall) =
      real (threads * iterations) / wall"
proof (intro conjI impI)
  have half: "real (threads div 2) * 2 = real threads" if "even threads"
    using that by auto
  show "avg (map (push_retries_counter threads r) [0..<threads]) (threads * iterations) =
      (\<Sum>i<threads div 2. real (unat (r i))) / real (threads div 2 * iterations)" if "even threads"
    using half [OF that] pos by (simp add: avg push_counters divide_simps)
  show "avg (map (pop_retries_counter threads r) [0..<threads]) (threads * iterations) =
      (\<Sum>i=threads div 2..<threads. real (unat (r i))) / real ((threads - threads div 2) * iterations)" if "even threads"
    using half [OF that] pos by (simp add: avg pop_counters divide_simps of_nat_diff)
  show "avg (map (push_retries_counter threads r) [0..<threads]) (threads * iterations) <
      (\<Sum>i<threads div 2. real (unat (r i))) / real (threads div 2 * iterations)"
    if mis: "odd threads \<and> (\<exists>i. is_producer threads i \<and> r i \<noteq> 0)"
  proof -
    obtain i where i: "i < threads div 2" and "r i \<noteq> 0"
      using mis by (auto simp: is_producer_def)
    then have "0 < unat (r i)"
      by (simp add: unat_gt_0)
    then have "0 < real (unat (r i))"
      by (simp only: of_nat_0_less_iff)
    then have "0 < (\<Sum>i<threads div 2. real (unat (r i)))"
      using i by (intro sum_pos2 [of _ i]) (simp_all only: of_nat_0_le_iff finite_lessThan lessThan_iff)
    moreover have "real (threads div 2) * 2 < real threads" "0 < real (threads div 2)"
      using mis i by (auto elim!: oddE)
    ultimately show ?thesis
      using pos by (simp add: avg push_counters divide_simps)
  qed
qed (use pos in \<open>simp_all add: avg rate retries_counter_def items_processed_def interv_sum_list_conv_sum_set_nat
  atLeast0LessThan sum_list_replicate divide_simps\<close>)

theorem bench_counters_witness:
  "sum_list (map (push_retries_counter 2 (\<lambda>i. if i = 0 then 3 else 1)) [0..<2]) / real (2 * 4) = 3 / 4 \<and>
   sum_list (map (pop_retries_counter 2 (\<lambda>i. if i = 0 then 3 else 1)) [0..<2]) / real (2 * 4) = 1 / 4"
  using bench_counters [of "\<lambda>xs total. sum_list xs / real total" "\<lambda>xs times. sum_list xs / sum_list times" 2 4 1
      "\<lambda>i. if i = 0 then 3 else 1"] by simp

section \<open>Everything registered ends\<close>

text \<open>
  One registered row of a queue of the library, for one of its arguments and thread counts
  and any number of iterations.
\<close>

fun bench_installs :: "bench_setup \<Rightarrow> ('q, 'x) bench_queue_scheme \<Rightarrow> int \<Rightarrow> 'q install" where
  "bench_installs Setup_queue b arg = setup_queue b"
| "bench_installs Setup_queue_at_capacity b arg = setup_queue_at_capacity b arg"
| "bench_installs No_setup b arg = Setup_stuck"

fun row_ends :: "bench_body \<Rightarrow> bench_setup \<Rightarrow> 'q try_queue \<Rightarrow> int \<Rightarrow> nat \<Rightarrow> nat \<Rightarrow> bool" where
  "row_ends Queue_throughput setup b arg threads iterations =
     (\<exists>q. bench_installs setup b arg = Installed q \<and>
        completes (throughput_step b threads) threads (bench_start threads iterations q))"
| "row_ends Queue_try_throughput setup b arg threads iterations =
     (\<exists>q. bench_installs setup b arg = Installed q \<and>
        completes (try_throughput_step b threads) threads (bench_start threads iterations q))"
| "row_ends Push_pop_single_thread setup b arg threads iterations =
     (threads = 1 \<and> (\<exists>q v. fst (BM_QueuePushPopSingleThread b iterations) = Inr (Done () (q, v))))"
| "row_ends Spsc_bulk_throughput setup b arg threads iterations =
     (threads = 2 \<and> (\<exists>q. bench_installs setup spsc_bench arg = Installed q \<and>
        (\<forall>s. bench_reachable bulk_step (bulk_start iterations q) s \<longrightarrow>
          (\<exists>t. bench_reachable bulk_step s t \<and> bulk_completed t))))"

text \<open>The rows of the external queues depend on code that is not part of the library.\<close>

fun queue_row_ends :: "bool list \<Rightarrow> queue_kind \<Rightarrow> bench_body \<Rightarrow> bench_setup \<Rightarrow> int \<Rightarrow> nat \<Rightarrow> nat \<Rightarrow> bool" where
  "queue_row_ends cas Mutex_kind body setup arg threads n = row_ends body setup mutex_bench arg threads n"
| "queue_row_ends cas Spsc_kind body setup arg threads n = (threads \<le> 2 \<and> row_ends body setup spsc_bench arg threads n)"
| "queue_row_ends cas Mpmc_kind body setup arg threads n = row_ends body setup (mpmc_bench cas) arg threads n"
| "queue_row_ends cas Tbb_kind body setup arg threads n = True"
| "queue_row_ends cas Moodycamel_kind body setup arg threads n = True"

definition registration_ends :: "bool list \<Rightarrow> registration \<Rightarrow> bool" where
  "registration_ends cas r \<longleftrightarrow>
     list_all (\<lambda>threads. list_all (\<lambda>arg. \<forall>n. queue_row_ends cas (reg_queue r) (reg_body r) (reg_setup r) arg threads n)
       (if reg_args r = [] then [0] else reg_args r)) (reg_threads r)"

context bench_fifo
begin

lemma even_run:
  assumes "i \<in> set capacity_sweep" and "even threads"
  shows "\<exists>q. setup_queue_at_capacity b i = Installed q \<and>
    completes (throughput_step b threads) threads (bench_start threads iterations q) \<and>
    completes (try_throughput_step b threads) threads (bench_start threads iterations q)"
proof -
  have "threads - threads div 2 - threads div 2 = 0"
    using assms(2) by auto
  then show ?thesis
    using started_run [OF assms(1)] by fastforce
qed

lemma even_rows:
  assumes "even threads"
  shows "row_ends Queue_throughput Setup_queue b arg threads n"
    and "i \<in> set capacity_sweep \<Longrightarrow> row_ends Queue_try_throughput Setup_queue_at_capacity b i threads n"
    and "row_ends Push_pop_single_thread setup b arg 1 n"
proof -
  have "1024 \<in> set capacity_sweep" "setup_queue b = setup_queue_at_capacity b 1024"
    by (simp_all add: capacity_sweep_def setup_queue_def setup_queue_at_capacity_def kCapacity_def)
  then show "row_ends Queue_throughput Setup_queue b arg threads n"
    using even_run [OF _ assms, of 1024 n] by auto
  show "i \<in> set capacity_sweep \<Longrightarrow> row_ends Queue_try_throughput Setup_queue_at_capacity b i threads n"
    using even_run [OF _ assms, of i n] by auto
  show "row_ends Push_pop_single_thread setup b arg 1 n"
    using single_thread_round_trips [of n] by auto
qed

end

context bench_cas
begin

lemmas mpmc_even_rows = mpmc_bench.bench.even_rows

end

lemma bulk_row_ends: "row_ends Spsc_bulk_throughput Setup_queue b arg 2 n"
proof -
  have k: "1024 \<in> set capacity_sweep" "kCapacity = word_of_int 1024"
    by (simp_all add: capacity_sweep_def kCapacity_def)
  obtain q where q: "setup_queue spsc_bench = Installed q" "spsc_wf q"
      "spsc_view q = \<lparr>items = map of_nat [0..<nat 1024 div 2], bound = nat 1024, shut = False\<rparr>"
    using spsc_bench.bench.install_swept [OF k(1)] k(2) by (auto simp: setup_queue_def)
  have "bulk_inv (bulk_start n q)"
    using bulk_start_inv [OF q(2), of "map of_nat [0..<512]"] q(3) by simp
  then show ?thesis
    using q(1) bulk_reachable_inv bulk_can_complete by fastforce
qed

text \<open>
  C24. Everything registered on the queues of the library can be run to its end, for any number
  of iterations: no row can hang, \<^verbatim>\<open>SpscQueue\<close> is registered with one thread a side only, and the
  names under which rows are reported are different. Every row that installs a shared queue also
  tears it down, so no run finds the items of an earlier one; and the
  assertion on the thread counts holds.
\<close>

theorem bench_registered_complete:
  assumes "False \<in> set cas"
  shows "list_all (registration_ends cas) registrations \<and> distinct (map reg_name registrations) \<and>
    list_all (\<lambda>r. reg_setup r \<noteq> No_setup \<longrightarrow> shared_after r (p :: 'q option) = None) registrations \<and> paired_threads"
proof -
  note rows = mutex_bench.bench.even_rows spsc_bench.bench.even_rows
    bench_cas.mpmc_even_rows [OF bench_casI [OF assms]] bulk_row_ends
  have sweep: "capacity_sweep \<noteq> []"
    by (simp add: capacity_sweep_def)
  have "list_all (registration_ends cas) throughput_registrations"
    by (auto simp: registration_ends_def throughput_registrations_def throughput_registration_def bulk_registration_def
        kSpscThreads_def kMpmcThreads_def simp del: row_ends.simps intro: rows)
  moreover have "list_all (registration_ends cas) try_registrations"
    using sweep
    by (auto simp: registration_ends_def try_registrations_def try_registration_def list_all_iff kSpscThreads_def
        simp del: row_ends.simps intro!: rows(2,5,8))
  moreover have "list_all (registration_ends cas) single_registrations"
    using rows(3,6,9) [of 2]
    by (auto simp: registration_ends_def single_registrations_def single_registration_def simp del: row_ends.simps)
  moreover have "distinct (map reg_name registrations)"
    by (simp add: registrations_def throughput_registrations_def throughput_registration_def bulk_registration_def
        try_registrations_def try_registration_def single_registrations_def single_registration_def)
  moreover have "list_all (\<lambda>r. reg_setup r \<noteq> No_setup \<longrightarrow> shared_after r p = None) registrations"
    by (simp add: registrations_def throughput_registrations_def throughput_registration_def bulk_registration_def
        try_registrations_def try_registration_def single_registrations_def single_registration_def shared_after_def
        teardown_queue_def)
  moreover have paired_threads
    by (simp add: paired_threads_def kSpscThreads_def kMpmcThreads_def)
  ultimately show ?thesis
    by (simp add: registrations_def)
qed

theorem bench_registered_complete_witness: "list_all (registration_ends [False]) registrations"
  using bench_registered_complete [of "[False]" "None :: unit option"] by simp

end
