(* ===== verification/Spec2Isabelle.thy ===== *)
theory Spec2Isabelle
  imports Cache_Layout Queue_Typing Exception_Safety Mpmc_Wraparound Spsc_Properties Spsc_Progress Mpmc_Properties Mpmc_Progress Mutex_Properties Bench_Properties
begin

text \<open>
  A verification of \<^emph>\<open>concurrent-queue\<close>: three bounded FIFO queues with one contract
  (README, ``The contract''), \<^verbatim>\<open>cq::MutexQueue\<close>, \<^verbatim>\<open>cq::SpscQueue\<close> and \<^verbatim>\<open>cq::MpmcQueue\<close>, the
  wait policy \<^verbatim>\<open>Backoff\<close> that the lock-free ones share, and the benchmark harness that runs
  them against each other.

  \<^bold>\<open>Parts and theories.\<close>

  \<^item> \<open>Cq_Prelude\<close>: machine words (\<^verbatim>\<open>std::size_t\<close> is \<open>64 word\<close>), the result of a call
    (returned, threw, undefined, still waiting), \<^verbatim>\<open>std::vector\<close>, the move assignment of the
    element type as a parameter with the two requirements of the headers as locales, and the
    arithmetic of ring windows.
  \<^item> \<open>Fifo_Spec\<close>: the contract as an abstract bounded FIFO (a list, a bound, a closed flag);
    the interface \<open>bounded_fifo\<close> and what every client gets from it (runs of calls refine the
    abstract queue, items are conserved in order, the two non-blocking loops of the README end).
  \<^item> \<open>Blocking\<close>: the blocking calls as an interface, \<open>blocking_fifo\<close>.
  \<^item> \<open>Backoff\<close>: include/cq/backoff.hpp.
  \<^item> \<open>Mutex_Queue\<close>, \<open>Spsc_Queue\<close>, \<open>Mpmc_Queue\<close>: include/cq/*_queue.hpp and .ipp, every member as
    a function on a record of the class's members: the constructor with its errors, \<^verbatim>\<open>push\<close>,
    \<^verbatim>\<open>try_push\<close>, \<^verbatim>\<open>pop\<close>, \<^verbatim>\<open>try_pop\<close>, the timed and the bulk calls, \<^verbatim>\<open>close\<close>, \<^verbatim>\<open>closed\<close>, \<^verbatim>\<open>size\<close>,
    \<^verbatim>\<open>capacity\<close> and the private helpers, throwing move assignments included. A call that
    waits takes a schedule of what other threads do at each wait; when the schedule is used up
    the call is \<open>Waiting\<close>. Each theory has the representation invariant, the abstraction to the
    FIFO list, and interprets the two interfaces.
  \<^item> \<open>Mpmc_Wraparound\<close>: \<^verbatim>\<open>MpmcQueue\<close> at the point where its tickets wrap around.
  \<^item> \<open>Cache_Layout\<close>: include/cq/cache_line.hpp and the placement of the members it aligns.
  \<^item> \<open>Queue_Typing\<close>: the members as one language of calls, which of it compiles (the members of each
    class and the \<^verbatim>\<open>static_assert\<close>s on the element type), and the interface \<open>typed_queue\<close>: progress
    and preservation of one call give both for every client that makes its calls one at a time.
  \<^item> \<open>Exception_Safety\<close>: the calls of \<open>MutexQueue\<close> and \<open>SpscQueue\<close> that move one element, with a move
    assignment that may throw: what each of them has done to the state in which it stopped waiting.
  \<^item> \<open>Ra_Memory\<close>: the release/acquire part of the C++ memory model, with stale reads and a
    definition of data race for the slots.
  \<^item> \<open>Spsc_Concurrent\<close>, \<open>Spsc_Invariant\<close>, \<open>Spsc_Shutdown\<close>, \<open>Spsc_Properties\<close>, \<open>Spsc_Progress\<close>:
    \<^verbatim>\<open>SpscQueue\<close> with a producer, a consumer and an owner running at the same time, one atomic or
    slot access a step; the element type may have a throwing move assignment, and then any move of
    a single-element call may throw.
  \<^item> \<open>Mpmc_Concurrent\<close>, \<open>Mpmc_Invariant\<close>, \<open>Mpmc_Quiescence\<close>, \<open>Mpmc_Properties\<close>, \<open>Mpmc_Progress\<close>: the
    same for \<^verbatim>\<open>MpmcQueue\<close> and any number of threads.
  \<^item> \<open>Mutex_Concurrent\<close>, \<open>Mutex_Monitor\<close>, \<open>Mutex_Properties\<close>: \<^verbatim>\<open>MutexQueue\<close> and any number of
    threads, with the mutex, the two condition variables, notifications, time-outs and spurious
    wake-ups.
  \<^item> \<open>Bench_Harness\<close>, \<open>Bench_Runs\<close>, \<open>Bench_Bulk\<close>, \<open>Bench_Properties\<close>: bench/queue_bench.cpp and
    bench/try_operation.hpp: the adapters, the half-full start and the teardown, the bodies of the
    benchmarks as steps of their threads, the reported counters and the table of registrations.
  \<^item> this theory: the properties of the sequential models, and those that span the queues.

  \<^bold>\<open>What is shown.\<close> One thread at a time: every sequence of calls on a newly built queue
  answers as the abstract FIFO does, for all three queues, with indices and counters at their
  width, and the bound on the number of pushes that \<^verbatim>\<open>MpmcQueue\<close> has for other than power-of-two
  capacities is exact; blocking calls behave as the abstract ones and return as soon as there is
  something to return with; a client that compiles and makes its calls one at a time never reaches undefined
  behaviour, whatever it catches or leaves waiting; a throwing move leaves a consistent queue in the
  non-blocking, the blocking and the timed calls; constructors, sizes, slot indexing, the bulk and the
  timed calls and the back-off schedule are characterised. Many
  threads: slot accesses of the lock-free queues never race, items come out once and in order,
  the capacity is never exceeded, a throwing move of \<^verbatim>\<open>SpscQueue\<close> loses nothing; the non-blocking
  calls of \<^verbatim>\<open>SpscQueue\<close> are wait-free (a bounded number of own steps, never stuck) and those of
  \<^verbatim>\<open>MpmcQueue\<close> can return wherever the other threads have stopped; at rest the queue is a state of
  the sequential model; \<^verbatim>\<open>size\<close> is within its bounds at every moment; and a
  failed attempt (``closed and drained'', ``full'', ``empty'') means what the documentation says
  or what the theorem spells out; \<^verbatim>\<open>MutexQueue\<close> is linearizable and loses no wake-up, unless a
  move throws, in which case it can lose one. Benchmarks: the set-up never aborts, a run ends
  exactly under the condition the comments give, the retrying rows do the work of the blocking
  ones, the counters mean what they are called, and everything registered on the three queues
  ends.

  \<^bold>\<open>Bounds.\<close> Loops that wait are driven by schedules, not by fuel, and the liveness theorems
  say which schedules make them return. The sequential \<^verbatim>\<open>MpmcQueue\<close> is correct without a limit
  for power-of-two capacities and up to \<open>2 ^ 64\<close> pushes otherwise (\<open>ticket_horizon\<close>); the
  many-thread one up to \<open>2 ^ 62\<close> tickets (\<open>horizon\<close>), some 146 years at \<open>10 ^ 9\<close> operations a
  second. A schedule of spurious compare-exchange failures contains a success
  (\<open>weak_cas\<close>); a thread of \<open>Mpmc_Progress\<close> that runs alone needs at most six steps. The drain and
  offer loops of the README are given a number of passes, and the theorems say how many are enough.

  \<^bold>\<open>Assumptions.\<close> The move assignment of the elements of \<^verbatim>\<open>MpmcQueue\<close>, and of the bulk calls of
  \<^verbatim>\<open>SpscQueue\<close>, does not throw: the code asserts it at compile time. A move assignment that throws
  leaves both objects valid, with any value. In the benchmark model one call is one step and
  numbers of type \<^verbatim>\<open>double\<close> are reals, and item counts are unbounded; the libraries called there (Google Benchmark, oneTBB,
  moodycamel::ConcurrentQueue) are parameters.

  \<^bold>\<open>Not modelled.\<close> Failing allocation (\<^verbatim>\<open>std::bad_alloc\<close>); time: a pause of \<^verbatim>\<open>Backoff\<close> is a value,
  a time-out may strike at any wait; destruction (the documentation requires that no thread uses
  the queue any more); the tests, which exercise the same contract; the clock and the iteration
  count of Google Benchmark. What the map leaves out of the implementation files is comments,
  include guards, forward declarations and the declarations of members whose definitions are mapped.
\<close>

section \<open>Sample queues\<close>

text \<open>Small queues in the middle of their life, on which the properties are exercised.\<close>

definition mutex_sample :: "int mutex_queue" where
  "mutex_sample = \<lparr>mq_buffer = [8, 0, 7], mq_head = 2, mq_tail = 1, mq_size = 2, mq_closed = False, mq_signals = []\<rparr>"

definition spsc_sample :: "int spsc_queue" where
  "spsc_sample = \<lparr>sq_buffer = [8, 0, 0, 7], sq_head = 3, sq_tail_cache = 0, sq_tail = 1, sq_head_cache = 3, sq_closed = False\<rparr>"

definition mpmc_sample :: "int mpmc_queue" where
  "mpmc_sample =
     \<lparr>pq_slots = [\<lparr>slot_sequence = 0, slot_value = 0\<rparr>, \<lparr>slot_sequence = 2, slot_value = 0\<rparr>], pq_mask = 1,
      pq_enqueue_pos = 0, pq_dequeue_pos = 0, pq_closed = False\<rparr>"

lemma mutex_new_sample:
  "mutex_new 4 (0::int) 2 =
     Inr \<lparr>mq_buffer = [0, 0], mq_head = 0, mq_tail = 0, mq_size = 0, mq_closed = False, mq_signals = []\<rparr>"
  by (simp add: mutex_new_def vector_new_def vector_max_size_def replicate_small)

lemma spsc_new_sample:
  "spsc_new 4 (0::int) 2 =
     Inr \<lparr>sq_buffer = [0, 0, 0], sq_head = 0, sq_tail_cache = 0, sq_tail = 0, sq_head_cache = 0, sq_closed = False\<rparr>"
  by (simp add: spsc_new_def ring_slots_def vector_new_def vector_max_size_def replicate_small)

lemma mpmc_new_sample: "mpmc_new 16 (0::int) 2 = Inr mpmc_sample"
proof -
  have "has_single_bit 2"
    by (simp add: has_single_bit_def list_ex_iff) (intro bexI [of _ 1], simp_all)
  then show ?thesis
    by (simp add: mpmc_new_def make_slots_def vector_new_def vector_max_size_def init_sequences_def mpmc_sample_def
        replicate_small upt_small)
qed

lemma mutex_sample_wf: "mutex_wf mutex_sample"
  by (simp add: mutex_sample_def mutex_wf_def)

lemma spsc_sample_wf: "spsc_wf spsc_sample"
  by (simp add: spsc_sample_def spsc_wf_def ring_dist_def)

definition mutex_full :: "int mutex_queue" where
  "mutex_full = \<lparr>mq_buffer = [6, 5], mq_head = 1, mq_tail = 1, mq_size = 2, mq_closed = False, mq_signals = []\<rparr>"

definition spsc_full :: "int spsc_queue" where
  "spsc_full = \<lparr>sq_buffer = [6, 0, 5], sq_head = 2, sq_tail_cache = 0, sq_tail = 1, sq_head_cache = 2, sq_closed = False\<rparr>"

lemma mutex_full_wf: "mutex_wf mutex_full"
  by (simp add: mutex_full_def mutex_wf_def mod_Suc)

lemma mutex_full_view: "mutex_view mutex_full = \<lparr>items = [5, 6], bound = 2, shut = False\<rparr>"
  by (simp add: mutex_full_def mutex_view_def ring_items_def upt_small)

lemma spsc_full_wf: "spsc_wf spsc_full"
  by (simp add: spsc_full_def spsc_wf_def ring_dist_def)

lemma spsc_full_view: "spsc_view spsc_full = \<lparr>items = [5, 6], bound = 2, shut = False\<rparr>"
  by (simp add: spsc_full_def spsc_view_def spsc_len_def ring_dist_def ring_items_def upt_small)

section \<open>Construction\<close>

lemma mutex_construction:
  assumes "0 < sz"
  shows "case mutex_new sz dflt capacity of
      Inl e \<Rightarrow> (e = Invalid_argument \<and> capacity = 0) \<or>
        (e = Length_error \<and> vector_max_size sz < unat capacity)
    | Inr q \<Rightarrow> capacity \<noteq> 0 \<and> unat capacity \<le> vector_max_size sz \<and> mutex_wf q \<and>
        mutex_view q = \<lparr>items = [], bound = unat capacity, shut = False\<rparr>"
proof (cases "mutex_new sz dflt capacity")
  case (Inl e)
  then show ?thesis by (auto simp: mutex_new_def vector_new_def split: if_splits)
next
  case (Inr q)
  then show ?thesis using mutex_new_wf [OF Inr assms] by simp
qed

lemma spsc_construction:
  assumes "0 < sz"
  shows "case spsc_new sz dflt capacity of
      Inl e \<Rightarrow> (e = Invalid_argument \<and> capacity = 0) \<or>
        (e = Length_error \<and> (capacity = - 1 \<or> vector_max_size sz < unat (capacity + 1)))
    | Inr q \<Rightarrow> capacity \<noteq> 0 \<and> unat capacity + 1 \<le> vector_max_size sz \<and> spsc_wf q \<and>
        length (sq_buffer q) = unat capacity + 1 \<and>
        spsc_view q = \<lparr>items = [], bound = unat capacity, shut = False\<rparr>"
proof (cases "spsc_new sz dflt capacity")
  case (Inl e)
  then show ?thesis by (auto simp: spsc_new_def ring_slots_def vector_new_def split: if_splits)
next
  case (Inr q)
  note N = spsc_new_wf [OF Inr assms]
  have "length (sq_buffer q) - 1 = unat capacity"
    using N(2) by (metis fifo.select_convs(2) spsc_view_sel(2))
  then show ?thesis
    using Inr N(1-4) spsc_wfD(1) [OF N(1)] by simp
qed

lemma mpmc_construction:
  assumes "8 < sz"
  shows "case mpmc_new sz dflt capacity of
      Inl e \<Rightarrow> (e = Invalid_argument \<and> capacity = 0) \<or>
        (e = Length_error \<and> vector_max_size sz < unat capacity)
    | Inr q \<Rightarrow> capacity \<noteq> 0 \<and> unat capacity \<le> vector_max_size sz \<and>
        (has_single_bit capacity \<or> n < 2 ^ 64 \<longrightarrow> mpmc_wf n q) \<and>
        mpmc_view q = \<lparr>items = [], bound = unat capacity, shut = False\<rparr>"
proof (cases "mpmc_new sz dflt capacity")
  case (Inl e)
  then show ?thesis by (auto simp: mpmc_new_def make_slots_def vector_new_def split: if_splits)
next
  case (Inr q)
  then show ?thesis using mpmc_new_inv [OF Inr assms] mpmc_new_wf [OF Inr assms, of n] by simp
qed

text \<open>
  C36. Construction of the three queues on every capacity. Capacity 0 throws
  \<^verbatim>\<open>std::invalid_argument\<close>; a capacity above \<^verbatim>\<open>max_size()\<close> of the buffer (for \<open>SpscQueue\<close>,
  whose ring has a slot to spare: a capacity whose \<^verbatim>\<open>capacity + 1\<close> overflows or exceeds it)
  throws \<^verbatim>\<open>std::length_error\<close>; every other capacity gives a well-formed, open, empty queue of
  exactly that capacity. A newly built \<open>MpmcQueue\<close> has its whole ticket horizon ahead: any
  number of pushes if the capacity is a power of two, fewer than \<open>2 ^ 64\<close> otherwise. (A slot
  of it holds an 8-byte sequence and a value, so it is larger than 8 bytes.)
\<close>

theorem queue_construction:
  assumes "0 < sz" and "8 < slot"
  shows "(case mutex_new sz dflt capacity of
      Inl e \<Rightarrow> (e = Invalid_argument \<and> capacity = 0) \<or>
        (e = Length_error \<and> vector_max_size sz < unat capacity)
    | Inr q \<Rightarrow> capacity \<noteq> 0 \<and> unat capacity \<le> vector_max_size sz \<and> mutex_wf q \<and>
        mutex_view q = \<lparr>items = [], bound = unat capacity, shut = False\<rparr>) \<and>
   (case spsc_new sz dflt capacity of
      Inl e \<Rightarrow> (e = Invalid_argument \<and> capacity = 0) \<or>
        (e = Length_error \<and> (capacity = - 1 \<or> vector_max_size sz < unat (capacity + 1)))
    | Inr q \<Rightarrow> capacity \<noteq> 0 \<and> unat capacity + 1 \<le> vector_max_size sz \<and> spsc_wf q \<and>
        length (sq_buffer q) = unat capacity + 1 \<and>
        spsc_view q = \<lparr>items = [], bound = unat capacity, shut = False\<rparr>) \<and>
   (case mpmc_new slot dflt capacity of
      Inl e \<Rightarrow> (e = Invalid_argument \<and> capacity = 0) \<or>
        (e = Length_error \<and> vector_max_size slot < unat capacity)
    | Inr q \<Rightarrow> capacity \<noteq> 0 \<and> unat capacity \<le> vector_max_size slot \<and>
        (has_single_bit capacity \<or> n < 2 ^ 64 \<longrightarrow> mpmc_wf n q) \<and>
        mpmc_view q = \<lparr>items = [], bound = unat capacity, shut = False\<rparr>)"
  using mutex_construction [OF assms(1), where dflt = dflt and capacity = capacity]
    spsc_construction [OF assms(1), where dflt = dflt and capacity = capacity]
    mpmc_construction [OF assms(2), where dflt = dflt and capacity = capacity and n = n] by blast

theorem queue_construction_witness:
  "mutex_wf (case mutex_new 4 (0::int) 2 of Inr q \<Rightarrow> q | Inl e \<Rightarrow> mutex_sample) \<and> mpmc_wf 1000 mpmc_sample"
  using queue_construction [where sz = 4 and slot = 16 and dflt = "0::int" and capacity = 2 and n = 1000]
  by (simp add: mutex_new_sample mpmc_new_sample)

section \<open>Sequences of calls refine the abstract queue\<close>

text \<open>
  C12. Any sequence of \<^verbatim>\<open>try_push\<close>, \<^verbatim>\<open>try_pop\<close>, \<^verbatim>\<open>close\<close>, \<^verbatim>\<open>closed\<close>, \<^verbatim>\<open>size\<close> and
  \<^verbatim>\<open>capacity\<close> calls on a newly built \<open>MutexQueue\<close> runs without undefined behaviour and gives
  exactly the replies of a bounded FIFO list of that capacity; for elements whose move
  assignment does not throw.
\<close>

theorem mutex_refines_fifo:
  assumes "nothrow_move_assignable mv" and "0 < sz" and "mutex_new sz dflt capacity = Inr q"
  shows "\<exists>q'. run_calls (mutex_ops mv) cs q =
      Some (fst (fifo_run cs \<lparr>items = [], bound = unat capacity, shut = False\<rparr>), q') \<and>
    mutex_view q' = snd (fifo_run cs \<lparr>items = [], bound = unat capacity, shut = False\<rparr>) \<and> mutex_wf q'"
proof -
  note N = mutex_new_wf [OF assms(3,2)]
  show ?thesis
    using nothrow_move_assignable.mutex_run_refines [OF assms(1) N(1)] by (simp add: N(2))
qed

theorem mutex_refines_fifo_witness:
  "\<exists>q'. run_calls (mutex_ops scalar_move) [Try_push 5, Try_push 6, Try_push 7, Get_size, Try_pop 0, Close, Try_push 8]
       \<lparr>mq_buffer = [0, 0 :: int], mq_head = 0, mq_tail = 0, mq_size = 0, mq_closed = False, mq_signals = []\<rparr> =
     Some ([Flag True, Flag True, Flag False, Num 2, Got True 5, Unit, Flag False], q') \<and>
     mutex_view q' = \<lparr>items = [6], bound = 2, shut = True\<rparr> \<and> mutex_wf q'"
  using mutex_refines_fifo [OF scalar.nothrow_move_assignable_axioms _ mutex_new_sample,
      of "[Try_push 5, Try_push 6, Try_push 7, Get_size, Try_pop 0, Close, Try_push 8]"]
  by (simp add: fifo_run_Cons fifo_defs del: run_calls.simps flip: numeral_2_eq_2)

text \<open>
  C11. The same for \<open>SpscQueue\<close> used from one thread: the two index caches and the spare
  slot are invisible in the replies.
\<close>

theorem spsc_refines_fifo:
  assumes "nothrow_move_assignable mv" and "0 < sz" and "spsc_new sz dflt capacity = Inr q"
  shows "\<exists>q'. run_calls (spsc_ops mv) cs q =
      Some (fst (fifo_run cs \<lparr>items = [], bound = unat capacity, shut = False\<rparr>), q') \<and>
    spsc_view q' = snd (fifo_run cs \<lparr>items = [], bound = unat capacity, shut = False\<rparr>) \<and> spsc_wf q'"
proof -
  note N = spsc_new_wf [OF assms(3,2)]
  show ?thesis
    using nothrow_move_assignable.spsc_run_refines [OF assms(1) N(1)] by (simp add: N(2))
qed

theorem spsc_refines_fifo_witness:
  "\<exists>q'. run_calls (spsc_ops scalar_move) [Try_push 5, Try_push 6, Try_push 7, Try_pop 0, Try_push 8, Get_size]
       \<lparr>sq_buffer = [0, 0, 0 :: int], sq_head = 0, sq_tail_cache = 0, sq_tail = 0, sq_head_cache = 0, sq_closed = False\<rparr> =
     Some ([Flag True, Flag True, Flag False, Got True 5, Flag True, Num 2], q') \<and>
     spsc_view q' = \<lparr>items = [6, 8], bound = 2, shut = False\<rparr> \<and> spsc_wf q'"
  using spsc_refines_fifo [OF scalar.nothrow_move_assignable_axioms _ spsc_new_sample,
      of "[Try_push 5, Try_push 6, Try_push 7, Try_pop 0, Try_push 8, Get_size]"]
  by (simp add: fifo_run_Cons fifo_defs del: run_calls.simps flip: numeral_2_eq_2)

text \<open>
  C10. The same for \<open>MpmcQueue\<close>, whatever the pattern \<open>cas\<close> of spurious failures of the
  weak compare-exchange, as long as some attempt goes through; for a power-of-two capacity
  without any limit on the number of calls (tickets and sequences wrap around), for any other
  capacity for fewer than \<open>2 ^ 64\<close> pushes.
\<close>

theorem mpmc_refines_fifo:
  assumes "weak_cas mv cas" and "8 < sz" and "mpmc_new sz dflt capacity = Inr q"
    and "has_single_bit capacity \<or> pushes cs < 2 ^ 64"
  shows "\<exists>q'. run_calls (mpmc_ops cas mv) cs q =
      Some (fst (fifo_run cs \<lparr>items = [], bound = unat capacity, shut = False\<rparr>), q') \<and>
    mpmc_view q' = snd (fifo_run cs \<lparr>items = [], bound = unat capacity, shut = False\<rparr>) \<and> mpmc_wf 0 q'"
proof -
  have "mpmc_wf (0 + pushes cs) q"
    using mpmc_new_wf [OF assms(3,2)] assms(4) by simp
  then show ?thesis
    using weak_cas.mpmc_run_refines [OF assms(1), of 0 cs q] mpmc_new_inv(3) [OF assms(3,2)] by simp
qed

theorem mpmc_refines_fifo_witness:
  "\<exists>q'. run_calls (mpmc_ops [True, False] scalar_move)
       [Try_push 5, Try_push 6, Try_push 7, Try_pop 0, Try_push 8, Get_size] mpmc_sample =
     Some ([Flag True, Flag True, Flag False, Got True 5, Flag True, Num 2], q') \<and>
     mpmc_view q' = \<lparr>items = [6, 8], bound = 2, shut = False\<rparr> \<and> mpmc_wf 0 q'"
  using mpmc_refines_fifo [OF scalar_cas.weak_cas_axioms _ mpmc_new_sample,
      of "[Try_push 5, Try_push 6, Try_push 7, Try_pop 0, Try_push 8, Get_size]"]
  by (simp add: fifo_run_Cons fifo_defs del: run_calls.simps flip: numeral_2_eq_2)

section \<open>Nothing is lost, duplicated or reordered\<close>

lemma mutex_conserves:
  assumes "nothrow_move_assignable mv" and "mutex_wf q"
  shows "\<exists>rs q'. run_calls (mutex_ops mv) cs q = Some (rs, q') \<and>
    items (mutex_view q) @ accepted cs rs = delivered rs @ items (mutex_view q') \<and>
    length (items (mutex_view q')) \<le> bound (mutex_view q) \<and>
    (mutex_closed q \<longrightarrow> accepted cs rs = [])"
  using bounded_fifo.run_summary [OF nothrow_move_assignable.mutex_bounded_fifo [OF assms(1)] assms(2)]
  by (simp add: mutex_ops_def del: mutex_view_sel)

lemma spsc_conserves:
  assumes "nothrow_move_assignable mv" and "spsc_wf q"
  shows "\<exists>rs q'. run_calls (spsc_ops mv) cs q = Some (rs, q') \<and>
    items (spsc_view q) @ accepted cs rs = delivered rs @ items (spsc_view q') \<and>
    length (items (spsc_view q')) \<le> bound (spsc_view q) \<and>
    (spsc_closed q \<longrightarrow> accepted cs rs = [])"
  using bounded_fifo.run_summary [OF nothrow_move_assignable.spsc_bounded_fifo [OF assms(1)] assms(2)]
  by (simp add: spsc_ops_def del: spsc_view_sel)

lemma mpmc_conserves:
  assumes "weak_cas mv cas" and "mpmc_wf (pushes cs) q"
  shows "\<exists>rs q'. run_calls (mpmc_ops cas mv) cs q = Some (rs, q') \<and>
    items (mpmc_view q) @ accepted cs rs = delivered rs @ items (mpmc_view q') \<and>
    length (items (mpmc_view q')) \<le> bound (mpmc_view q) \<and>
    (mpmc_closed q \<longrightarrow> accepted cs rs = [])"
  using bounded_fifo.run_summary [OF weak_cas.mpmc_bounded_fifo [OF assms(1)], of 0 cs q] assms(2)
  by (simp add: mpmc_ops_def del: mpmc_view_sel)

text \<open>
  C29. From any well-formed state of each of the three queues, a sequence of calls delivers
  the queued items and then the accepted ones, in order and each once; what was not
  delivered is still queued; the queue never holds more than its capacity; nothing is
  accepted once it is closed.
\<close>

theorem queues_conserve:
  assumes "weak_cas mv cas"
  shows "(mutex_wf mq \<longrightarrow> (\<exists>rs q'. run_calls (mutex_ops mv) cs mq = Some (rs, q') \<and>
      items (mutex_view mq) @ accepted cs rs = delivered rs @ items (mutex_view q') \<and>
      length (items (mutex_view q')) \<le> bound (mutex_view mq) \<and> (mutex_closed mq \<longrightarrow> accepted cs rs = []))) \<and>
    (spsc_wf sq \<longrightarrow> (\<exists>rs q'. run_calls (spsc_ops mv) cs sq = Some (rs, q') \<and>
      items (spsc_view sq) @ accepted cs rs = delivered rs @ items (spsc_view q') \<and>
      length (items (spsc_view q')) \<le> bound (spsc_view sq) \<and> (spsc_closed sq \<longrightarrow> accepted cs rs = []))) \<and>
    (mpmc_wf (pushes cs) pq \<longrightarrow> (\<exists>rs q'. run_calls (mpmc_ops cas mv) cs pq = Some (rs, q') \<and>
      items (mpmc_view pq) @ accepted cs rs = delivered rs @ items (mpmc_view q') \<and>
      length (items (mpmc_view q')) \<le> bound (mpmc_view pq) \<and> (mpmc_closed pq \<longrightarrow> accepted cs rs = [])))"
  using mutex_conserves [OF weak_cas.axioms(1) [OF assms], of mq cs] spsc_conserves [OF weak_cas.axioms(1) [OF assms], of sq cs]
    mpmc_conserves [OF assms, of cs pq] by blast

theorem queues_conserve_witness:
  "\<exists>rs q'. run_calls (mutex_ops scalar_move) [Try_pop 0, Try_push 9] mutex_sample = Some (rs, q') \<and>
    items (mutex_view mutex_sample) @ accepted [Try_pop 0, Try_push 9] rs = delivered rs @ items (mutex_view q')"
  using queues_conserve [OF scalar_cas.weak_cas_axioms] mutex_sample_wf by metis

section \<open>Blocking calls\<close>

lemma mpmc_blocking_refines:
  assumes "weak_cas mv cas" and "mpmc_wf (pushes (concat css) + 1) q"
  shows "map_outcome mpmc_view id (mpmc_push cas (mpmc_others cas mv css) mv v q) = fifo_push css v (mpmc_view q) \<and>
    map_outcome (map_prod mpmc_view id) id (mpmc_pop cas cas (mpmc_others cas mv css) mv out q) = fifo_pop css out (mpmc_view q)"
proof -
  have "mpmc_wf (0 + pushes (concat css)) q"
    using assms(2) mpmc_wf_less by simp
  then show ?thesis
    using weak_cas.mpmc_push_refines [OF assms(1), of 0 css q 0 v] weak_cas.mpmc_pop_refines [OF assms(1), of 0 css q 0 out] assms(2)
    by (simp add: list_all_iff mpmc_push_at_0 mpmc_pop_at_0)
qed

text \<open>
  C20. The blocking calls of the three queues, woken any number of times between arbitrary calls
  of other threads, do exactly what the abstract blocking calls do: a \<^verbatim>\<open>push\<close> waits while the
  queue is open and full and ends at the first wake-up that finds it closed (false) or with room
  (appends); a \<^verbatim>\<open>pop\<close> waits while it is open and empty, takes the front item, or returns false
  once it is closed and empty. They never throw, crash or return early. (A waiting \<^verbatim>\<open>push\<close> of
  \<open>SpscQueue\<close> runs beside the consumer and closers only; \<open>MpmcQueue\<close> within its ticket horizon.)
\<close>

theorem blocking_refines:
  assumes "weak_cas mv cas"
  shows "(mutex_wf mq \<longrightarrow>
      map_outcome mutex_view id (mutex_push (mutex_others mv css) mv v mq) = fifo_push css v (mutex_view mq) \<and>
      map_outcome (map_prod mutex_view id) id (mutex_pop (mutex_others mv css) mv out mq) = fifo_pop css out (mutex_view mq)) \<and>
    (spsc_wf sq \<longrightarrow> (list_all consumer_call (concat css) \<longrightarrow>
        map_outcome spsc_view id (spsc_push (spsc_others mv css) mv v sq) = fifo_push css v (spsc_view sq)) \<and>
      map_outcome (map_prod spsc_view id) id (spsc_pop (spsc_others mv css) mv out sq) = fifo_pop css out (spsc_view sq)) \<and>
    (mpmc_wf (pushes (concat css) + 1) pq \<longrightarrow>
      map_outcome mpmc_view id (mpmc_push cas (mpmc_others cas mv css) mv v pq) = fifo_push css v (mpmc_view pq) \<and>
      map_outcome (map_prod mpmc_view id) id (mpmc_pop cas cas (mpmc_others cas mv css) mv out pq) =
        fifo_pop css out (mpmc_view pq))"
proof -
  note mv = weak_cas.axioms(1) [OF assms]
  show ?thesis
    using nothrow_move_assignable.mutex_push_refines [OF mv, of mq css v]
      nothrow_move_assignable.mutex_pop_refines [OF mv, of mq css out]
      nothrow_move_assignable.spsc_push_refines [OF mv, of sq css 0 v]
      nothrow_move_assignable.spsc_pop_refines [OF mv, of sq css 0 out]
      mpmc_blocking_refines [OF assms, of css pq v out]
    by (simp add: list_all_iff spsc_push_at_0 spsc_pop_at_0)
qed

theorem blocking_refines_witness:
  "map_outcome mutex_view id (mutex_push (mutex_others scalar_move [[Get_size], [Try_pop 0]]) scalar_move 9 mutex_full) =
     Done True \<lparr>items = [6, 9], bound = 2, shut = False\<rparr> \<and>
   map_outcome spsc_view id (spsc_push (spsc_others scalar_move [[Get_size], [Try_pop 0]]) scalar_move 9 spsc_full) =
     Done True \<lparr>items = [6, 9], bound = 2, shut = False\<rparr>"
  using blocking_refines [OF scalar_cas.weak_cas_axioms, of mutex_full "[[Get_size], [Try_pop 0]]" 9 0 spsc_full]
    mutex_full_wf spsc_full_wf
  by (simp add: mutex_full_view spsc_full_view fifo_push.simps fifo_run_Cons fifo_defs)

section \<open>Blocking calls return\<close>

lemma mutex_blocking_returns:
  assumes "nothrow_move_assignable mv" and "mutex_wf q" and "f = snd (fifo_run (concat css) (mutex_view q))"
  shows "(shut f \<or> \<not> fifo_full f \<longrightarrow> (\<exists>b q'. mutex_push (mutex_others mv css) mv v q = Done b q')) \<and>
    (shut f \<or> items f \<noteq> [] \<longrightarrow> (\<exists>b s. mutex_pop (mutex_others mv css) mv out q = Done b s))"
  using push_returns [of mutex_view "mutex_push (mutex_others mv css) mv v q"]
    pop_returns [of "map_prod mutex_view id" "mutex_pop (mutex_others mv css) mv out q"]
    nothrow_move_assignable.mutex_push_refines [OF assms(1), of q css v]
    nothrow_move_assignable.mutex_pop_refines [OF assms(1), of q css out] assms(2,3)
  by (simp add: list_all_iff)

lemma spsc_blocking_returns:
  assumes "nothrow_move_assignable mv" and "spsc_wf q" and "f = snd (fifo_run (concat css) (spsc_view q))"
  shows "(list_all consumer_call (concat css) \<and> (shut f \<or> \<not> fifo_full f) \<longrightarrow>
      (\<exists>b q'. spsc_push (spsc_others mv css) mv v q = Done b q')) \<and>
    (shut f \<or> items f \<noteq> [] \<longrightarrow> (\<exists>b s. spsc_pop (spsc_others mv css) mv out q = Done b s))"
  using push_returns [of spsc_view "spsc_push (spsc_others mv css) mv v q"]
    pop_returns [of "map_prod spsc_view id" "spsc_pop (spsc_others mv css) mv out q"]
    nothrow_move_assignable.spsc_push_refines [OF assms(1), of q css 0 v]
    nothrow_move_assignable.spsc_pop_refines [OF assms(1), of q css 0 out] assms(2,3)
  by (simp add: list_all_iff spsc_push_at_0 spsc_pop_at_0)

lemma mpmc_blocking_returns:
  assumes "weak_cas mv cas" and "mpmc_wf (pushes (concat css) + 1) q" and "f = snd (fifo_run (concat css) (mpmc_view q))"
  shows "(shut f \<or> \<not> fifo_full f \<longrightarrow> (\<exists>b q'. mpmc_push cas (mpmc_others cas mv css) mv v q = Done b q')) \<and>
    (shut f \<or> items f \<noteq> [] \<longrightarrow> (\<exists>b s. mpmc_pop cas cas (mpmc_others cas mv css) mv out q = Done b s))"
proof -
  have "mpmc_wf (0 + pushes (concat css)) q"
    using assms(2) mpmc_wf_less by simp
  then show ?thesis
    using push_returns [of mpmc_view "mpmc_push cas (mpmc_others cas mv css) mv v q"]
      pop_returns [of "map_prod mpmc_view id" "mpmc_pop cas cas (mpmc_others cas mv css) mv out q"]
      weak_cas.mpmc_push_refines [OF assms(1), of 0 css q 0 v] weak_cas.mpmc_pop_refines [OF assms(1), of 0 css q 0 out] assms(2,3)
    by (simp add: list_all_iff mpmc_push_at_0 mpmc_pop_at_0)
qed

text \<open>
  C21. Progress of the blocking calls: a blocked \<^verbatim>\<open>push\<close> returns if the other threads' calls
  leave the queue with room or closed, and a blocked \<^verbatim>\<open>pop\<close> if they leave it nonempty or
  closed; for each of the three queues (for \<open>SpscQueue\<close> the others of a producer are the
  consumer and closers, for \<open>MpmcQueue\<close> within the ticket horizon).
\<close>

theorem blocking_calls_return:
  assumes "weak_cas mv cas"
  shows "(\<forall>f. mutex_wf mq \<and> f = snd (fifo_run (concat css) (mutex_view mq)) \<longrightarrow>
      (shut f \<or> \<not> fifo_full f \<longrightarrow> (\<exists>b q'. mutex_push (mutex_others mv css) mv v mq = Done b q')) \<and>
      (shut f \<or> items f \<noteq> [] \<longrightarrow> (\<exists>b s. mutex_pop (mutex_others mv css) mv out mq = Done b s))) \<and>
    (\<forall>f. spsc_wf sq \<and> f = snd (fifo_run (concat css) (spsc_view sq)) \<longrightarrow>
      (list_all consumer_call (concat css) \<and> (shut f \<or> \<not> fifo_full f) \<longrightarrow>
        (\<exists>b q'. spsc_push (spsc_others mv css) mv v sq = Done b q')) \<and>
      (shut f \<or> items f \<noteq> [] \<longrightarrow> (\<exists>b s. spsc_pop (spsc_others mv css) mv out sq = Done b s))) \<and>
    (\<forall>f. mpmc_wf (pushes (concat css) + 1) pq \<and> f = snd (fifo_run (concat css) (mpmc_view pq)) \<longrightarrow>
      (shut f \<or> \<not> fifo_full f \<longrightarrow> (\<exists>b q'. mpmc_push cas (mpmc_others cas mv css) mv v pq = Done b q')) \<and>
      (shut f \<or> items f \<noteq> [] \<longrightarrow> (\<exists>b s. mpmc_pop cas cas (mpmc_others cas mv css) mv out pq = Done b s)))"
  using mutex_blocking_returns [OF weak_cas.axioms(1) [OF assms], of mq _ css v out]
    spsc_blocking_returns [OF weak_cas.axioms(1) [OF assms], of sq _ css v out]
    mpmc_blocking_returns [OF assms, of css pq _ v out] by blast

theorem blocking_calls_return_witness:
  "\<exists>b q'. mutex_push (mutex_others scalar_move [[Get_size], [Try_pop 0]]) scalar_move 9 mutex_full = Done b q'"
  using blocking_calls_return [OF scalar_cas.weak_cas_axioms, of mutex_full "[[Get_size], [Try_pop 0]]" 9] mutex_full_wf
  by (simp add: mutex_full_view fifo_run_Cons fifo_defs del: mutex_view_sel)

section \<open>The README's non-blocking loops\<close>

lemma drain_loop_drains:
  assumes "weak_cas mv cas"
  shows "(mutex_wf mq \<and> mutex_closed mq \<and> length (items (mutex_view mq)) < k \<longrightarrow>
      (\<exists>q'. drain_loop (mutex_ops mv) k out [] mq = Done (items (mutex_view mq)) q' \<and> items (mutex_view q') = [])) \<and>
    (spsc_wf sq \<and> spsc_closed sq \<and> length (items (spsc_view sq)) < k \<longrightarrow>
      (\<exists>q'. drain_loop (spsc_ops mv) k out [] sq = Done (items (spsc_view sq)) q' \<and> items (spsc_view q') = [])) \<and>
    (mpmc_wf n pq \<and> mpmc_closed pq \<and> length (items (mpmc_view pq)) < k \<longrightarrow>
      (\<exists>q'. drain_loop (mpmc_ops cas mv) k out [] pq = Done (items (mpmc_view pq)) q' \<and> items (mpmc_view q') = []))"
proof -
  have mv: "nothrow_move_assignable mv"
    using assms by (rule weak_cas.axioms)
  show ?thesis
    using nothrow_move_assignable.mutex_drain_closed [OF mv, of mq k out "[]"]
      nothrow_move_assignable.spsc_drain_closed [OF mv, of sq k out "[]"]
      weak_cas.mpmc_drain_closed [OF assms, of n pq k out "[]"]
    by (auto simp: mutex_closed_def spsc_closed_def mpmc_closed_def)
qed

lemma offer_loop_decides:
  assumes "weak_cas mv cas"
  shows "(mutex_wf mq \<and> (shut (mutex_view mq) \<or> \<not> fifo_full (mutex_view mq)) \<longrightarrow>
      map_outcome mutex_view id (offer_loop (mutex_ops mv) (Suc k) v mq) =
        Done (\<not> shut (mutex_view mq)) (snd (fifo_try_push v (mutex_view mq)))) \<and>
    (spsc_wf sq \<and> (shut (spsc_view sq) \<or> \<not> fifo_full (spsc_view sq)) \<longrightarrow>
      map_outcome spsc_view id (offer_loop (spsc_ops mv) (Suc k) v sq) =
        Done (\<not> shut (spsc_view sq)) (snd (fifo_try_push v (spsc_view sq)))) \<and>
    (mpmc_wf 1 pq \<and> (shut (mpmc_view pq) \<or> \<not> fifo_full (mpmc_view pq)) \<longrightarrow>
      map_outcome mpmc_view id (offer_loop (mpmc_ops cas mv) (Suc k) v pq) =
        Done (\<not> shut (mpmc_view pq)) (snd (fifo_try_push v (mpmc_view pq))))"
proof -
  have mv: "nothrow_move_assignable mv"
    using assms by (rule weak_cas.axioms)
  show ?thesis
    using nothrow_move_assignable.mutex_offer_outcome [OF mv, of mq k v]
      nothrow_move_assignable.spsc_offer_outcome [OF mv, of sq k v]
      weak_cas.mpmc_offer_outcome [OF assms, of 0 pq k v]
    by simp
qed

text \<open>
  C30. The two non-blocking loops of the README, for each of the three queues. The consumer loop
  on a closed queue ends, has used exactly the queued items in order, and leaves the queue empty;
  it takes at most one pass per item and a last one. The producer loop ends in its first pass
  unless the queue is open and full: on an open queue with room it enqueues, on a closed one it
  gives up and enqueues nothing.
\<close>

theorem readme_loops_end:
  assumes "weak_cas mv cas"
  shows "(mutex_wf mq \<and> mutex_closed mq \<and> length (items (mutex_view mq)) < k \<longrightarrow>
      (\<exists>q'. drain_loop (mutex_ops mv) k out [] mq = Done (items (mutex_view mq)) q' \<and> items (mutex_view q') = [])) \<and>
    (spsc_wf sq \<and> spsc_closed sq \<and> length (items (spsc_view sq)) < k \<longrightarrow>
      (\<exists>q'. drain_loop (spsc_ops mv) k out [] sq = Done (items (spsc_view sq)) q' \<and> items (spsc_view q') = [])) \<and>
    (mpmc_wf n pq \<and> mpmc_closed pq \<and> length (items (mpmc_view pq)) < k \<longrightarrow>
      (\<exists>q'. drain_loop (mpmc_ops cas mv) k out [] pq = Done (items (mpmc_view pq)) q' \<and> items (mpmc_view q') = [])) \<and>
    (mutex_wf mq \<and> (shut (mutex_view mq) \<or> \<not> fifo_full (mutex_view mq)) \<longrightarrow>
      map_outcome mutex_view id (offer_loop (mutex_ops mv) (Suc k) v mq) =
        Done (\<not> shut (mutex_view mq)) (snd (fifo_try_push v (mutex_view mq)))) \<and>
    (spsc_wf sq \<and> (shut (spsc_view sq) \<or> \<not> fifo_full (spsc_view sq)) \<longrightarrow>
      map_outcome spsc_view id (offer_loop (spsc_ops mv) (Suc k) v sq) =
        Done (\<not> shut (spsc_view sq)) (snd (fifo_try_push v (spsc_view sq)))) \<and>
    (mpmc_wf 1 pq \<and> (shut (mpmc_view pq) \<or> \<not> fifo_full (mpmc_view pq)) \<longrightarrow>
      map_outcome mpmc_view id (offer_loop (mpmc_ops cas mv) (Suc k) v pq) =
        Done (\<not> shut (mpmc_view pq)) (snd (fifo_try_push v (mpmc_view pq))))"
  using drain_loop_drains [OF assms, of mq k out sq n pq] offer_loop_decides [OF assms, of mq k v sq pq]
  by (intro conjI) (elim conjE, assumption)+

theorem readme_loops_end_witness:
  "\<exists>q'. drain_loop (mutex_ops scalar_move) 3 0 [] (mutex_full\<lparr>mq_closed := True\<rparr>) = Done [5, 6] q' \<and> items (mutex_view q') = []"
proof -
  have "mutex_view (mutex_full\<lparr>mq_closed := True\<rparr>) = \<lparr>items = [5, 6], bound = 2, shut = True\<rparr>"
      "mutex_wf (mutex_full\<lparr>mq_closed := True\<rparr>)"
    using mutex_full_view mutex_full_wf by (simp_all add: mutex_view_def mutex_wf_def)
  then show ?thesis
    using readme_loops_end [OF scalar_cas.weak_cas_axioms, of "mutex_full\<lparr>mq_closed := True\<rparr>" 3 0]
    by (simp add: mutex_closed_def del: mutex_view_sel)
qed

section \<open>Throwing move assignments\<close>

text \<open>
  C26. A move assignment that may throw, in every call of \<open>MutexQueue\<close> (non-blocking, blocking and
  timed) and in the non-blocking and blocking calls of \<open>SpscQueue\<close> for one element. Taking the
  queue as the call found it when it stopped waiting: a push that throws leaves the items, the
  capacity and the closed flag as they were; a pop that throws leaves all items but the front one,
  which holds whatever the failed move left in it; a call throws only if there was room (an item)
  and the move threw. A call that returns does what the abstract queue does, a call still waiting
  has changed nothing, and there is no undefined behaviour. \<open>MutexQueue\<close> notifies exactly once if
  the call moved an item, and nobody if it threw, gave up or waits. \<open>es\<close>, \<open>ts\<close>, \<open>ps\<close> and \<open>cs\<close> are
  what other threads do at each wait: they keep the queue well formed and do not push to an
  \<open>SpscQueue\<close> whose producer waits.
\<close>

theorem exception_safety:
  assumes "move_assignable mv" and "mutex_wf mq" and "spsc_wf sq"
    and "list_all (keeps mutex_wf) es" and "list_all (keeps mutex_wf) (until_timeout ts)"
    and "list_all no_producer ps" and "list_all (\<lambda>e. \<forall>p. keeps spsc_wf (e p)) cs"
  shows "mutex_push_effect False mv v mq (mutex_try_push mv v mq) \<and>
    mutex_pop_effect False mv out mq (mutex_try_pop mv out mq) \<and>
    mutex_push_effect True mv v (wake_state (can_push \<circ> mutex_view) id es mq) (mutex_push es mv v mq) \<and>
    mutex_pop_effect True mv out (wake_state (can_pop \<circ> mutex_view) id es mq) (mutex_pop es mv out mq) \<and>
    mutex_push_effect (\<not> times_out ts) mv v (wake_state (can_push \<circ> mutex_view) id (until_timeout ts) mq)
      (mutex_try_push_for ts mv v mq) \<and>
    mutex_pop_effect (\<not> times_out ts) mv out (wake_state (can_pop \<circ> mutex_view) id (until_timeout ts) mq)
      (mutex_try_pop_for ts mv out mq) \<and>
    spsc_push_effect False mv v sq (spsc_try_push mv v sq) \<and>
    spsc_pop_effect False mv out sq (spsc_try_pop mv out sq) \<and>
    spsc_push_effect True mv v (wake_state (can_push \<circ> spsc_view) push_refresh (paused 0 ps) sq) (spsc_push ps mv v sq) \<and>
    spsc_pop_effect True mv out (wake_state (can_pop \<circ> spsc_view) pop_refresh (paused 0 cs) sq) (spsc_pop cs mv out sq)"
  using move_assignable.mutex_try_effect [OF assms(1,2)] move_assignable.spsc_try_effect [OF assms(1,3)]
    move_assignable.mutex_push_effect [OF assms(1,2,4)] move_assignable.mutex_pop_effect [OF assms(1,2,4)]
    move_assignable.mutex_try_push_for_effect [OF assms(1,2,5)] move_assignable.mutex_try_pop_for_effect [OF assms(1,2,5)]
    move_assignable.spsc_push_effect [OF assms(1,3,6)] move_assignable.spsc_pop_effect [OF assms(1,3,7)]
  by blast

text \<open>On a full queue, with another thread that pops while the push waits, and a move that then throws.\<close>

theorem exception_safety_witness:
  "(\<exists>q'. mutex_push (mutex_others scalar_move [[Try_pop 0]]) fragile_move (- 1) mutex_full = Raised Move_assignment_failed q' \<and>
      items (mutex_view q') = [6] \<and> mq_signals q' = [Notify_one_not_full]) \<and>
   (\<exists>q'. mutex_try_push_for [Timed_out (meanwhile (mutex_ops scalar_move) [Try_pop 0])] fragile_move (- 1) mutex_full =
      Raised Move_assignment_failed q' \<and> items (mutex_view q') = [6] \<and> mq_signals q' = [Notify_one_not_full])"
proof -
  let ?e = "meanwhile (mutex_ops scalar_move) [Try_pop 0]"
    and ?q = "\<lparr>mq_buffer = [6, 5 :: int], mq_head = 0, mq_tail = 1, mq_size = 1, mq_closed = False, mq_signals = [Notify_one_not_full]\<rparr>"
  have e: "?e mutex_full = ?q"
    by (simp add: meanwhile_def mutex_ops_def mutex_try_pop_def mutex_full_def dequeue_locked_def finish_pop_def scalar_move_def
        mutex_next_def vector_size_def mutex_notify_def)
  have q: "mutex_view ?q = \<lparr>items = [6], bound = 2, shut = False\<rparr>"
    by (simp add: mutex_view_def ring_items_def upt_small)
  have wake: "wake_state (can_push \<circ> mutex_view) id [?e] mutex_full = ?q"
    by (simp add: mutex_full_view can_push_def fifo_full_def e del: mutex_view_sel)
  have "not_full_or_closed_locked ?q" "\<not> not_full_or_closed_locked mutex_full"
    by (simp_all add: not_full_or_closed_locked_def mutex_full_def vector_size_def)
  then have threw: "\<exists>q'. mutex_push [?e] fragile_move (- 1) mutex_full = Raised Move_assignment_failed q'"
      "\<exists>q'. mutex_try_push_for [Timed_out ?e] fragile_move (- 1) mutex_full = Raised Move_assignment_failed q'"
    by (simp_all add: mutex_push_step e mutex_try_push_for_step finish_push_def enqueue_locked_def fragile_move_def)
  have keep: "list_all (keeps mutex_wf) [?e]"
    using scalar.mutex_others_keep [of "[[Try_pop 0]]"] by (simp add: mutex_others_def)
  have prems: "list_all (keeps mutex_wf) (until_timeout [Timed_out ?e])" "list_all no_producer []"
      "list_all (\<lambda>e. \<forall>p. keeps spsc_wf (e p)) []"
    using keep by simp_all
  note S = exception_safety [OF fragile.move_assignable_axioms mutex_full_wf spsc_full_wf keep prems, of "- 1" 0]
  have "mutex_push_effect True fragile_move (- 1) ?q (mutex_push [?e] fragile_move (- 1) mutex_full)"
      "mutex_push_effect False fragile_move (- 1) ?q (mutex_try_push_for [Timed_out ?e] fragile_move (- 1) mutex_full)"
    using S wake by (simp_all del: wake_state.simps)
  then show ?thesis
    using threw q by (auto simp: push_effect_def mutex_others_def simp del: mutex_view_sel)
qed

section \<open>Timed calls\<close>

text \<open>
  C28. \<^verbatim>\<open>try_push_for\<close> and \<^verbatim>\<open>try_pop_for\<close> of \<open>MutexQueue\<close>: up to the deadline they behave as
  \<^verbatim>\<open>push\<close> and \<^verbatim>\<open>pop\<close> do, and if they are still waiting then, as \<^verbatim>\<open>try_push\<close> and \<^verbatim>\<open>try_pop\<close>
  at that moment; in particular a timeout that has already elapsed gives \<^verbatim>\<open>try_push\<close> and
  \<^verbatim>\<open>try_pop\<close>. \<open>es\<close> is what other threads do before each wake-up, \<open>e\<close> before the time-out.
\<close>

theorem mutex_timed_calls:
  assumes "\<forall>g \<in> set (e # es). \<forall>q. mutex_wf q \<longrightarrow> mutex_wf (g q)" and "mutex_wf q"
  shows "mutex_try_push_for (map Woken es @ [Timed_out e]) mv v q =
      (case mutex_push es mv v q of Waiting q' \<Rightarrow> mutex_try_push mv v (e q') | r \<Rightarrow> r) \<and>
    mutex_try_pop_for (map Woken es @ [Timed_out e]) mv out q =
      (case mutex_pop es mv out q of Waiting (q', _) \<Rightarrow> mutex_try_pop mv out (e q') | r \<Rightarrow> r)"
  using assms
proof (induction es arbitrary: q)
  case Nil
  then show ?case
    by (simp add: mutex_try_push_for_step [of _ _ _ q] mutex_push_step [of _ _ _ q] mutex_try_push_pred
        mutex_try_pop_for_step [of _ _ _ q] mutex_pop_step [of _ _ _ q] mutex_try_pop_pred outcome_case_id)
next
  case (Cons g es)
  then show ?case
    by (simp add: mutex_try_push_for_step [of "Woken g # _" _ _ q] mutex_push_step [of "g # _" _ _ q]
        mutex_try_pop_for_step [of "Woken g # _" _ _ q] mutex_pop_step [of "g # _" _ _ q] outcome_case_id)
qed

theorem mutex_timed_calls_witness:
  "mutex_try_push_for [Timed_out id] scalar_move 9 mutex_full = Done False mutex_full"
  using mutex_timed_calls [of id "[]" mutex_full scalar_move 9] mutex_full_wf
  by (simp add: mutex_push_step not_full_or_closed_iff mutex_full_view mutex_try_push_pred fifo_full_def)

section \<open>Bulk transfer\<close>

text \<open>
  C25. The bulk calls. \<^verbatim>\<open>try_push_n\<close> enqueues a prefix of the span, in order, as one batch, leaves
  the rest of the span untouched and never overfills the ring; it enqueues nothing only if the
  span is empty, the queue closed or full. \<^verbatim>\<open>try_pop_n\<close> moves the front items, in order, to the
  start of the span and leaves the rest of the span alone; it takes nothing only if the span or
  the queue is empty.
\<close>

theorem spsc_bulk_transfer:
  assumes "nothrow_move_assignable mv" and "spsc_wf q" and "length xs < 2 ^ 64"
  shows "(\<exists>count q' xs'. try_push_n mv xs q = Done count (q', xs') \<and> spsc_wf q' \<and>
      spsc_view q' = (spsc_view q)\<lparr>items := items (spsc_view q) @ take (unat count) xs\<rparr> \<and>
      length xs' = length xs \<and> drop (unat count) xs' = drop (unat count) xs \<and> unat count \<le> length xs \<and>
      length (items (spsc_view q')) \<le> bound (spsc_view q) \<and>
      (count = 0 \<longleftrightarrow> xs = [] \<or> shut (spsc_view q) \<or> fifo_full (spsc_view q))) \<and>
    (\<exists>count q'. try_pop_n mv xs q =
        Done count (q', take (unat count) (items (spsc_view q)) @ drop (unat count) xs) \<and> spsc_wf q' \<and>
      spsc_view q' = (spsc_view q)\<lparr>items := drop (unat count) (items (spsc_view q))\<rparr> \<and>
      unat count \<le> length xs \<and> unat count \<le> length (items (spsc_view q)) \<and>
      (count = 0 \<longleftrightarrow> xs = [] \<or> items (spsc_view q) = []))"
proof
  obtain count q' xs' where r: "try_push_n mv xs q = Done count (q', xs')" "spsc_wf q'"
      "spsc_view q' = (spsc_view q)\<lparr>items := items (spsc_view q) @ take (unat count) xs\<rparr>"
      "length xs' = length xs" "drop (unat count) xs' = drop (unat count) xs" "unat count \<le> length xs"
      "count = 0 \<longleftrightarrow> xs = [] \<or> shut (spsc_view q) \<or> fifo_full (spsc_view q)"
    using nothrow_move_assignable.try_push_n_result [OF assms] by blast
  then show "\<exists>count q' xs'. try_push_n mv xs q = Done count (q', xs') \<and> spsc_wf q' \<and>
      spsc_view q' = (spsc_view q)\<lparr>items := items (spsc_view q) @ take (unat count) xs\<rparr> \<and>
      length xs' = length xs \<and> drop (unat count) xs' = drop (unat count) xs \<and> unat count \<le> length xs \<and>
      length (items (spsc_view q')) \<le> bound (spsc_view q) \<and>
      (count = 0 \<longleftrightarrow> xs = [] \<or> shut (spsc_view q) \<or> fifo_full (spsc_view q))"
    using spsc_view_ok [OF r(2)] by (auto simp: fifo_ok_def simp del: spsc_view_sel)
qed (rule nothrow_move_assignable.try_pop_n_result [OF assms])

theorem spsc_bulk_transfer_witness:
  "(\<exists>count q' xs'. try_push_n scalar_move [1, 2, 3] spsc_sample = Done count (q', xs') \<and>
      spsc_view q' = (spsc_view spsc_sample)\<lparr>items := items (spsc_view spsc_sample) @ take (unat count) [1, 2, 3]\<rparr> \<and> count \<noteq> 0) \<and>
   (\<exists>count q'. try_pop_n scalar_move [1, 2, 3] spsc_sample =
      Done count (q', take (unat count) (items (spsc_view spsc_sample)) @ drop (unat count) [1, 2, 3]) \<and> count \<noteq> 0)"
proof -
  have "length [1, 2, 3 :: int] < 2 ^ 64" "items (spsc_view spsc_sample) \<noteq> []"
      "\<not> (shut (spsc_view spsc_sample) \<or> fifo_full (spsc_view spsc_sample))"
    by (simp_all add: spsc_sample_def spsc_len_def ring_dist_def fifo_full_def)
  then show ?thesis
    using spsc_bulk_transfer [OF scalar.nothrow_move_assignable_axioms spsc_sample_wf, of "[1, 2, 3]"] by blast
qed

section \<open>Checks and observers\<close>

text \<open>
  C31. The cached checks of \<open>SpscQueue\<close> are exact: \<^verbatim>\<open>has_room\<close> is true iff the ring is not full
  and \<^verbatim>\<open>has_data\<close> iff it is not empty, however stale the cached index; they change nothing
  but that cache.
\<close>

theorem spsc_cached_checks_exact:
  assumes "spsc_wf q"
  shows "\<exists>hc tc. has_room (spsc_next q (sq_tail q)) q = (\<not> fifo_full (spsc_view q), q\<lparr>sq_head_cache := hc\<rparr>) \<and>
    has_data (sq_head q) q = (items (spsc_view q) \<noteq> [], q\<lparr>sq_tail_cache := tc\<rparr>) \<and>
    spsc_wf (q\<lparr>sq_head_cache := hc\<rparr>) \<and> spsc_wf (q\<lparr>sq_tail_cache := tc\<rparr>)"
  using has_room_spec [OF assms] has_data_spec [OF assms] by blast

theorem spsc_cached_checks_exact_witness:
  "\<exists>hc. has_room (spsc_next spsc_full (sq_tail spsc_full)) spsc_full = (False, spsc_full\<lparr>sq_head_cache := hc\<rparr>)"
  using spsc_cached_checks_exact [OF spsc_full_wf] by (auto simp: spsc_full_view fifo_full_def simp del: spsc_view_sel)

text \<open>
  C32. \<^verbatim>\<open>slot_index\<close>: on every queue the constructor can build, the fast path through the
  mask gives the same slot as the division, for every ticket, and the slot exists.
\<close>

theorem mpmc_slot_index:
  assumes "mpmc_new sz dflt capacity = Inr q" and "8 < sz"
  shows "slot_index q ticket = ticket mod vector_size (pq_slots q) \<and> unat (slot_index q ticket) < length (pq_slots q)"
proof -
  note N = mpmc_new_inv [OF assms]
  have "slot_index q ticket = ticket mod vector_size (pq_slots q)"
    by (rule slot_index_mod [OF mpmc_invD(3) [OF N(1)]])
  moreover have "unat (ticket mod vector_size (pq_slots q)) < length (pq_slots q)"
    using mpmc_invD(1,2) [OF N(1)] unat_vector_size [of "pq_slots q"] by (simp add: unat_mod_distrib)
  ultimately show ?thesis by simp
qed

theorem mpmc_slot_index_witness: "slot_index mpmc_sample 5 = 1"
  using mpmc_slot_index [OF mpmc_new_sample, of 5] by (simp add: mpmc_sample_def vector_size_def)

text \<open>
  C35. \<^verbatim>\<open>size()\<close> called by any thread while the others are at work. \<open>SpscQueue\<close>: its two loads may
  return any two published indices, in any combination, and still the result never exceeds
  \<^verbatim>\<open>capacity()\<close>. \<open>MpmcQueue\<close>: if its first load returns the counter with \<open>j\<close> tickets handed out to
  producers and its second one, any steps of the threads later, that with \<open>k\<close> tickets handed out to
  consumers, the result is \<open>j - k\<close>, clamped to 0 and to the capacity; so it is exact for a caller
  that knows the newest counters, while nobody moves.
\<close>

theorem size_snapshots:
  assumes "spsc_reachable u" and "mh \<in> set (mem u L_head)" and "mt \<in> set (mem u L_tail)"
    and "mpmc_reachable s" and "m_run s t" and "horizon t"
    and "readable (tview s i) (pmem s) L_enqueue j" and "readable (tview t i) (pmem t) L_dequeue k"
  shows "spsc_size_of (mval mh) (mval mt) (queue u) \<le> spsc_capacity (queue u) \<and>
    unat (mpmc_size_of (mval (pmem s L_enqueue ! j)) (mval (pmem t L_dequeue ! k)) (pqueue t)) =
      min (j - k) (unat (mpmc_capacity (pqueue t))) \<and>
    (s = t \<and> tview s i L_enqueue = ecount s \<and> tview s i L_dequeue = dcount s \<longrightarrow>
      unat (mpmc_size_of (mval (pmem s L_enqueue ! j)) (mval (pmem t L_dequeue ! k)) (pqueue t)) = ecount s - dcount s)"
proof -
  note T = mpmc_reachable_inv [OF m_run_keeps(1) [OF assms(5,4)] assms(6)]
  note Z = mpmc_size_snapshot [OF assms(4-8)]
  have N: "unat (mpmc_capacity (pqueue t)) = nslots t"
    using assms(6) by (simp add: mpmc_capacity_def horizon_def unat_vector_size)
  have "unat (mpmc_size_of (mval (pmem s L_enqueue ! j)) (mval (pmem t L_dequeue ! k)) (pqueue t)) = ecount s - dcount s"
    if "s = t" "tview s i L_enqueue = ecount s" "tview s i L_dequeue = dcount s"
  proof -
    have "j = ecount s" "k = dcount s"
      using assms(7,8) that m_memD(3,4) [OF T] by (auto simp: readable_def)
    moreover have "ecount s \<le> dcount s + nslots s"
      using ticket_window [OF T] that(1) by simp
    ultimately show ?thesis
      using Z that(1) by simp
  qed
  then show ?thesis
    using Z N spsc_size_snapshot [OF assms(1-3)] by auto
qed

theorem size_snapshots_witness:
  "spsc_size_of 1 0 (queue spsc_given_up) \<le> spsc_capacity (queue spsc_given_up) \<and>
   unat (mpmc_size_of (mval (pmem mpmc_reading L_enqueue ! 1)) (mval (pmem mpmc_reading L_dequeue ! 1)) (pqueue mpmc_reading)) = 0"
proof -
  have "readable (tview mpmc_reading 0) (pmem mpmc_reading) L_enqueue 1" "readable (tview mpmc_reading 0) (pmem mpmc_reading) L_dequeue 1"
    by (simp_all add: sample_defs readable_def)
  then show ?thesis
    using size_snapshots [OF spsc_given_up_reachable, of "mem spsc_given_up L_head ! 1" "mem spsc_given_up L_tail ! 0",
        OF _ _ mpmc_reading_reachable rtranclp.rtrancl_refl sample_horizon(3)]
    by (simp add: spsc_given_up_def Let_def)
qed

end
